theory Spec2Isabelle
  imports Complex_Main "HOL-Library.Monad_Syntax" "HOL-Library.Multiset"
begin

section \<open>The GPT-2 forward pass of gpt2\_optimized.c\<close>

text \<open>
  The embedding follows \<^verbatim>\<open>src/gpt2/gpt2_optimized.c\<close> function by function.

  \<^item> In the first part a \<^verbatim>\<open>float\<close> is a real number: rounding, overflow, infinities and
    NaN are not modelled there, and its equations are those of exact arithmetic. What is
    read, written, allocated and freed does not depend on the arithmetic. The values
    that \<^verbatim>\<open>linear\<close>, \<^verbatim>\<open>gelu\<close>, \<^verbatim>\<open>norm\<close> and \<^verbatim>\<open>scaled_dot_product_attention\<close> compute are
    taken up in a part of their own, with the arithmetic of the machine left open.
  \<^item> A \<^verbatim>\<open>float *\<close> buffer is the list of its cells and a \<^verbatim>\<open>float **\<close> is the list of
    its rows, each row a buffer of its own length (the rows are separate allocations).
  \<^item> Every read and every write is checked against the length of the buffer it goes to.
    An access outside the buffer is undefined behaviour in C; here it is the value
    \<open>None\<close>, and it ends the computation.
  \<^item> Sizes and indices are natural numbers: every call in the program passes sizes that
    are not negative. Token ids and positions are \<^verbatim>\<open>int\<close>, as in the source.
  \<^item> The two OpenMP work-sharing loops of the attention kernel are run in program order.
\<close>

subsection \<open>Constants\<close>

definition EPSILON :: real where
  "EPSILON = 1 / 100000"

definition EMBEDDING_SIZE :: nat where
  "EMBEDDING_SIZE = 768"

definition NUM_BLOCKS :: nat where
  "NUM_BLOCKS = 12"

definition NUM_HEADS :: nat where
  "NUM_HEADS = 12"

definition HEAD_DIM :: nat where
  "HEAD_DIM = EMBEDDING_SIZE div NUM_HEADS"

definition VOCAB_SIZE :: nat where
  "VOCAB_SIZE = 50257"

definition MAX_POSITION_EMBEDDINGS :: nat where
  "MAX_POSITION_EMBEDDINGS = 1024"

subsection \<open>Data\<close>

type_synonym vec = "real list"

type_synonym matrix = "real list list"

record LinearLayer =
  weights :: matrix
  biases :: vec
  fcInputSize :: nat
  fcOutputSize :: nat

record BlockWeights =
  q_mlp :: LinearLayer
  k_mlp :: LinearLayer
  v_mlp :: LinearLayer
  first_block_MLP :: LinearLayer
  second_block_MLP :: LinearLayer

record GPT2Weights =
  wpe :: matrix
  wte :: matrix
  blocks :: "BlockWeights list"
  logits_mlp :: LinearLayer

subsection \<open>Memory accesses\<close>

text \<open>\<open>rd a i\<close> is the read \<^verbatim>\<open>a[i]\<close>, \<open>rd_int\<close> the same read at an \<^verbatim>\<open>int\<close> index, and
  \<open>wr a i v\<close> the write \<^verbatim>\<open>a[i] = v\<close>.\<close>

definition rd :: "'a list \<Rightarrow> nat \<Rightarrow> 'a option" where
  "rd a i = (if i < length a then Some (a ! i) else None)"

definition rd_int :: "'a list \<Rightarrow> int \<Rightarrow> 'a option" where
  "rd_int a k = (if 0 \<le> k \<and> nat k < length a then Some (a ! nat k) else None)"

definition wr :: "'a list \<Rightarrow> nat \<Rightarrow> 'a \<Rightarrow> 'a list option" where
  "wr a i v = (if i < length a then Some (a[i := v]) else None)"

text \<open>A buffer fresh from \<^verbatim>\<open>malloc\<close>. Its contents are indeterminate in C; the model fills
  it with 0. The functions below overwrite every cell of a buffer they allocate before
  the cell is read, whenever the sizes they are given fit (see the lemmas on each).\<close>

definition malloc_floats :: "nat \<Rightarrow> vec" where
  "malloc_floats n = replicate n 0"

text \<open>\<^verbatim>\<open>memcpy(&dst[doff], &src[soff], n * sizeof(float))\<close>: \<open>n\<close> cells are read from \<open>src\<close>
  and written to \<open>dst\<close>.\<close>

definition memcpy :: "vec \<Rightarrow> nat \<Rightarrow> vec \<Rightarrow> nat \<Rightarrow> nat \<Rightarrow> vec option" where
  "memcpy dst doff src soff n =
     (if soff + n \<le> length src \<and> doff + n \<le> length dst
      then Some (take doff dst @ take n (drop soff src) @ drop (doff + n) dst)
      else None)"

subsection \<open>The SSE intrinsics\<close>

text \<open>A \<^verbatim>\<open>__m128\<close> holds four floats. A load or store at \<^verbatim>\<open>&a[j]\<close> touches the cells
  \<open>j, j+1, j+2, j+3\<close> of \<open>a\<close>. The aligned and unaligned loads differ in the alignment
  they require of the address only, which is not modelled.\<close>

datatype m128 = M128 real real real real

definition mm_setzero_ps :: m128 where
  "mm_setzero_ps = M128 0 0 0 0"

definition mm_set1_ps :: "real \<Rightarrow> m128" where
  "mm_set1_ps c = M128 c c c c"

fun mm_add_ps :: "m128 \<Rightarrow> m128 \<Rightarrow> m128" where
  "mm_add_ps (M128 a0 a1 a2 a3) (M128 b0 b1 b2 b3) = M128 (a0 + b0) (a1 + b1) (a2 + b2) (a3 + b3)"

fun mm_mul_ps :: "m128 \<Rightarrow> m128 \<Rightarrow> m128" where
  "mm_mul_ps (M128 a0 a1 a2 a3) (M128 b0 b1 b2 b3) = M128 (a0 * b0) (a1 * b1) (a2 * b2) (a3 * b3)"

definition mm_loadu_ps :: "vec \<Rightarrow> nat \<Rightarrow> m128 option" where
  "mm_loadu_ps a j =
     (if j + 4 \<le> length a then Some (M128 (a ! j) (a ! (j + 1)) (a ! (j + 2)) (a ! (j + 3)))
      else None)"

definition mm_load_ps :: "vec \<Rightarrow> nat \<Rightarrow> m128 option" where
  "mm_load_ps a j = mm_loadu_ps a j"

fun mm_storeu_ps :: "vec \<Rightarrow> nat \<Rightarrow> m128 \<Rightarrow> vec option" where
  "mm_storeu_ps a j (M128 v0 v1 v2 v3) =
     (if j + 4 \<le> length a then Some (a[j := v0, j + 1 := v1, j + 2 := v2, j + 3 := v3])
      else None)"

text \<open>\<^verbatim>\<open>float temp[4]; _mm_storeu_ps(temp, r); temp[0] + temp[1] + temp[2] + temp[3]\<close>\<close>

fun hsum :: "m128 \<Rightarrow> real" where
  "hsum (M128 t0 t1 t2 t3) = t0 + t1 + t2 + t3"

subsection \<open>Loops\<close>

text \<open>\<open>count_by step lo hi\<close> lists the values the counter of
  \<^verbatim>\<open>for (j = lo; j < hi; j += step)\<close> takes; the steps of the program are 4 and 64.\<close>

function count_by :: "nat \<Rightarrow> nat \<Rightarrow> nat \<Rightarrow> nat list" where
  "count_by step lo hi = (if lo < hi \<and> 0 < step then lo # count_by step (lo + step) hi else [])"
  by pat_completeness auto
termination
  by (relation "measure (\<lambda>(step, lo, hi). hi - lo)") auto

declare count_by.simps [simp del]

text \<open>\<open>for_loop js body s\<close> runs \<open>body j\<close> for each counter value in turn on the variables
  \<open>s\<close> the loop updates, and stops at the first access out of bounds.\<close>

fun for_loop :: "nat list \<Rightarrow> (nat \<Rightarrow> 's \<Rightarrow> 's option) \<Rightarrow> 's \<Rightarrow> 's option" where
  "for_loop [] body s = Some s"
| "for_loop (j # js) body s = (case body j s of None \<Rightarrow> None | Some s' \<Rightarrow> for_loop js body s')"

text \<open>\<open>build n f\<close> is an array of \<open>n\<close> cells filled in index order:
  \<^verbatim>\<open>a = malloc(n * ...); for (i = 0; i < n; i++) a[i] = f(i);\<close>\<close>

fun collect :: "'a option list \<Rightarrow> 'a list option" where
  "collect [] = Some []"
| "collect (None # rs) = None"
| "collect (Some v # rs) = (case collect rs of None \<Rightarrow> None | Some vs \<Rightarrow> Some (v # vs))"

definition build :: "nat \<Rightarrow> (nat \<Rightarrow> 'a option) \<Rightarrow> 'a list option" where
  "build n f = collect (map f [0..<n])"

subsection \<open>linear\<close>

definition linear_layer :: "vec \<Rightarrow> matrix \<Rightarrow> vec \<Rightarrow> nat \<Rightarrow> nat \<Rightarrow> vec option" where
  "linear_layer fcInput wts bs inSize outSize =
     build outSize (\<lambda>i. do {
       result \<leftarrow> for_loop (count_by 4 0 inSize) (\<lambda>j result. do {
           input_vals \<leftarrow> mm_loadu_ps fcInput j;
           wrow \<leftarrow> rd wts i;
           weight_vals \<leftarrow> mm_loadu_ps wrow j;
           Some (mm_add_ps result (mm_mul_ps input_vals weight_vals))
         }) mm_setzero_ps;
       b \<leftarrow> rd bs i;
       Some (hsum result + b)
     })"

subsection \<open>scaled\_dot\_product\_attention\<close>

text \<open>\<open>wr2 a i j v\<close> is the write \<^verbatim>\<open>a[i][j] = v\<close> into row \<open>i\<close> of a \<^verbatim>\<open>float **\<close>.\<close>

definition wr2 :: "matrix \<Rightarrow> nat \<Rightarrow> nat \<Rightarrow> real \<Rightarrow> matrix option" where
  "wr2 a i j v = do {
     row \<leftarrow> rd a i;
     row' \<leftarrow> wr row j v;
     wr a i row'
   }"

text \<open>The argument \<open>V\<close> is never read. The tiles \<open>(bi, bj)\<close> are visited in program order;
  in the source an OpenMP pragma hands them out to threads.\<close>

definition scaled_dot_product_attention ::
  "matrix \<Rightarrow> matrix \<Rightarrow> matrix \<Rightarrow> nat \<Rightarrow> nat \<Rightarrow> matrix option" where
  "scaled_dot_product_attention Q K V seqLength depth =
     (let output = replicate seqLength (malloc_floats seqLength);
          scale_factor = 1 / sqrt (real depth);
          block_size = 64
      in for_loop (count_by block_size 0 seqLength) (\<lambda>bi output.
           for_loop (count_by block_size 0 seqLength) (\<lambda>bj output.
             for_loop [bi..<min (bi + block_size) seqLength] (\<lambda>i output.
               for_loop [bj..<min (bj + block_size) seqLength] (\<lambda>j output. do {
                   sum \<leftarrow> for_loop (count_by 4 0 depth) (\<lambda>k_idx sum. do {
                       Qi \<leftarrow> rd Q i;
                       q_vals \<leftarrow> mm_load_ps Qi k_idx;
                       Kj \<leftarrow> rd K j;
                       k_vals \<leftarrow> mm_load_ps Kj k_idx;
                       Some (mm_add_ps sum (mm_mul_ps q_vals k_vals))
                     }) mm_setzero_ps;
                   wr2 output i j (hsum sum * scale_factor)
                 }) output) output) output) output)"

subsection \<open>matrix\_add\<close>

definition matrix_add :: "matrix \<Rightarrow> matrix \<Rightarrow> nat \<Rightarrow> nat \<Rightarrow> matrix option" where
  "matrix_add x y numRow numCol =
     build numRow (\<lambda>i. do {
       result_i \<leftarrow> for_loop (count_by 4 0 numCol) (\<lambda>j result_i. do {
           xi \<leftarrow> rd x i;
           vec_x \<leftarrow> mm_loadu_ps xi j;
           yi \<leftarrow> rd y i;
           vec_y \<leftarrow> mm_loadu_ps yi j;
           mm_storeu_ps result_i j (mm_add_ps vec_x vec_y)
         }) (malloc_floats numCol);
       for_loop [numCol - numCol mod 4..<numCol] (\<lambda>j result_i. do {
           xi \<leftarrow> rd x i;
           xij \<leftarrow> rd xi j;
           yi \<leftarrow> rd y i;
           yij \<leftarrow> rd yi j;
           wr result_i j (xij + yij)
         }) result_i
     })"

subsection \<open>norm\<close>

definition norm_layer :: "matrix \<Rightarrow> nat \<Rightarrow> nat \<Rightarrow> matrix option" where
  "norm_layer x seqLength features =
     build seqLength (\<lambda>i. do {
       mean \<leftarrow> for_loop [0..<features] (\<lambda>j mean. do {
           xi \<leftarrow> rd x i;
           xij \<leftarrow> rd xi j;
           Some (mean + xij)
         }) 0;
       let mean = mean / real features;
       variance \<leftarrow> for_loop [0..<features] (\<lambda>j variance. do {
           xi \<leftarrow> rd x i;
           xij \<leftarrow> rd xi j;
           Some (variance + (xij - mean) * (xij - mean))
         }) 0;
       let variance = variance / real features;
       build features (\<lambda>j. do {
           xi \<leftarrow> rd x i;
           xij \<leftarrow> rd xi j;
           Some ((xij - mean) / sqrt (variance + EPSILON))
         })
     })"

subsection \<open>gelu\<close>

definition gelu :: "vec \<Rightarrow> nat \<Rightarrow> vec option" where
  "gelu x n =
     for_loop (count_by 4 0 n) (\<lambda>i output. do {
         input_vals \<leftarrow> mm_loadu_ps x i;
         let result = mm_mul_ps input_vals (mm_set1_ps (1 / 2));
         mm_storeu_ps output i result
       }) (malloc_floats n)"

subsection \<open>positions\_for\<close>

definition positions_for :: "int list \<Rightarrow> nat \<Rightarrow> int \<Rightarrow> int list" where
  "positions_for tokens seqLength past_length = map (\<lambda>i. past_length + int i) [0..<seqLength]"

subsection \<open>block\<close>

text \<open>The body of \<^verbatim>\<open>block\<close> is cut at its own comment lines into the parts below; \<open>block\<close>
  runs them in the order of the source. The calls of \<^verbatim>\<open>free\<close> at its end change no value
  and are left to the store model further down.\<close>

text \<open>Lines 253 to 262: one loop fills row \<open>i\<close> of \<open>Q\<close>, \<open>K\<close> and \<open>V\<close>.\<close>

definition apply_layer :: "LinearLayer \<Rightarrow> vec \<Rightarrow> vec option" where
  "apply_layer l v = linear_layer v (weights l) (biases l) (fcInputSize l) (fcOutputSize l)"

definition project_qkv ::
  "matrix \<Rightarrow> nat \<Rightarrow> BlockWeights \<Rightarrow> (vec \<times> vec \<times> vec) list option" where
  "project_qkv normalized_x seqLength w =
     build seqLength (\<lambda>i. do {
       xi \<leftarrow> rd normalized_x i;
       Qi \<leftarrow> apply_layer (q_mlp w) xi;
       Ki \<leftarrow> apply_layer (k_mlp w) xi;
       Vi \<leftarrow> apply_layer (v_mlp w) xi;
       Some (Qi, Ki, Vi)
     })"

text \<open>Lines 264 to 284: for each head \<open>h\<close> and position \<open>i\<close>, \<open>HEAD_DIM\<close> floats are copied
  from \<^verbatim>\<open>&Q[i][h * HEAD_DIM]\<close> into a fresh buffer, and the same for \<open>K\<close> and \<open>V\<close>.\<close>

definition head_slice :: "vec \<Rightarrow> nat \<Rightarrow> vec option" where
  "head_slice row h = memcpy (malloc_floats HEAD_DIM) 0 row (h * HEAD_DIM) HEAD_DIM"

definition split_heads ::
  "matrix \<Rightarrow> matrix \<Rightarrow> matrix \<Rightarrow> nat \<Rightarrow> (vec \<times> vec \<times> vec) list list option" where
  "split_heads Q K V seqLength =
     build NUM_HEADS (\<lambda>h. build seqLength (\<lambda>i. do {
       Qi \<leftarrow> rd Q i;
       Qhi \<leftarrow> head_slice Qi h;
       Ki \<leftarrow> rd K i;
       Khi \<leftarrow> head_slice Ki h;
       Vi \<leftarrow> rd V i;
       Vhi \<leftarrow> head_slice Vi h;
       Some (Qhi, Khi, Vhi)
     }))"

text \<open>Lines 286 to 295: the attention kernel on each head.\<close>

definition attention_heads ::
  "(vec \<times> vec \<times> vec) list list \<Rightarrow> nat \<Rightarrow> matrix list option" where
  "attention_heads heads seqLength =
     build NUM_HEADS (\<lambda>h. do {
       head \<leftarrow> rd heads h;
       scaled_dot_product_attention (map fst head) (map (fst \<circ> snd) head) (map (snd \<circ> snd) head)
         seqLength HEAD_DIM
     })"

text \<open>Lines 297 to 306: row \<open>i\<close> of \<open>a\<close> has \<open>embeddingSize\<close> cells; for each head \<open>h\<close>,
  \<open>HEAD_DIM\<close> floats are copied from \<^verbatim>\<open>head_outputs[h][i]\<close> to \<^verbatim>\<open>&a[i][h * HEAD_DIM]\<close>.\<close>

definition concat_heads :: "matrix list \<Rightarrow> nat \<Rightarrow> nat \<Rightarrow> matrix option" where
  "concat_heads head_outputs seqLength embeddingSize =
     build seqLength (\<lambda>i.
       for_loop [0..<NUM_HEADS] (\<lambda>h a_i. do {
           head_output \<leftarrow> rd head_outputs h;
           src \<leftarrow> rd head_output i;
           memcpy a_i (h * HEAD_DIM) src 0 HEAD_DIM
         }) (malloc_floats embeddingSize))"

text \<open>Lines 264 to 306 together: the multi-head attention of the block.\<close>

definition multi_head_attention ::
  "matrix \<Rightarrow> matrix \<Rightarrow> matrix \<Rightarrow> nat \<Rightarrow> nat \<Rightarrow> matrix option" where
  "multi_head_attention Q K V seqLength embeddingSize = do {
     heads \<leftarrow> split_heads Q K V seqLength;
     head_outputs \<leftarrow> attention_heads heads seqLength;
     concat_heads head_outputs seqLength embeddingSize
   }"

text \<open>Lines 314 to 333: the two-layer MLP on each row.\<close>

definition mlp_rows :: "matrix \<Rightarrow> nat \<Rightarrow> BlockWeights \<Rightarrow> matrix option" where
  "mlp_rows normalized_x_added seqLength w =
     build seqLength (\<lambda>i. do {
       xi \<leftarrow> rd normalized_x_added i;
       first_mlp_out \<leftarrow> apply_layer (first_block_MLP w) xi;
       gelu_out \<leftarrow> gelu first_mlp_out (fcOutputSize (first_block_MLP w));
       apply_layer (second_block_MLP w) gelu_out
     })"

definition block :: "matrix \<Rightarrow> nat \<Rightarrow> nat \<Rightarrow> BlockWeights \<Rightarrow> matrix option" where
  "block x seqLength embeddingSize w = do {
     normalized_x \<leftarrow> norm_layer x seqLength embeddingSize;
     QKV \<leftarrow> project_qkv normalized_x seqLength w;
     a \<leftarrow> multi_head_attention (map fst QKV) (map (fst \<circ> snd) QKV) (map (snd \<circ> snd) QKV)
            seqLength embeddingSize;
     x_added \<leftarrow> matrix_add x a seqLength embeddingSize;
     normalized_x_added \<leftarrow> norm_layer x_added seqLength embeddingSize;
     m \<leftarrow> mlp_rows normalized_x_added seqLength w;
     matrix_add x_added m seqLength embeddingSize
   }"

subsection \<open>model\<close>

definition embed_tokens :: "int list \<Rightarrow> int list \<Rightarrow> nat \<Rightarrow> GPT2Weights \<Rightarrow> matrix option" where
  "embed_tokens tokens positions seqLength w =
     build seqLength (\<lambda>i. build EMBEDDING_SIZE (\<lambda>j. do {
       t \<leftarrow> rd tokens i;
       wte_t \<leftarrow> rd_int (wte w) t;
       wte_tj \<leftarrow> rd wte_t j;
       p \<leftarrow> rd positions i;
       wpe_p \<leftarrow> rd_int (wpe w) p;
       wpe_pj \<leftarrow> rd wpe_p j;
       Some (wte_tj + wpe_pj)
     }))"

definition model :: "int list \<Rightarrow> nat \<Rightarrow> GPT2Weights \<Rightarrow> vec option" where
  "model tokens seqLength w = do {
     let past_length = 0;
     let positions = positions_for tokens seqLength past_length;
     h \<leftarrow> embed_tokens tokens positions seqLength w;
     h \<leftarrow> for_loop [0..<NUM_BLOCKS] (\<lambda>i h. do {
         bw \<leftarrow> rd (blocks w) i;
         block h seqLength EMBEDDING_SIZE bw
       }) h;
     h_last \<leftarrow> rd_int h (int seqLength - 1);
     apply_layer (logits_mlp w) h_last
   }"

text \<open>The dot product of the specification: the sum of the products of the cells.\<close>

definition dot :: "vec \<Rightarrow> vec \<Rightarrow> real" where
  "dot u v = (\<Sum>k<length v. u ! k * v ! k)"

text \<open>Layer normalisation of the specification, for one row: the mean, the biased variance
  (the sum of squared deviations divided by the number of features) and the normalised
  row, with no scale and no shift.\<close>

definition mean_of :: "vec \<Rightarrow> real" where
  "mean_of r = sum_list r / real (length r)"

definition variance_of :: "vec \<Rightarrow> real" where
  "variance_of r = (\<Sum>v\<leftarrow>r. (v - mean_of r)\<^sup>2) / real (length r)"

definition normalize_row :: "vec \<Rightarrow> vec" where
  "normalize_row r = map (\<lambda>v. (v - mean_of r) / sqrt (variance_of r + 1 / 100000)) r"

subsection \<open>Shapes of the weights\<close>

text \<open>The shapes the struct comments give (\<^verbatim>\<open>weights[fcOutputSize][fcInputSize]\<close>,
  \<^verbatim>\<open>biases[fcOutputSize]\<close>) and \<^verbatim>\<open>initialize_weights\<close> sets up: every projection of a block
  is \<open>EMBEDDING_SIZE\<close> wide on both sides, the MLP goes to four times that width and back,
  the tables have \<open>VOCAB_SIZE\<close> and \<open>MAX_POSITION_EMBEDDINGS\<close> rows, there are \<open>NUM_BLOCKS\<close>
  blocks, and the output layer has \<open>VOCAB_SIZE\<close> rows.\<close>

definition layer_ok :: "LinearLayer \<Rightarrow> nat \<Rightarrow> nat \<Rightarrow> bool" where
  "layer_ok l inSize outSize \<longleftrightarrow>
     fcInputSize l = inSize \<and> fcOutputSize l = outSize \<and>
     length (weights l) = outSize \<and> (\<forall>r\<in>set (weights l). length r = inSize) \<and>
     length (biases l) = outSize"

definition block_weights_ok :: "BlockWeights \<Rightarrow> bool" where
  "block_weights_ok w \<longleftrightarrow>
     layer_ok (q_mlp w) EMBEDDING_SIZE EMBEDDING_SIZE \<and>
     layer_ok (k_mlp w) EMBEDDING_SIZE EMBEDDING_SIZE \<and>
     layer_ok (v_mlp w) EMBEDDING_SIZE EMBEDDING_SIZE \<and>
     layer_ok (first_block_MLP w) EMBEDDING_SIZE (EMBEDDING_SIZE * 4) \<and>
     layer_ok (second_block_MLP w) (EMBEDDING_SIZE * 4) EMBEDDING_SIZE"

definition weights_ok :: "GPT2Weights \<Rightarrow> bool" where
  "weights_ok w \<longleftrightarrow>
     length (wte w) = VOCAB_SIZE \<and> (\<forall>r\<in>set (wte w). length r = EMBEDDING_SIZE) \<and>
     length (wpe w) = MAX_POSITION_EMBEDDINGS \<and> (\<forall>r\<in>set (wpe w). length r = EMBEDDING_SIZE) \<and>
     length (blocks w) = NUM_BLOCKS \<and> (\<forall>b\<in>set (blocks w). block_weights_ok b) \<and>
     layer_ok (logits_mlp w) EMBEDDING_SIZE VOCAB_SIZE"

text \<open>A weight set of these shapes, to run the model on: every weight is \<open>1/100\<close> and
  every bias is 0, as \<^verbatim>\<open>initialize_linear_layer\<close> sets the biases.\<close>

definition example_layer :: "nat \<Rightarrow> nat \<Rightarrow> LinearLayer" where
  "example_layer inSize outSize =
     \<lparr>weights = replicate outSize (replicate inSize (1 / 100)),
      biases = replicate outSize 0,
      fcInputSize = inSize,
      fcOutputSize = outSize\<rparr>"

definition example_block :: BlockWeights where
  "example_block =
     \<lparr>q_mlp = example_layer EMBEDDING_SIZE EMBEDDING_SIZE,
      k_mlp = example_layer EMBEDDING_SIZE EMBEDDING_SIZE,
      v_mlp = example_layer EMBEDDING_SIZE EMBEDDING_SIZE,
      first_block_MLP = example_layer EMBEDDING_SIZE (EMBEDDING_SIZE * 4),
      second_block_MLP = example_layer (EMBEDDING_SIZE * 4) EMBEDDING_SIZE\<rparr>"

definition example_weights :: GPT2Weights where
  "example_weights =
     \<lparr>wpe = replicate MAX_POSITION_EMBEDDINGS (replicate EMBEDDING_SIZE (1 / 100)),
      wte = replicate VOCAB_SIZE (replicate EMBEDDING_SIZE (1 / 100)),
      blocks = replicate NUM_BLOCKS example_block,
      logits_mlp = example_layer EMBEDDING_SIZE VOCAB_SIZE\<rparr>"

subsection \<open>The stages as the specification words them\<close>

text \<open>A linear projection: cell \<open>i\<close> of the output is \<open>bias[i] + dot(weights[i], input)\<close>.\<close>

definition linear_spec :: "LinearLayer \<Rightarrow> vec \<Rightarrow> vec" where
  "linear_spec l v = map (\<lambda>i. biases l ! i + dot (weights l ! i) v) [0..<fcOutputSize l]"

text \<open>Head \<open>h\<close> of a row: its \<open>HEAD_DIM\<close> columns from \<open>h * HEAD_DIM\<close> on.\<close>

definition head_of :: "nat \<Rightarrow> vec \<Rightarrow> vec" where
  "head_of h row = take HEAD_DIM (drop (h * HEAD_DIM) row)"

text \<open>The scores of head \<open>h\<close>: entry \<open>(i, j)\<close> is \<open>dot(Q_h[i], K_h[j]) / sqrt HEAD_DIM\<close>.\<close>

definition scores :: "nat \<Rightarrow> matrix \<Rightarrow> matrix \<Rightarrow> matrix" where
  "scores h Q K =
     map (\<lambda>q. map (\<lambda>k. (1 / sqrt (real HEAD_DIM)) * dot (head_of h q) (head_of h k)) K) Q"

text \<open>What the block takes for its attention output when the sequence has at least
  \<open>HEAD_DIM\<close> positions: row \<open>i\<close> is, head after head, the first \<open>HEAD_DIM\<close> scores of row \<open>i\<close>.\<close>

definition attention_rows :: "matrix \<Rightarrow> matrix \<Rightarrow> matrix" where
  "attention_rows Q K =
     map (\<lambda>i. concat (map (\<lambda>h. take HEAD_DIM (scores h Q K ! i)) [0..<NUM_HEADS])) [0..<length Q]"

text \<open>The seven steps of the block, on values.\<close>

definition block_spec :: "matrix \<Rightarrow> BlockWeights \<Rightarrow> matrix" where
  "block_spec x w =
     (let normalized_x = map normalize_row x;
          Q = map (linear_spec (q_mlp w)) normalized_x;
          K = map (linear_spec (k_mlp w)) normalized_x;
          a = attention_rows Q K;
          x1 = map2 (map2 (+)) x a;
          normalized_x1 = map normalize_row x1;
          feed_forward = map (\<lambda>r. linear_spec (second_block_MLP w)
                                 (map (\<lambda>v. (1 / 2) * v) (linear_spec (first_block_MLP w) r)))
                           normalized_x1
      in map2 (map2 (+)) x1 feed_forward)"

text \<open>The seven steps of the block, as a sequence of the functions of the program: the
  three projections are three passes of their own over the rows.\<close>

definition block_pipeline :: "matrix \<Rightarrow> nat \<Rightarrow> nat \<Rightarrow> BlockWeights \<Rightarrow> matrix option" where
  "block_pipeline x seqLength embeddingSize w = do {
     normalized_x \<leftarrow> norm_layer x seqLength embeddingSize;
     Q \<leftarrow> build seqLength (\<lambda>i. do { xi \<leftarrow> rd normalized_x i; apply_layer (q_mlp w) xi });
     K \<leftarrow> build seqLength (\<lambda>i. do { xi \<leftarrow> rd normalized_x i; apply_layer (k_mlp w) xi });
     V \<leftarrow> build seqLength (\<lambda>i. do { xi \<leftarrow> rd normalized_x i; apply_layer (v_mlp w) xi });
     a \<leftarrow> multi_head_attention Q K V seqLength embeddingSize;
     x1 \<leftarrow> matrix_add x a seqLength embeddingSize;
     normalized_x1 \<leftarrow> norm_layer x1 seqLength embeddingSize;
     feed_forward \<leftarrow> build seqLength (\<lambda>i. do {
         xi \<leftarrow> rd normalized_x1 i;
         hidden \<leftarrow> apply_layer (first_block_MLP w) xi;
         activated \<leftarrow> gelu hidden (fcOutputSize (first_block_MLP w));
         apply_layer (second_block_MLP w) activated
       });
     matrix_add x1 feed_forward seqLength embeddingSize
   }"

text \<open>The three steps of the model, on values: embed_tokens the tokens at their positions, run
  the blocks in order, project the last row.\<close>

definition model_spec :: "int list \<Rightarrow> GPT2Weights \<Rightarrow> vec" where
  "model_spec tokens w =
     (let h0 = map (\<lambda>i. map2 (+) (wte w ! nat (tokens ! i)) (wpe w ! i)) [0..<length tokens];
          h = fold (\<lambda>b h. block_spec h b) (blocks w) h0
      in linear_spec (logits_mlp w) (h ! (length tokens - 1)))"

section \<open>The values computed, in the arithmetic of the machine\<close>

text \<open>
  Where the functions above read and write, and what they allocate, does not depend on
  how floats are added and multiplied; the values they compute do. For the values the
  four kernels are taken up again with the arithmetic left open: the operations on
  \<^verbatim>\<open>float\<close> (type \<open>'f\<close>) and on \<^verbatim>\<open>double\<close> (type \<open>'d\<close>) are the fields of a record, and each
  operator of the source is one application of one of them, in the order and at the
  type C gives it. What is proved of these functions holds whatever the operations are:
  with rounding after every operation, with infinities and NaN, and with exact
  arithmetic as well. A product and the sum that takes it are two operations here (no
  fused multiply-add).
\<close>

record ('f, 'd) float_ops =
  fadd :: "'f \<Rightarrow> 'f \<Rightarrow> 'f"
  fsub :: "'f \<Rightarrow> 'f \<Rightarrow> 'f"
  fmul :: "'f \<Rightarrow> 'f \<Rightarrow> 'f"
  fdiv :: "'f \<Rightarrow> 'f \<Rightarrow> 'f"
  fzero :: 'f
  fone :: 'f
  fhalf :: 'f
  float_of_int :: "nat \<Rightarrow> 'f"
  double_of_float :: "'f \<Rightarrow> 'd"
  float_of_double :: "'d \<Rightarrow> 'f"
  dadd :: "'d \<Rightarrow> 'd \<Rightarrow> 'd"
  ddiv :: "'d \<Rightarrow> 'd \<Rightarrow> 'd"
  dsqrt :: "'d \<Rightarrow> 'd"
  depsilon :: 'd

text \<open>\<open>fzero\<close>, \<open>fone\<close> and \<open>fhalf\<close> are the constants \<^verbatim>\<open>0.0f\<close>, \<^verbatim>\<open>1.0f\<close> and \<^verbatim>\<open>0.5f\<close>,
  \<open>float_of_int\<close> is the conversion \<^verbatim>\<open>(float)n\<close> of an \<^verbatim>\<open>int\<close> that is not negative,
  \<open>dsqrt\<close> is \<^verbatim>\<open>sqrt\<close> of \<^verbatim>\<open>math.h\<close>, on doubles, and \<open>depsilon\<close> is the double constant
  \<^verbatim>\<open>EPSILON\<close>. Exact arithmetic is one choice of the operations.\<close>

definition real_ops :: "(real, real) float_ops" where
  "real_ops =
     \<lparr>fadd = (+), fsub = (-), fmul = (*), fdiv = (/), fzero = 0, fone = 1, fhalf = 1 / 2,
      float_of_int = real, double_of_float = (\<lambda>v. v), float_of_double = (\<lambda>v. v),
      dadd = (+), ddiv = (/), dsqrt = sqrt, depsilon = EPSILON\<rparr>"

subsection \<open>The SSE intrinsics, on four lanes of any type\<close>

datatype 'a lanes = Lanes 'a 'a 'a 'a

definition setzero_fp :: "('f, 'd) float_ops \<Rightarrow> 'f lanes" where
  "setzero_fp ar = Lanes (fzero ar) (fzero ar) (fzero ar) (fzero ar)"

definition set1_fp :: "'f \<Rightarrow> 'f lanes" where
  "set1_fp c = Lanes c c c c"

fun add_fp :: "('f, 'd) float_ops \<Rightarrow> 'f lanes \<Rightarrow> 'f lanes \<Rightarrow> 'f lanes" where
  "add_fp ar (Lanes a0 a1 a2 a3) (Lanes b0 b1 b2 b3) =
     Lanes (fadd ar a0 b0) (fadd ar a1 b1) (fadd ar a2 b2) (fadd ar a3 b3)"

fun mul_fp :: "('f, 'd) float_ops \<Rightarrow> 'f lanes \<Rightarrow> 'f lanes \<Rightarrow> 'f lanes" where
  "mul_fp ar (Lanes a0 a1 a2 a3) (Lanes b0 b1 b2 b3) =
     Lanes (fmul ar a0 b0) (fmul ar a1 b1) (fmul ar a2 b2) (fmul ar a3 b3)"

definition loadu_fp :: "'f list \<Rightarrow> nat \<Rightarrow> 'f lanes option" where
  "loadu_fp a j =
     (if j + 4 \<le> length a then Some (Lanes (a ! j) (a ! (j + 1)) (a ! (j + 2)) (a ! (j + 3)))
      else None)"

fun storeu_fp :: "'f list \<Rightarrow> nat \<Rightarrow> 'f lanes \<Rightarrow> 'f list option" where
  "storeu_fp a j (Lanes v0 v1 v2 v3) =
     (if j + 4 \<le> length a then Some (a[j := v0, j + 1 := v1, j + 2 := v2, j + 3 := v3])
      else None)"

text \<open>\<^verbatim>\<open>temp[0] + temp[1] + temp[2] + temp[3]\<close>, added from left to right.\<close>

fun hsum_fp :: "('f, 'd) float_ops \<Rightarrow> 'f lanes \<Rightarrow> 'f" where
  "hsum_fp ar (Lanes t0 t1 t2 t3) = fadd ar (fadd ar (fadd ar t0 t1) t2) t3"

text \<open>The write \<^verbatim>\<open>a[i][j] = v\<close>.\<close>

definition wr2_fp :: "'f list list \<Rightarrow> nat \<Rightarrow> nat \<Rightarrow> 'f \<Rightarrow> 'f list list option" where
  "wr2_fp a i j v = do {
     row \<leftarrow> rd a i;
     row' \<leftarrow> wr row j v;
     wr a i row'
   }"

text \<open>A buffer fresh from \<^verbatim>\<open>malloc\<close>; as above its cells are filled, here with \<^verbatim>\<open>0.0f\<close>.\<close>

definition malloc_fp :: "('f, 'd) float_ops \<Rightarrow> nat \<Rightarrow> 'f list" where
  "malloc_fp ar n = replicate n (fzero ar)"

subsection \<open>linear, gelu, norm and scaled\_dot\_product\_attention\<close>

text \<open>Lines 76 to 99.\<close>

definition linear_fp ::
  "('f, 'd) float_ops \<Rightarrow> 'f list \<Rightarrow> 'f list list \<Rightarrow> 'f list \<Rightarrow> nat \<Rightarrow> nat \<Rightarrow> 'f list option" where
  "linear_fp ar fcInput wts bs inSize outSize =
     build outSize (\<lambda>i. do {
       result \<leftarrow> for_loop (count_by 4 0 inSize) (\<lambda>j result. do {
           input_vals \<leftarrow> loadu_fp fcInput j;
           wrow \<leftarrow> rd wts i;
           weight_vals \<leftarrow> loadu_fp wrow j;
           Some (add_fp ar result (mul_fp ar input_vals weight_vals))
         }) (setzero_fp ar);
       b \<leftarrow> rd bs i;
       Some (fadd ar (hsum_fp ar result) b)
     })"

text \<open>Lines 213 to 227.\<close>

definition gelu_fp :: "('f, 'd) float_ops \<Rightarrow> 'f list \<Rightarrow> nat \<Rightarrow> 'f list option" where
  "gelu_fp ar x n =
     for_loop (count_by 4 0 n) (\<lambda>i output. do {
         input_vals \<leftarrow> loadu_fp x i;
         let result = mul_fp ar input_vals (set1_fp (fhalf ar));
         storeu_fp output i result
       }) (malloc_fp ar n)"

text \<open>Lines 182 to 210. \<^verbatim>\<open>mean\<close> and \<^verbatim>\<open>variance\<close> are floats; in
  \<^verbatim>\<open>(x[i][j] - mean) / sqrt(variance + EPSILON)\<close> the difference is a float, the sum, the
  root and the quotient are doubles, and the quotient is converted to the float it is
  stored in.\<close>

definition norm_fp ::
  "('f, 'd) float_ops \<Rightarrow> 'f list list \<Rightarrow> nat \<Rightarrow> nat \<Rightarrow> 'f list list option" where
  "norm_fp ar x seqLength features =
     build seqLength (\<lambda>i. do {
       mean \<leftarrow> for_loop [0..<features] (\<lambda>j mean. do {
           xi \<leftarrow> rd x i;
           xij \<leftarrow> rd xi j;
           Some (fadd ar mean xij)
         }) (fzero ar);
       let mean = fdiv ar mean (float_of_int ar features);
       variance \<leftarrow> for_loop [0..<features] (\<lambda>j variance. do {
           xi \<leftarrow> rd x i;
           xij \<leftarrow> rd xi j;
           Some (fadd ar variance (fmul ar (fsub ar xij mean) (fsub ar xij mean)))
         }) (fzero ar);
       let variance = fdiv ar variance (float_of_int ar features);
       build features (\<lambda>j. do {
           xi \<leftarrow> rd x i;
           xij \<leftarrow> rd xi j;
           Some (float_of_double ar
                  (ddiv ar (double_of_float ar (fsub ar xij mean))
                     (dsqrt ar (dadd ar (double_of_float ar variance) (depsilon ar)))))
         })
     })"

text \<open>Lines 102 to 151. \<^verbatim>\<open>1.0f / sqrt((float)depth)\<close> is a quotient of doubles, converted to
  the float \<^verbatim>\<open>scale_factor\<close>. The tiles are visited in program order.\<close>

definition sdpa_fp ::
  "('f, 'd) float_ops \<Rightarrow> 'f list list \<Rightarrow> 'f list list \<Rightarrow> 'f list list \<Rightarrow> nat \<Rightarrow> nat \<Rightarrow>
     'f list list option" where
  "sdpa_fp ar Q K V seqLength depth =
     (let output = replicate seqLength (malloc_fp ar seqLength);
          scale_factor = float_of_double ar
            (ddiv ar (double_of_float ar (fone ar))
               (dsqrt ar (double_of_float ar (float_of_int ar depth))));
          block_size = 64
      in for_loop (count_by block_size 0 seqLength) (\<lambda>bi output.
           for_loop (count_by block_size 0 seqLength) (\<lambda>bj output.
             for_loop [bi..<min (bi + block_size) seqLength] (\<lambda>i output.
               for_loop [bj..<min (bj + block_size) seqLength] (\<lambda>j output. do {
                   sum \<leftarrow> for_loop (count_by 4 0 depth) (\<lambda>k_idx sum. do {
                       Qi \<leftarrow> rd Q i;
                       q_vals \<leftarrow> loadu_fp Qi k_idx;
                       Kj \<leftarrow> rd K j;
                       k_vals \<leftarrow> loadu_fp Kj k_idx;
                       Some (add_fp ar sum (mul_fp ar q_vals k_vals))
                     }) (setzero_fp ar);
                   wr2_fp output i j (fmul ar (hsum_fp ar sum) scale_factor)
                 }) output) output) output) output)"

subsection \<open>The formulas of the specification, in the arithmetic of the machine\<close>

text \<open>A dot product on four lanes, as the specification has it computed: lane \<open>k\<close> sums
  the products at the indices \<open>k\<close>, \<open>k + 4\<close>, \<open>k + 8\<close>, ... from \<open>0.0f\<close> on, and the four lanes
  are added from left to right.\<close>

definition lane_sum :: "('f, 'd) float_ops \<Rightarrow> 'f list \<Rightarrow> 'f list \<Rightarrow> nat \<Rightarrow> 'f" where
  "lane_sum ar a b k =
     foldl (\<lambda>acc q. fadd ar acc (fmul ar (a ! (4 * q + k)) (b ! (4 * q + k)))) (fzero ar)
       [0..<length a div 4]"

definition lane_dot :: "('f, 'd) float_ops \<Rightarrow> 'f list \<Rightarrow> 'f list \<Rightarrow> 'f" where
  "lane_dot ar a b =
     fadd ar (fadd ar (fadd ar (lane_sum ar a b 0) (lane_sum ar a b 1)) (lane_sum ar a b 2))
       (lane_sum ar a b 3)"

text \<open>The scale of the attention scores, \<open>1 / sqrt head_width\<close>.\<close>

definition scale_fp :: "('f, 'd) float_ops \<Rightarrow> nat \<Rightarrow> 'f" where
  "scale_fp ar head_width =
     float_of_double ar
       (ddiv ar (double_of_float ar (fone ar))
          (dsqrt ar (double_of_float ar (float_of_int ar head_width))))"

text \<open>The mean and the biased variance of a row, its cells added one after the other,
  and the normalised row \<open>(x - mean) / sqrt (variance + \<epsilon>)\<close>.\<close>

definition mean_fp :: "('f, 'd) float_ops \<Rightarrow> 'f list \<Rightarrow> 'f" where
  "mean_fp ar r = fdiv ar (foldl (fadd ar) (fzero ar) r) (float_of_int ar (length r))"

definition variance_fp :: "('f, 'd) float_ops \<Rightarrow> 'f list \<Rightarrow> 'f" where
  "variance_fp ar r =
     fdiv ar
       (foldl (\<lambda>v xij. fadd ar v (fmul ar (fsub ar xij (mean_fp ar r)) (fsub ar xij (mean_fp ar r))))
          (fzero ar) r)
       (float_of_int ar (length r))"

definition normalize_row_fp :: "('f, 'd) float_ops \<Rightarrow> 'f list \<Rightarrow> 'f list" where
  "normalize_row_fp ar r =
     map (\<lambda>xij. float_of_double ar
                  (ddiv ar (double_of_float ar (fsub ar xij (mean_fp ar r)))
                     (dsqrt ar (dadd ar (double_of_float ar (variance_fp ar r)) (depsilon ar)))))
       r"

section \<open>The block on a store\<close>

text \<open>
  To say what \<^verbatim>\<open>block\<close> does to the memory it is given, the buffers are put in a store.
  A \<^verbatim>\<open>float *\<close> is the address of a buffer; a \<^verbatim>\<open>float **\<close> is the list of the addresses
  of its rows (the array of pointers itself is not put in the store: the program fills
  such an array once and never shares it). \<^verbatim>\<open>malloc\<close> hands out the addresses \<open>brk\<close>,
  \<open>brk + 1\<close>, ... and never an address twice. Reading a buffer that is not live reads
  the empty buffer, so every access to it is out of bounds; writing to it or freeing it
  is a fault. The weights are values, as before: nothing writes to them.

  \<^verbatim>\<open>block\<close> and the functions it calls are followed statement by statement, every
  \<^verbatim>\<open>malloc\<close>, every write to a buffer and every \<^verbatim>\<open>free\<close> included.
\<close>

type_synonym addr = nat

record store =
  cells :: "addr \<rightharpoonup> vec"
  brk :: addr

definition row_of :: "store \<Rightarrow> addr \<Rightarrow> vec" where
  "row_of s p = (case cells s p of None \<Rightarrow> [] | Some v \<Rightarrow> v)"

definition view :: "store \<Rightarrow> addr list \<Rightarrow> matrix" where
  "view s ps = map (row_of s) ps"

definition malloc_row :: "vec \<Rightarrow> store \<Rightarrow> addr \<times> store" where
  "malloc_row v s = (brk s, s\<lparr>cells := (cells s)(brk s \<mapsto> v), brk := Suc (brk s)\<rparr>)"

definition store_row :: "addr \<Rightarrow> vec \<Rightarrow> store \<Rightarrow> store option" where
  "store_row p v s = (if cells s p = None then None else Some (s\<lparr>cells := (cells s)(p \<mapsto> v)\<rparr>))"

definition free_row :: "addr \<Rightarrow> store \<Rightarrow> store option" where
  "free_row p s = (if cells s p = None then None else Some (s\<lparr>cells := (cells s)(p := None)\<rparr>))"

fun alloc_rows :: "matrix \<Rightarrow> store \<Rightarrow> addr list \<times> store" where
  "alloc_rows [] s = ([], s)"
| "alloc_rows (v # vs) s =
     (case malloc_row v s of (p, s1) \<Rightarrow> case alloc_rows vs s1 of (ps, s2) \<Rightarrow> (p # ps, s2))"

text \<open>\<open>build_st n f\<close> is \<open>build n f\<close> with the store passed from one iteration to the next.\<close>

definition build_st ::
  "nat \<Rightarrow> (nat \<Rightarrow> store \<Rightarrow> ('a \<times> store) option) \<Rightarrow> store \<Rightarrow> ('a list \<times> store) option" where
  "build_st n f s =
     for_loop [0..<n] (\<lambda>i (acc, s). do { (r, s) \<leftarrow> f i s; Some (acc @ [r], s) }) ([], s)"

subsection \<open>The functions the block calls\<close>

text \<open>Each follows the function of the same name above, statement by statement; where
  that one reads a cell of an argument, this one reads it in the store, and where that
  one writes a cell of the buffer it allocated, this one writes it in the store.\<close>

definition linear_st ::
  "addr \<Rightarrow> matrix \<Rightarrow> vec \<Rightarrow> nat \<Rightarrow> nat \<Rightarrow> store \<Rightarrow> (addr \<times> store) option" where
  "linear_st fcInput wts bs inSize outSize s =
     (case malloc_row (malloc_floats outSize) s of (output, s) \<Rightarrow> do {
        s \<leftarrow> for_loop [0..<outSize] (\<lambda>i s. do {
            result \<leftarrow> for_loop (count_by 4 0 inSize) (\<lambda>j result. do {
                input_vals \<leftarrow> mm_loadu_ps (row_of s fcInput) j;
                wrow \<leftarrow> rd wts i;
                weight_vals \<leftarrow> mm_loadu_ps wrow j;
                Some (mm_add_ps result (mm_mul_ps input_vals weight_vals))
              }) mm_setzero_ps;
            b \<leftarrow> rd bs i;
            buf \<leftarrow> wr (row_of s output) i (hsum result + b);
            store_row output buf s
          }) s;
        Some (output, s)
      })"

definition apply_layer_st :: "LinearLayer \<Rightarrow> addr \<Rightarrow> store \<Rightarrow> (addr \<times> store) option" where
  "apply_layer_st l p s = linear_st p (weights l) (biases l) (fcInputSize l) (fcOutputSize l) s"

definition gelu_st :: "addr \<Rightarrow> nat \<Rightarrow> store \<Rightarrow> (addr \<times> store) option" where
  "gelu_st x n s =
     (case malloc_row (malloc_floats n) s of (output, s) \<Rightarrow> do {
        s \<leftarrow> for_loop (count_by 4 0 n) (\<lambda>i s. do {
            input_vals \<leftarrow> mm_loadu_ps (row_of s x) i;
            let result = mm_mul_ps input_vals (mm_set1_ps (1 / 2));
            buf \<leftarrow> mm_storeu_ps (row_of s output) i result;
            store_row output buf s
          }) s;
        Some (output, s)
      })"

definition norm_st :: "addr list \<Rightarrow> nat \<Rightarrow> nat \<Rightarrow> store \<Rightarrow> (addr list \<times> store) option" where
  "norm_st x seqLength features s =
     build_st seqLength (\<lambda>i s.
       case malloc_row (malloc_floats features) s of (normalized_i, s) \<Rightarrow> do {
         mean \<leftarrow> for_loop [0..<features] (\<lambda>j mean. do {
             xi \<leftarrow> rd x i;
             xij \<leftarrow> rd (row_of s xi) j;
             Some (mean + xij)
           }) 0;
         let mean = mean / real features;
         variance \<leftarrow> for_loop [0..<features] (\<lambda>j variance. do {
             xi \<leftarrow> rd x i;
             xij \<leftarrow> rd (row_of s xi) j;
             Some (variance + (xij - mean) * (xij - mean))
           }) 0;
         let variance = variance / real features;
         s \<leftarrow> for_loop [0..<features] (\<lambda>j s. do {
             xi \<leftarrow> rd x i;
             xij \<leftarrow> rd (row_of s xi) j;
             buf \<leftarrow> wr (row_of s normalized_i) j ((xij - mean) / sqrt (variance + EPSILON));
             store_row normalized_i buf s
           }) s;
         Some (normalized_i, s)
       }) s"

definition matrix_add_st ::
  "addr list \<Rightarrow> addr list \<Rightarrow> nat \<Rightarrow> nat \<Rightarrow> store \<Rightarrow> (addr list \<times> store) option" where
  "matrix_add_st x y numRow numCol s =
     build_st numRow (\<lambda>i s.
       case malloc_row (malloc_floats numCol) s of (result_i, s) \<Rightarrow> do {
         s \<leftarrow> for_loop (count_by 4 0 numCol) (\<lambda>j s. do {
             xi \<leftarrow> rd x i;
             vec_x \<leftarrow> mm_loadu_ps (row_of s xi) j;
             yi \<leftarrow> rd y i;
             vec_y \<leftarrow> mm_loadu_ps (row_of s yi) j;
             buf \<leftarrow> mm_storeu_ps (row_of s result_i) j (mm_add_ps vec_x vec_y);
             store_row result_i buf s
           }) s;
         s \<leftarrow> for_loop [numCol - numCol mod 4..<numCol] (\<lambda>j s. do {
             xi \<leftarrow> rd x i;
             xij \<leftarrow> rd (row_of s xi) j;
             yi \<leftarrow> rd y i;
             yij \<leftarrow> rd (row_of s yi) j;
             buf \<leftarrow> wr (row_of s result_i) j (xij + yij);
             store_row result_i buf s
           }) s;
         Some (result_i, s)
       }) s"

definition sdpa_st ::
  "addr list \<Rightarrow> addr list \<Rightarrow> addr list \<Rightarrow> nat \<Rightarrow> nat \<Rightarrow> store \<Rightarrow> (addr list \<times> store) option" where
  "sdpa_st Q K V seqLength depth s =
     (case alloc_rows (replicate seqLength (malloc_floats seqLength)) s of (output, s) \<Rightarrow>
      let scale_factor = 1 / sqrt (real depth);
          block_size = 64
      in do {
        s \<leftarrow> for_loop (count_by block_size 0 seqLength) (\<lambda>bi s.
           for_loop (count_by block_size 0 seqLength) (\<lambda>bj s.
             for_loop [bi..<min (bi + block_size) seqLength] (\<lambda>i s.
               for_loop [bj..<min (bj + block_size) seqLength] (\<lambda>j s. do {
                   sum \<leftarrow> for_loop (count_by 4 0 depth) (\<lambda>k_idx sum. do {
                       Qi \<leftarrow> rd Q i;
                       q_vals \<leftarrow> mm_load_ps (row_of s Qi) k_idx;
                       Kj \<leftarrow> rd K j;
                       k_vals \<leftarrow> mm_load_ps (row_of s Kj) k_idx;
                       Some (mm_add_ps sum (mm_mul_ps q_vals k_vals))
                     }) mm_setzero_ps;
                   output_i \<leftarrow> rd output i;
                   buf \<leftarrow> wr (row_of s output_i) j (hsum sum * scale_factor);
                   store_row output_i buf s
                 }) s) s) s) s;
        Some (output, s)
      })"

subsection \<open>The body of the block\<close>

definition project_qkv_st ::
  "addr list \<Rightarrow> nat \<Rightarrow> BlockWeights \<Rightarrow> store \<Rightarrow> ((addr \<times> addr \<times> addr) list \<times> store) option" where
  "project_qkv_st normalized_x seqLength w s =
     build_st seqLength (\<lambda>i s. do {
       xi \<leftarrow> rd normalized_x i;
       (Qi, s) \<leftarrow> apply_layer_st (q_mlp w) xi s;
       (Ki, s) \<leftarrow> apply_layer_st (k_mlp w) xi s;
       (Vi, s) \<leftarrow> apply_layer_st (v_mlp w) xi s;
       Some ((Qi, Ki, Vi), s)
     }) s"

text \<open>\<^verbatim>\<open>memcpy(dst, &src[h * HEAD_DIM], HEAD_DIM * sizeof(float))\<close> into a buffer of the
  store.\<close>

definition copy_head_st :: "addr \<Rightarrow> addr \<Rightarrow> nat \<Rightarrow> store \<Rightarrow> store option" where
  "copy_head_st dst src h s = do {
     buf \<leftarrow> memcpy (row_of s dst) 0 (row_of s src) (h * HEAD_DIM) HEAD_DIM;
     store_row dst buf s
   }"

definition split_heads_st ::
  "addr list \<Rightarrow> addr list \<Rightarrow> addr list \<Rightarrow> nat \<Rightarrow> store \<Rightarrow>
     ((addr \<times> addr \<times> addr) list list \<times> store) option" where
  "split_heads_st Q K V seqLength s =
     build_st NUM_HEADS (\<lambda>h s. build_st seqLength (\<lambda>i s.
       case malloc_row (malloc_floats HEAD_DIM) s of (Qhi, s) \<Rightarrow>
       case malloc_row (malloc_floats HEAD_DIM) s of (Khi, s) \<Rightarrow>
       case malloc_row (malloc_floats HEAD_DIM) s of (Vhi, s) \<Rightarrow> do {
         Qi \<leftarrow> rd Q i;
         s \<leftarrow> copy_head_st Qhi Qi h s;
         Ki \<leftarrow> rd K i;
         s \<leftarrow> copy_head_st Khi Ki h s;
         Vi \<leftarrow> rd V i;
         s \<leftarrow> copy_head_st Vhi Vi h s;
         Some ((Qhi, Khi, Vhi), s)
       }) s) s"

definition attention_heads_st ::
  "(addr \<times> addr \<times> addr) list list \<Rightarrow> nat \<Rightarrow> store \<Rightarrow> (addr list list \<times> store) option" where
  "attention_heads_st heads seqLength s =
     build_st NUM_HEADS (\<lambda>h s. do {
       head \<leftarrow> rd heads h;
       sdpa_st (map fst head) (map (fst \<circ> snd) head) (map (snd \<circ> snd) head) seqLength HEAD_DIM s
     }) s"

definition concat_heads_st ::
  "addr list list \<Rightarrow> nat \<Rightarrow> nat \<Rightarrow> store \<Rightarrow> (addr list \<times> store) option" where
  "concat_heads_st head_outputs seqLength embeddingSize s =
     build_st seqLength (\<lambda>i s.
       case malloc_row (malloc_floats embeddingSize) s of (a_i, s) \<Rightarrow> do {
         s \<leftarrow> for_loop [0..<NUM_HEADS] (\<lambda>h s. do {
             head_output \<leftarrow> rd head_outputs h;
             src \<leftarrow> rd head_output i;
             buf \<leftarrow> memcpy (row_of s a_i) (h * HEAD_DIM) (row_of s src) 0 HEAD_DIM;
             store_row a_i buf s
           }) s;
         Some (a_i, s)
       }) s"

definition mlp_rows_st ::
  "addr list \<Rightarrow> nat \<Rightarrow> BlockWeights \<Rightarrow> store \<Rightarrow> (addr list \<times> store) option" where
  "mlp_rows_st normalized_x_added seqLength w s =
     build_st seqLength (\<lambda>i s. do {
       xi \<leftarrow> rd normalized_x_added i;
       (first_mlp_out, s) \<leftarrow> apply_layer_st (first_block_MLP w) xi s;
       (gelu_out, s) \<leftarrow> gelu_st first_mlp_out (fcOutputSize (first_block_MLP w)) s;
       s \<leftarrow> free_row first_mlp_out s;
       (m_i, s) \<leftarrow> apply_layer_st (second_block_MLP w) gelu_out s;
       s \<leftarrow> free_row gelu_out s;
       Some (m_i, s)
     }) s"

text \<open>Lines 339 to 348 and 358 to 371: the rows the block allocated are freed, all but
  those of its result.\<close>

definition free_block_rows ::
  "addr list \<Rightarrow> (addr \<times> addr \<times> addr) list \<Rightarrow> addr list \<Rightarrow> addr list \<Rightarrow> addr list \<Rightarrow> nat \<Rightarrow>
     store \<Rightarrow> store option" where
  "free_block_rows normalized_x QKV normalized_x_added m x_added seqLength s =
     for_loop [0..<seqLength] (\<lambda>i s. do {
       p \<leftarrow> rd normalized_x i;
       s \<leftarrow> free_row p s;
       (Qi, Ki, Vi) \<leftarrow> rd QKV i;
       s \<leftarrow> free_row Qi s;
       s \<leftarrow> free_row Ki s;
       s \<leftarrow> free_row Vi s;
       p \<leftarrow> rd normalized_x_added i;
       s \<leftarrow> free_row p s;
       p \<leftarrow> rd m i;
       s \<leftarrow> free_row p s;
       p \<leftarrow> rd x_added i;
       free_row p s
     }) s"

definition free_head_rows ::
  "(addr \<times> addr \<times> addr) list list \<Rightarrow> addr list list \<Rightarrow> nat \<Rightarrow> store \<Rightarrow> store option" where
  "free_head_rows heads head_outputs seqLength s =
     for_loop [0..<NUM_HEADS] (\<lambda>h s.
       for_loop [0..<seqLength] (\<lambda>i s. do {
         head \<leftarrow> rd heads h;
         (Qhi, Khi, Vhi) \<leftarrow> rd head i;
         s \<leftarrow> free_row Qhi s;
         s \<leftarrow> free_row Khi s;
         s \<leftarrow> free_row Vhi s;
         head_output \<leftarrow> rd head_outputs h;
         p \<leftarrow> rd head_output i;
         free_row p s
       }) s) s"

definition block_st ::
  "addr list \<Rightarrow> nat \<Rightarrow> nat \<Rightarrow> BlockWeights \<Rightarrow> store \<Rightarrow> (addr list \<times> store) option" where
  "block_st x seqLength embeddingSize w s = do {
     (normalized_x, s) \<leftarrow> norm_st x seqLength embeddingSize s;
     (QKV, s) \<leftarrow> project_qkv_st normalized_x seqLength w s;
     (heads, s) \<leftarrow> split_heads_st (map fst QKV) (map (fst \<circ> snd) QKV) (map (snd \<circ> snd) QKV) seqLength s;
     (head_outputs, s) \<leftarrow> attention_heads_st heads seqLength s;
     (a, s) \<leftarrow> concat_heads_st head_outputs seqLength embeddingSize s;
     (x_added, s) \<leftarrow> matrix_add_st x a seqLength embeddingSize s;
     (normalized_x_added, s) \<leftarrow> norm_st x_added seqLength embeddingSize s;
     (m, s) \<leftarrow> mlp_rows_st normalized_x_added seqLength w s;
     (output, s) \<leftarrow> matrix_add_st x_added m seqLength embeddingSize s;
     s \<leftarrow> free_block_rows normalized_x QKV normalized_x_added m x_added seqLength s;
     s \<leftarrow> free_head_rows heads head_outputs seqLength s;
     Some (output, s)
   }"

text \<open>A store holding the 64 rows of an input, each of \<open>EMBEDDING_SIZE\<close> cells, at the
  addresses 0 to 63.\<close>

definition example_store :: store where
  "example_store =
     \<lparr>cells = (\<lambda>p. if p < 64 then Some (replicate EMBEDDING_SIZE 1) else None), brk = 64\<rparr>"

subsection \<open>Notions for the proofs about the store\<close>

text \<open>\<open>keeps L s s'\<close>: from \<open>s\<close> to \<open>s'\<close> nothing below the address \<open>L\<close> has changed, and
  \<open>malloc\<close> has only moved on. \<open>wf_store s\<close>: every live buffer was handed out by
  \<open>malloc\<close>. \<open>holds s ps rows\<close>: the buffers at \<open>ps\<close> are live and hold \<open>rows\<close>.\<close>

definition keeps :: "addr \<Rightarrow> store \<Rightarrow> store \<Rightarrow> bool" where
  "keeps L s s' \<longleftrightarrow> L \<le> brk s \<and> brk s \<le> brk s' \<and> (\<forall>p<L. cells s' p = cells s p)"

definition wf_store :: "store \<Rightarrow> bool" where
  "wf_store s \<longleftrightarrow> (\<forall>p. cells s p \<noteq> None \<longrightarrow> p < brk s)"

definition holds :: "store \<Rightarrow> addr list \<Rightarrow> matrix \<Rightarrow> bool" where
  "holds s ps rows \<longleftrightarrow> map (cells s) ps = map Some rows"

text \<open>\<open>fresh_rows s ps s' rows\<close>: from \<open>s\<close> to \<open>s'\<close> the buffers at \<open>ps\<close> were allocated, they
  hold \<open>rows\<close>, and what \<open>s\<close> had is as it was.\<close>

definition fresh_rows :: "store \<Rightarrow> addr list \<Rightarrow> store \<Rightarrow> matrix \<Rightarrow> bool" where
  "fresh_rows s ps s' rows \<longleftrightarrow>
     keeps (brk s) s s' \<and> wf_store s' \<and> holds s' ps rows \<and> distinct ps \<and>
     (\<forall>p\<in>set ps. brk s \<le> p \<and> p < brk s')"

definition triple_list :: "'a \<times> 'a \<times> 'a \<Rightarrow> 'a list" where
  "triple_list t = (case t of (a, b, c) \<Rightarrow> [a, b, c])"

text \<open>Freeing the buffers of a list, one after the other.\<close>

fun free_list :: "addr list \<Rightarrow> store \<Rightarrow> store option" where
  "free_list [] s = Some s"
| "free_list (p # ps) s = (case free_row p s of None \<Rightarrow> None | Some s1 \<Rightarrow> free_list ps s1)"

section \<open>Proofs\<close>

subsection \<open>Arrays filled in index order\<close>


lemma collect_map_Some: "collect (map Some xs) = Some xs"
  by (induction xs) simp_all

lemma collect_SomeD: "collect rs = Some xs \<Longrightarrow> rs = map Some xs"
proof (induction rs arbitrary: xs)
  case Nil
  then show ?case by simp
next
  case (Cons a rs)
  then show ?case by (cases a) (auto split: option.splits)
qed

lemma collect_Some_iff: "collect rs = Some xs \<longleftrightarrow> rs = map Some xs"
  using collect_SomeD collect_map_Some by blast

lemma build_Some_iff:
  "build n f = Some xs \<longleftrightarrow> length xs = n \<and> (\<forall>i<n. f i = Some (xs ! i))"
proof -
  have "map f [0..<n] = map Some xs \<longleftrightarrow> length xs = n \<and> (\<forall>i<n. f i = Some (xs ! i))"
    by (auto simp: list_eq_iff_nth_eq)
  then show ?thesis by (simp add: build_def collect_Some_iff)
qed

lemma build_eq_map: "(\<And>i. i < n \<Longrightarrow> f i = Some (g i)) \<Longrightarrow> build n f = Some (map g [0..<n])"
  by (simp add: build_Some_iff)

lemma build_None_iff: "build n f = None \<longleftrightarrow> (\<exists>i<n. f i = None)"
proof
  assume a: "build n f = None"
  show "\<exists>i<n. f i = None"
  proof (rule ccontr)
    assume "\<not> (\<exists>i<n. f i = None)"
    then have "\<forall>i<n. f i = Some (the (f i))" by auto
    then have "build n f = Some (map (\<lambda>i. the (f i)) [0..<n])" by (simp add: build_Some_iff)
    with a show False by simp
  qed
next
  assume "\<exists>i<n. f i = None"
  then obtain i where i: "i < n" "f i = None" by blast
  show "build n f = None"
  proof (cases "build n f")
    case None then show ?thesis .
  next
    case (Some xs)
    with i show ?thesis by (simp add: build_Some_iff)
  qed
qed

lemma count_by_Cons:
  "lo < hi \<Longrightarrow> 0 < step \<Longrightarrow> count_by step lo hi = lo # count_by step (lo + step) hi"
  by (subst count_by.simps) simp

lemma count_by_Nil: "\<not> lo < hi \<Longrightarrow> count_by step lo hi = []"
  by (subst count_by.simps) simp

lemma hsum_add: "hsum (mm_add_ps r s) = hsum r + hsum s"
  by (cases r; cases s) simp

lemma sum_four: "j + 4 \<le> (n::nat) \<Longrightarrow> (\<Sum>k = j..<n. g k) = g j + g (j + 1) + g (j + 2) + g (j + 3) + (\<Sum>k = j + 4..<n. (g k :: real))"
proof -
  assume "j + 4 \<le> n"
  then have "{j..<n} = {j..<j + 4} \<union> {j + 4..<n}" by auto
  moreover have "{j..<j + 4} = {j, j + 1, j + 2, j + 3}" by auto
  ultimately have "(\<Sum>k = j..<n. g k) = (\<Sum>k \<in> {j, j + 1, j + 2, j + 3}. g k) + (\<Sum>k = j + 4..<n. g k)"
    by (simp add: sum.union_disjoint)
  then show ?thesis by (simp add: add.assoc)
qed

lemma dot_loop:
  assumes "step = 4" "n \<le> length x" "n \<le> length w" "4 dvd n" "4 dvd j"
  shows "\<exists>r. for_loop (count_by step j n) (\<lambda>j result. do {
             input_vals \<leftarrow> mm_loadu_ps x j;
             weight_vals \<leftarrow> mm_loadu_ps w j;
             Some (mm_add_ps result (mm_mul_ps input_vals weight_vals)) }) acc = Some r
           \<and> hsum r = hsum acc + (\<Sum>k = j..<n. x ! k * w ! k)"
  using assms
proof (induction step j n arbitrary: acc rule: count_by.induct)
  case (1 step lo hi)
  show ?case
  proof (cases "lo < hi")
    case True
    with "1.prems" have le: "lo + 4 \<le> hi" by presburger
    have d: "4 dvd lo + 4" using "1.prems" by simp
    let ?a = "M128 (x ! lo) (x ! (lo + 1)) (x ! (lo + 2)) (x ! (lo + 3))"
    let ?b = "M128 (w ! lo) (w ! (lo + 1)) (w ! (lo + 2)) (w ! (lo + 3))"
    from "1.IH"[of "mm_add_ps acc (mm_mul_ps ?a ?b)"] True "1.prems" d
    obtain r where r: "for_loop (count_by step (lo + 4) hi) (\<lambda>j result. do {
             input_vals \<leftarrow> mm_loadu_ps x j;
             weight_vals \<leftarrow> mm_loadu_ps w j;
             Some (mm_add_ps result (mm_mul_ps input_vals weight_vals)) }) (mm_add_ps acc (mm_mul_ps ?a ?b)) = Some r"
        "hsum r = hsum (mm_add_ps acc (mm_mul_ps ?a ?b)) + (\<Sum>k = lo + 4..<hi. x ! k * w ! k)"
      by auto
    have lx: "mm_loadu_ps x lo = Some ?a" and lw: "mm_loadu_ps w lo = Some ?b"
      using le "1.prems" by (simp_all add: mm_loadu_ps_def)
    have "count_by step lo hi = lo # count_by step (lo + 4) hi"
      using True "1.prems" by (simp add: count_by_Cons)
    then show ?thesis using r lx lw le
      by (simp add: hsum_add sum_four[OF le])
  next
    case False
    then show ?thesis by (simp add: count_by_Nil)
  qed
qed

subsection \<open>linear\<close>

lemma linear_layer_value:
  assumes "length fcInput = n" and "4 dvd n"
    and "length wts = m" and "\<forall>r\<in>set wts. length r = n" and "length bs = m"
  shows "linear_layer fcInput wts bs n m = Some (map (\<lambda>i. bs ! i + dot (wts ! i) fcInput) [0..<m])"
  unfolding linear_layer_def
proof (rule build_eq_map)
  fix i
  assume i: "i < m"
  then have row: "length (wts ! i) = n" using assms by simp
  have body: "(\<lambda>j result. do {
           input_vals \<leftarrow> mm_loadu_ps fcInput j;
           wrow \<leftarrow> rd wts i;
           weight_vals \<leftarrow> mm_loadu_ps wrow j;
           Some (mm_add_ps result (mm_mul_ps input_vals weight_vals)) })
     = (\<lambda>j result. do {
           input_vals \<leftarrow> mm_loadu_ps fcInput j;
           weight_vals \<leftarrow> mm_loadu_ps (wts ! i) j;
           Some (mm_add_ps result (mm_mul_ps input_vals weight_vals)) })"
    using i assms by (simp add: rd_def)
  obtain r where r: "for_loop (count_by 4 0 n) (\<lambda>j result. do {
           input_vals \<leftarrow> mm_loadu_ps fcInput j;
           weight_vals \<leftarrow> mm_loadu_ps (wts ! i) j;
           Some (mm_add_ps result (mm_mul_ps input_vals weight_vals)) }) mm_setzero_ps = Some r"
     and hr: "hsum r = hsum mm_setzero_ps + (\<Sum>k = 0..<n. fcInput ! k * wts ! i ! k)"
    using dot_loop[of 4 n fcInput "wts ! i" 0 mm_setzero_ps] assms row by auto
  have "hsum r = dot (wts ! i) fcInput"
    using hr assms by (simp add: dot_def mm_setzero_ps_def mult.commute atLeast0LessThan)
  then show "do {
       result \<leftarrow> for_loop (count_by 4 0 n) (\<lambda>j result. do {
           input_vals \<leftarrow> mm_loadu_ps fcInput j;
           wrow \<leftarrow> rd wts i;
           weight_vals \<leftarrow> mm_loadu_ps wrow j;
           Some (mm_add_ps result (mm_mul_ps input_vals weight_vals))
         }) mm_setzero_ps;
       b \<leftarrow> rd bs i;
       Some (hsum result + b)
     } = Some (bs ! i + dot (wts ! i) fcInput)"
    unfolding body using r i assms by (simp add: rd_def)
qed

subsection \<open>Counting loops\<close>

lemma for_loop_cong:
  "(\<And>j s. j \<in> set js \<Longrightarrow> f j s = g j s) \<Longrightarrow> for_loop js f s = for_loop js g s"
  by (induction js arbitrary: s) (auto split: option.splits)


lemma set_count_by:
  assumes "0 < step" and "step dvd lo"
  shows "set (count_by step lo hi) = {j. lo \<le> j \<and> j < hi \<and> step dvd j}"
  using assms
proof (induction step lo hi rule: count_by.induct)
  case (1 step lo hi)
  show ?case
  proof (cases "lo < hi")
    case True
    have next_dvd: "step dvd lo + step" using "1.prems" by simp
    have gap: "lo + step \<le> j" if "lo \<le> j" "step dvd j" "j \<noteq> lo" for j
    proof -
      from that "1.prems" obtain a b where ab: "j = step * a" "lo = step * b"
        by (auto elim!: dvdE)
      with that "1.prems" have "b < a" by auto
      then have "Suc b \<le> a" by simp
      then have "step * Suc b \<le> step * a" by (rule mult_le_mono2)
      with ab show ?thesis by simp
    qed
    have "set (count_by step lo hi) = insert lo (set (count_by step (lo + step) hi))"
      using True "1.prems" by (simp add: count_by_Cons)
    also have "\<dots> = insert lo {j. lo + step \<le> j \<and> j < hi \<and> step dvd j}"
      using "1.IH" True "1.prems" next_dvd by simp
    also have "\<dots> = {j. lo \<le> j \<and> j < hi \<and> step dvd j}"
      using True "1.prems" gap by auto
    finally show ?thesis .
  next
    case False
    then show ?thesis by (auto simp: count_by_Nil)
  qed
qed

lemma store_loop:
  assumes "step = 4" and "4 dvd n" and "4 dvd j" and "n \<le> length out"
    and "\<And>k buf. k \<in> set (count_by step j n) \<Longrightarrow>
           body k buf = mm_storeu_ps buf k (M128 (g k) (g (k + 1)) (g (k + 2)) (g (k + 3)))"
  shows "\<exists>r. for_loop (count_by step j n) body out = Some r \<and> length r = length out \<and>
              (\<forall>k<length out. r ! k = (if j \<le> k \<and> k < n then g k else out ! k))"
  using assms
proof (induction step j n arbitrary: out rule: count_by.induct)
  case (1 step lo hi)
  show ?case
  proof (cases "lo < hi")
    case True
    with "1.prems" have le: "lo + 4 \<le> hi" by presburger
    have unf: "count_by step lo hi = lo # count_by step (lo + 4) hi"
      using True "1.prems"(1) by (simp add: count_by_Cons)
    define out1 where "out1 = out[lo := g lo, lo + 1 := g (lo + 1), lo + 2 := g (lo + 2), lo + 3 := g (lo + 3)]"
    have first: "body lo out = Some out1"
      using "1.prems"(5)[of lo out] unf le "1.prems"(4) by (simp add: out1_def)
    have rest: "\<And>k buf. k \<in> set (count_by step (lo + step) hi) \<Longrightarrow>
           body k buf = mm_storeu_ps buf k (M128 (g k) (g (k + 1)) (g (k + 2)) (g (k + 3)))"
      using "1.prems"(5) unf "1.prems"(1) by (simp)
    have "\<exists>r. for_loop (count_by step (lo + step) hi) body out1 = Some r \<and> length r = length out1 \<and>
              (\<forall>k<length out1. r ! k = (if lo + step \<le> k \<and> k < hi then g k else out1 ! k))"
      using "1.IH"[of out1] True "1.prems"(1-4) rest by (simp add: out1_def)
    then obtain r where r: "for_loop (count_by step (lo + 4) hi) body out1 = Some r"
        "length r = length out"
        "\<forall>k<length out. r ! k = (if lo + 4 \<le> k \<and> k < hi then g k else out1 ! k)"
      using "1.prems"(1) by (auto simp: out1_def)
    have "\<forall>k<length out. r ! k = (if lo \<le> k \<and> k < hi then g k else out ! k)"
    proof (intro allI impI)
      fix k assume k: "k < length out"
      consider "k = lo" | "k = lo + 1" | "k = lo + 2" | "k = lo + 3" | "k < lo" | "lo + 4 \<le> k"
        by linarith
      then show "r ! k = (if lo \<le> k \<and> k < hi then g k else out ! k)"
        using r(3) k le by cases (auto simp: out1_def nth_list_update)
    qed
    then show ?thesis using r(1,2) first unf by (simp)
  next
    case False
    then show ?thesis by (simp add: count_by_Nil)
  qed
qed

subsection \<open>gelu\<close>

lemma gelu_value:
  assumes "length x = n" and "4 dvd n"
  shows "gelu x n = Some (map (\<lambda>v. (1 / 2) * v) x)"
proof -
  let ?body = "\<lambda>i output. do {
         input_vals \<leftarrow> mm_loadu_ps x i;
         let result = mm_mul_ps input_vals (mm_set1_ps (1 / 2));
         mm_storeu_ps output i result }"
  let ?g = "\<lambda>k. x ! k * (1 / 2)"
  have body: "?body k buf = mm_storeu_ps buf k (M128 (?g k) (?g (k + 1)) (?g (k + 2)) (?g (k + 3)))"
    if "k \<in> set (count_by 4 0 n)" for k buf
  proof -
    from that have "k < n" "4 dvd k" by (simp_all add: set_count_by)
    with assms have "k + 4 \<le> length x" by presburger
    then show ?thesis by (simp add: mm_loadu_ps_def mm_set1_ps_def)
  qed
  obtain r where r: "for_loop (count_by 4 0 n) ?body (malloc_floats n) = Some r"
    "length r = n" "\<forall>k<n. r ! k = ?g k"
    using store_loop[of 4 n 0 "malloc_floats n" ?body ?g, OF refl assms(2) _ _ body]
    by (auto simp: malloc_floats_def)
  have "r = map (\<lambda>v. (1 / 2) * v) x"
    using r(2,3) assms(1) by (auto simp: list_eq_iff_nth_eq)
  with r(1) show ?thesis by (simp add: gelu_def)
qed

subsection \<open>matrix\_add\<close>

lemma add_loop_row:
  assumes "length xi = n" and "length yi = n" and "4 dvd n"
    and "i < length x" and "x ! i = xi" and "i < length y" and "y ! i = yi"
  shows "for_loop (count_by 4 0 n) (\<lambda>j result_i. do {
           xi \<leftarrow> rd x i;
           vec_x \<leftarrow> mm_loadu_ps xi j;
           yi \<leftarrow> rd y i;
           vec_y \<leftarrow> mm_loadu_ps yi j;
           mm_storeu_ps result_i j (mm_add_ps vec_x vec_y)
         }) (malloc_floats n) = Some (map2 (+) xi yi)"
proof -
  let ?body = "\<lambda>j result_i. do {
           xi \<leftarrow> rd x i;
           vec_x \<leftarrow> mm_loadu_ps xi j;
           yi \<leftarrow> rd y i;
           vec_y \<leftarrow> mm_loadu_ps yi j;
           mm_storeu_ps result_i j (mm_add_ps vec_x vec_y) }"
  let ?g = "\<lambda>k. xi ! k + yi ! k"
  have body: "?body k buf = mm_storeu_ps buf k (M128 (?g k) (?g (k + 1)) (?g (k + 2)) (?g (k + 3)))"
    if "k \<in> set (count_by 4 0 n)" for k buf
  proof -
    from that have "k < n" "4 dvd k" by (simp_all add: set_count_by)
    with assms have "k + 4 \<le> n" by presburger
    then show ?thesis using assms by (simp add: mm_loadu_ps_def rd_def)
  qed
  obtain r where r: "for_loop (count_by 4 0 n) ?body (malloc_floats n) = Some r"
    "length r = n" "\<forall>k<n. r ! k = ?g k"
    using store_loop[of 4 n 0 "malloc_floats n" ?body ?g, OF refl assms(3) _ _ body]
    by (auto simp: malloc_floats_def)
  have "r = map2 (+) xi yi"
    using r(2,3) assms(1,2) by (auto simp: list_eq_iff_nth_eq)
  with r(1) show ?thesis by simp
qed

lemma matrix_add_rows:
  assumes "length x = numRow" and "\<forall>r\<in>set x. length r = numCol"
    and "length y = numRow" and "\<forall>r\<in>set y. length r = numCol"
    and "4 dvd numCol"
  shows "matrix_add x y numRow numCol = Some (map2 (map2 (+)) x y)"
proof -
  have "matrix_add x y numRow numCol = Some (map (\<lambda>i. map2 (+) (x ! i) (y ! i)) [0..<numRow])"
    unfolding matrix_add_def
  proof (rule build_eq_map)
    fix i assume i: "i < numRow"
    have tail: "[numCol - numCol mod 4..<numCol] = []" using assms(5) by simp
    have lx: "length (x ! i) = numCol" and ly: "length (y ! i) = numCol"
      using i assms by simp_all
    show "do {
       result_i \<leftarrow> for_loop (count_by 4 0 numCol) (\<lambda>j result_i. do {
           xi \<leftarrow> rd x i;
           vec_x \<leftarrow> mm_loadu_ps xi j;
           yi \<leftarrow> rd y i;
           vec_y \<leftarrow> mm_loadu_ps yi j;
           mm_storeu_ps result_i j (mm_add_ps vec_x vec_y)
         }) (malloc_floats numCol);
       for_loop [numCol - numCol mod 4..<numCol] (\<lambda>j result_i. do {
           xi \<leftarrow> rd x i;
           xij \<leftarrow> rd xi j;
           yi \<leftarrow> rd y i;
           yij \<leftarrow> rd yi j;
           wr result_i j (xij + yij)
         }) result_i
     } = Some (map2 (+) (x ! i) (y ! i))"
      unfolding tail
      using add_loop_row[of "x ! i" numCol "y ! i" i x y] lx ly i assms(1,3,5) by simp
  qed
  also have "map (\<lambda>i. map2 (+) (x ! i) (y ! i)) [0..<numRow] = map2 (map2 (+)) x y"
    using assms(1,3) by (auto simp: list_eq_iff_nth_eq)
  finally show ?thesis .
qed

lemma matrix_add_test: "matrix_add [[1, 2, 3, 4]] [[10, 20, 30, 40]] 1 4 = Some [[11, 22, 33, 44]]"
  using matrix_add_rows[of "[[1, 2, 3, 4]]" 1 4 "[[10, 20, 30, 40]]"] by simp

subsection \<open>norm\<close>

lemma for_loop_append:
  "for_loop (as @ bs) body s =
     (case for_loop as body s of None \<Rightarrow> None | Some s' \<Rightarrow> for_loop bs body s')"
  by (induction as arbitrary: s) (auto split: option.splits)

lemma sum_loop:
  assumes "i < length x" and "n \<le> length (x ! i)"
  shows "for_loop [0..<n] (\<lambda>j acc. do {
           xi \<leftarrow> rd x i;
           xij \<leftarrow> rd xi j;
           Some (acc + f xij) }) a = Some (a + (\<Sum>j<n. f (x ! i ! j)))"
  using assms(2)
proof (induction n)
  case 0
  then show ?case by simp
next
  case (Suc n)
  then show ?case using assms(1) by (simp add: for_loop_append rd_def add.assoc)
qed

lemma sum_nth_eq_sum_list: "(\<Sum>j<length r. f (r ! j)) = (\<Sum>v\<leftarrow>r. f v)"
proof -
  have "(\<Sum>v\<leftarrow>r. f v) = (\<Sum>j = 0..<length (map f r). map f r ! j)"
    by (rule sum_list_sum_nth)
  also have "\<dots> = (\<Sum>j<length r. f (r ! j))"
    by (simp add: atLeast0LessThan)
  finally show ?thesis by simp
qed

lemma norm_layer_value:
  assumes "length x = seqLength" and "\<forall>r\<in>set x. length r = features"
  shows "norm_layer x seqLength features = Some (map normalize_row x)"
proof -
  have "norm_layer x seqLength features = Some (map (\<lambda>i. normalize_row (x ! i)) [0..<seqLength])"
    unfolding norm_layer_def
  proof (rule build_eq_map)
    fix i assume i: "i < seqLength"
    then have ix: "i < length x" and len: "length (x ! i) = features" using assms by simp_all
    let ?r = "x ! i"
    have m: "for_loop [0..<features] (\<lambda>j mean. do {
           xi \<leftarrow> rd x i;
           xij \<leftarrow> rd xi j;
           Some (mean + xij) }) 0 = Some (sum_list ?r)"
      using sum_loop[of i x features "\<lambda>v. v" 0] ix len sum_nth_eq_sum_list[of "\<lambda>v. v" ?r] by simp
    have v: "for_loop [0..<features] (\<lambda>j variance. do {
           xi \<leftarrow> rd x i;
           xij \<leftarrow> rd xi j;
           Some (variance + (xij - mu) * (xij - mu)) }) 0 = Some (\<Sum>v\<leftarrow>?r. (v - mu)\<^sup>2)" for mu
      using sum_loop[of i x features "\<lambda>v. (v - mu) * (v - mu)" 0] ix len
        sum_nth_eq_sum_list[of "\<lambda>v. (v - mu)\<^sup>2" ?r] by (simp add: power2_eq_square)
    have out: "build features (\<lambda>j. do {
           xi \<leftarrow> rd x i;
           xij \<leftarrow> rd xi j;
           Some ((xij - mu) / sqrt (var + EPSILON)) })
        = Some (map (\<lambda>v. (v - mu) / sqrt (var + 1 / 100000)) ?r)" for mu var
    proof -
      have "build features (\<lambda>j. do {
           xi \<leftarrow> rd x i;
           xij \<leftarrow> rd xi j;
           Some ((xij - mu) / sqrt (var + EPSILON)) })
        = Some (map (\<lambda>j. (?r ! j - mu) / sqrt (var + 1 / 100000)) [0..<features])"
        by (rule build_eq_map) (use ix len in \<open>simp add: rd_def EPSILON_def\<close>)
      also have "map (\<lambda>j. (?r ! j - mu) / sqrt (var + 1 / 100000)) [0..<features]
           = map (\<lambda>v. (v - mu) / sqrt (var + 1 / 100000)) ?r"
        using len by (auto simp: list_eq_iff_nth_eq)
      finally show ?thesis .
    qed
    show "do {
       mean \<leftarrow> for_loop [0..<features] (\<lambda>j mean. do {
           xi \<leftarrow> rd x i;
           xij \<leftarrow> rd xi j;
           Some (mean + xij)
         }) 0;
       let mean = mean / real features;
       variance \<leftarrow> for_loop [0..<features] (\<lambda>j variance. do {
           xi \<leftarrow> rd x i;
           xij \<leftarrow> rd xi j;
           Some (variance + (xij - mean) * (xij - mean))
         }) 0;
       let variance = variance / real features;
       build features (\<lambda>j. do {
           xi \<leftarrow> rd x i;
           xij \<leftarrow> rd xi j;
           Some ((xij - mean) / sqrt (variance + EPSILON))
         })
     } = Some (normalize_row (x ! i))"
      unfolding m by (simp add: v out Let_def normalize_row_def mean_of_def variance_of_def len)
  qed
  also have "map (\<lambda>i. normalize_row (x ! i)) [0..<seqLength] = map normalize_row x"
    using assms(1) by (auto simp: list_eq_iff_nth_eq)
  finally show ?thesis .
qed

subsection \<open>scaled\_dot\_product\_attention\<close>

lemma for_loop_acc:
  assumes "\<And>k s T. k \<in> set ks \<Longrightarrow> Inv T s \<Longrightarrow> \<exists>s'. body k s = Some s' \<and> Inv (T \<union> A k) s'"
    and "Inv T s"
  shows "\<exists>s'. for_loop ks body s = Some s' \<and> Inv (T \<union> (\<Union>k\<in>set ks. A k)) s'"
  using assms
proof (induction ks arbitrary: T s)
  case Nil
  then show ?case by simp
next
  case (Cons k ks)
  from Cons.prems(1)[of k T s] Cons.prems(2)
  obtain s1 where s1: "body k s = Some s1" "Inv (T \<union> A k) s1" by auto
  have "\<exists>s'. for_loop ks body s1 = Some s' \<and> Inv ((T \<union> A k) \<union> (\<Union>k\<in>set ks. A k)) s'"
    by (rule Cons.IH) (use Cons.prems(1) s1(2) in auto)
  moreover have "(T \<union> A k) \<union> (\<Union>k\<in>set ks. A k) = T \<union> (\<Union>k\<in>set (k # ks). A k)"
    by auto
  ultimately show ?case using s1(1) by simp
qed

lemma dot_loop_rows:
  assumes "i < length Q" and "j < length K" and "length (Q ! i) = depth" and "length (K ! j) = depth"
    and "4 dvd depth"
  shows "\<exists>r. for_loop (count_by 4 0 depth) (\<lambda>k_idx sum. do {
                       Qi \<leftarrow> rd Q i;
                       q_vals \<leftarrow> mm_load_ps Qi k_idx;
                       Kj \<leftarrow> rd K j;
                       k_vals \<leftarrow> mm_load_ps Kj k_idx;
                       Some (mm_add_ps sum (mm_mul_ps q_vals k_vals))
                     }) mm_setzero_ps = Some r \<and> hsum r = dot (Q ! i) (K ! j)"
proof -
  have body: "(\<lambda>k_idx sum. do {
                       Qi \<leftarrow> rd Q i;
                       q_vals \<leftarrow> mm_load_ps Qi k_idx;
                       Kj \<leftarrow> rd K j;
                       k_vals \<leftarrow> mm_load_ps Kj k_idx;
                       Some (mm_add_ps sum (mm_mul_ps q_vals k_vals)) })
     = (\<lambda>k_idx sum. do {
           input_vals \<leftarrow> mm_loadu_ps (Q ! i) k_idx;
           weight_vals \<leftarrow> mm_loadu_ps (K ! j) k_idx;
           Some (mm_add_ps sum (mm_mul_ps input_vals weight_vals)) })"
    using assms(1,2) by (simp add: rd_def mm_load_ps_def)
  show ?thesis
    unfolding body
    using dot_loop[of 4 depth "Q ! i" "K ! j" 0 mm_setzero_ps] assms(3-5)
    by (auto simp: dot_def mm_setzero_ps_def atLeast0LessThan)
qed

lemma wr2_Some:
  "i < length a \<Longrightarrow> j < length (a ! i) \<Longrightarrow> wr2 a i j v = Some (a[i := (a ! i)[j := v]])"
  by (simp add: wr2_def rd_def wr_def)

lemma tile_member:
  assumes "i < n"
  shows "64 * (i div 64) \<in> set (count_by 64 0 n)"
    and "i \<in> set [64 * (i div 64)..<min (64 * (i div 64) + 64) n]"
proof -
  have "64 * (i div 64) \<le> i" by simp
  moreover have "i < 64 * (i div 64) + 64" by presburger
  ultimately show "64 * (i div 64) \<in> set (count_by 64 0 n)"
    and "i \<in> set [64 * (i div 64)..<min (64 * (i div 64) + 64) n]"
    using assms by (simp_all add: set_count_by)
qed

lemma sdpa_value:
  assumes "length Q = seqLength" and "\<forall>r\<in>set Q. length r = depth"
    and "length K = seqLength" and "\<forall>r\<in>set K. length r = depth"
    and "4 dvd depth"
  shows "scaled_dot_product_attention Q K V seqLength depth =
           Some (map (\<lambda>i. map (\<lambda>j. (1 / sqrt (real depth)) * dot (Q ! i) (K ! j)) [0..<seqLength])
                  [0..<seqLength])"
proof -
  define n where "n = seqLength"
  define f where "f i j = (1 / sqrt (real depth)) * dot (Q ! i) (K ! j)" for i j
  define Inv where "Inv T out \<longleftrightarrow>
      length out = n \<and> (\<forall>r\<in>set out. length r = n) \<and> (\<forall>(i, j)\<in>T. out ! i ! j = f i j)"
    for T and out :: matrix
  define cell where "cell i j buf = do {
      sum \<leftarrow> for_loop (count_by 4 0 depth) (\<lambda>k_idx sum. do {
          Qi \<leftarrow> rd Q i;
          q_vals \<leftarrow> mm_load_ps Qi k_idx;
          Kj \<leftarrow> rd K j;
          k_vals \<leftarrow> mm_load_ps Kj k_idx;
          Some (mm_add_ps sum (mm_mul_ps q_vals k_vals))
        }) mm_setzero_ps;
      wr2 buf i j (hsum sum * (1 / sqrt (real depth)))
    }" for i j and buf :: matrix
  have cell_step: "\<exists>s'. cell i j s = Some s' \<and> Inv (T \<union> {(i, j)}) s'"
    if "i < n" "j < n" "Inv T s" for i j T s
  proof -
    from that assms obtain r where r: "for_loop (count_by 4 0 depth) (\<lambda>k_idx sum. do {
          Qi \<leftarrow> rd Q i;
          q_vals \<leftarrow> mm_load_ps Qi k_idx;
          Kj \<leftarrow> rd K j;
          k_vals \<leftarrow> mm_load_ps Kj k_idx;
          Some (mm_add_ps sum (mm_mul_ps q_vals k_vals))
        }) mm_setzero_ps = Some r" "hsum r = dot (Q ! i) (K ! j)"
      using dot_loop_rows[of i Q j K depth] by (auto simp: n_def)
    from that have dims: "length s = n" "\<forall>r\<in>set s. length r = n" by (simp_all add: Inv_def)
    then have si: "length (s ! i) = n" using that(1) by simp
    let ?s' = "s[i := (s ! i)[j := f i j]]"
    have "cell i j s = Some ?s'"
      using r wr2_Some[of i s j] that(1,2) dims(1) si by (simp add: cell_def f_def)
    moreover have "Inv (T \<union> {(i, j)}) ?s'"
      unfolding Inv_def
    proof (intro conjI ballI)
      show "length ?s' = n" using dims by simp
      show "length r = n" if "r \<in> set ?s'" for r
        using that dims si by (auto dest!: set_update_subset_insert[THEN subsetD])
      show "case c of (i', j') \<Rightarrow> ?s' ! i' ! j' = f i' j'" if "c \<in> T \<union> {(i, j)}" for c
      proof (cases c)
        case (Pair i' j')
        show ?thesis
        proof (cases "(i', j') = (i, j)")
          case True
          then show ?thesis using Pair \<open>i < n\<close> \<open>j < n\<close> dims(1) si by simp
        next
          case False
          with that Pair have "(i', j') \<in> T" by auto
          with \<open>Inv T s\<close> have old: "s ! i' ! j' = f i' j'" by (auto simp: Inv_def)
          show ?thesis
          proof (cases "i' = i")
            case True
            with False have "j' \<noteq> j" by simp
            with True old Pair \<open>i < n\<close> dims(1) show ?thesis by simp
          next
            case False
            with old Pair show ?thesis by simp
          qed
        qed
      qed
    qed
    ultimately show ?thesis by blast
  qed
  have L4: "\<exists>s'. for_loop [bj..<min (bj + 64) n] (cell i) s = Some s' \<and>
              Inv (T \<union> (\<Union>j\<in>set [bj..<min (bj + 64) n]. {(i, j)})) s'"
    if "i < n" "Inv T s" for bj i T s
    by (rule for_loop_acc[where Inv = Inv and A = "\<lambda>j. {(i, j)}"]) (use cell_step that in auto)
  have L3: "\<exists>s'. for_loop [bi..<min (bi + 64) n] (\<lambda>i. for_loop [bj..<min (bj + 64) n] (cell i)) s = Some s' \<and>
              Inv (T \<union> (\<Union>i\<in>set [bi..<min (bi + 64) n]. \<Union>j\<in>set [bj..<min (bj + 64) n]. {(i, j)})) s'"
    if "Inv T s" for bi bj T s
    by (rule for_loop_acc[where Inv = Inv
          and A = "\<lambda>i. \<Union>j\<in>set [bj..<min (bj + 64) n]. {(i, j)}"]) (use L4 that in auto)
  have L2: "\<exists>s'. for_loop (count_by 64 0 n)
               (\<lambda>bj. for_loop [bi..<min (bi + 64) n] (\<lambda>i. for_loop [bj..<min (bj + 64) n] (cell i))) s = Some s' \<and>
              Inv (T \<union> (\<Union>bj\<in>set (count_by 64 0 n). \<Union>i\<in>set [bi..<min (bi + 64) n].
                     \<Union>j\<in>set [bj..<min (bj + 64) n]. {(i, j)})) s'"
    if "Inv T s" for bi T s
    by (rule for_loop_acc[where Inv = Inv
          and A = "\<lambda>bj. \<Union>i\<in>set [bi..<min (bi + 64) n]. \<Union>j\<in>set [bj..<min (bj + 64) n]. {(i, j)}"])
       (use L3 that in auto)
  have L1: "\<exists>s'. for_loop (count_by 64 0 n)
               (\<lambda>bi. for_loop (count_by 64 0 n)
                 (\<lambda>bj. for_loop [bi..<min (bi + 64) n] (\<lambda>i. for_loop [bj..<min (bj + 64) n] (cell i)))) s = Some s' \<and>
              Inv (T \<union> (\<Union>bi\<in>set (count_by 64 0 n). \<Union>bj\<in>set (count_by 64 0 n).
                     \<Union>i\<in>set [bi..<min (bi + 64) n]. \<Union>j\<in>set [bj..<min (bj + 64) n]. {(i, j)})) s'"
    if "Inv T s" for T s
    by (rule for_loop_acc[where Inv = Inv
          and A = "\<lambda>bi. \<Union>bj\<in>set (count_by 64 0 n). \<Union>i\<in>set [bi..<min (bi + 64) n].
                     \<Union>j\<in>set [bj..<min (bj + 64) n]. {(i, j)}"])
       (use L2 that in auto)
  let ?U = "\<Union>bi\<in>set (count_by 64 0 n). \<Union>bj\<in>set (count_by 64 0 n).
              \<Union>i\<in>set [bi..<min (bi + 64) n]. \<Union>j\<in>set [bj..<min (bj + 64) n]. {(i, j)}"
  have init: "Inv {} (replicate n (malloc_floats n))"
    by (simp add: Inv_def malloc_floats_def)
  from L1[OF init] obtain out where out:
    "for_loop (count_by 64 0 n)
       (\<lambda>bi. for_loop (count_by 64 0 n)
         (\<lambda>bj. for_loop [bi..<min (bi + 64) n] (\<lambda>i. for_loop [bj..<min (bj + 64) n] (cell i))))
       (replicate n (malloc_floats n)) = Some out"
    "Inv ?U out" by auto
  have covered: "(i, j) \<in> ?U" if "i < n" "j < n" for i j
    using tile_member[OF that(1)] tile_member[OF that(2)] by blast
  have "out = map (\<lambda>i. map (\<lambda>j. f i j) [0..<n]) [0..<n]"
  proof (rule nth_equalityI)
    show "length out = length (map (\<lambda>i. map (\<lambda>j. f i j) [0..<n]) [0..<n])"
      using out(2) by (simp add: Inv_def)
    fix i assume "i < length out"
    then have i: "i < n" using out(2) by (simp add: Inv_def)
    then have li: "length (out ! i) = n" using out(2) by (simp add: Inv_def)
    have "out ! i = map (\<lambda>j. f i j) [0..<n]"
    proof (rule nth_equalityI)
      show "length (out ! i) = length (map (\<lambda>j. f i j) [0..<n])" using li by simp
      fix j assume "j < length (out ! i)"
      then have j: "j < n" using li by simp
      from covered[OF i j] out(2) have "out ! i ! j = f i j" by (auto simp: Inv_def)
      then show "out ! i ! j = map (\<lambda>j. f i j) [0..<n] ! j" using j by simp
    qed
    then show "out ! i = map (\<lambda>i. map (\<lambda>j. f i j) [0..<n]) [0..<n] ! i" using i by simp
  qed
  moreover have "cell = (\<lambda>i j buf. do {
      sum \<leftarrow> for_loop (count_by 4 0 depth) (\<lambda>k_idx sum. do {
          Qi \<leftarrow> rd Q i;
          q_vals \<leftarrow> mm_load_ps Qi k_idx;
          Kj \<leftarrow> rd K j;
          k_vals \<leftarrow> mm_load_ps Kj k_idx;
          Some (mm_add_ps sum (mm_mul_ps q_vals k_vals))
        }) mm_setzero_ps;
      wr2 buf i j (hsum sum * (1 / sqrt (real depth)))
    })"
    by (intro ext) (simp add: cell_def)
  ultimately show "scaled_dot_product_attention Q K V seqLength depth =
           Some (map (\<lambda>i. map (\<lambda>j. (1 / sqrt (real depth)) * dot (Q ! i) (K ! j)) [0..<seqLength])
                  [0..<seqLength])"
    using out(1) by (simp add: scaled_dot_product_attention_def Let_def n_def f_def)
qed

lemma sdpa_ignores_V:
  "scaled_dot_product_attention Q K V' seqLength depth =
     scaled_dot_product_attention Q K V seqLength depth"
  by (simp add: scaled_dot_product_attention_def)

subsection \<open>Shapes of what the functions return\<close>

lemma for_loop_preserves:
  assumes "for_loop ks body s = Some s'" and "P s"
    and "\<And>k t t'. k \<in> set ks \<Longrightarrow> P t \<Longrightarrow> body k t = Some t' \<Longrightarrow> P t'"
  shows "P s'"
  using assms
proof (induction ks arbitrary: s)
  case Nil
  then show ?case by simp
next
  case (Cons k ks)
  from Cons.prems(1) obtain s1 where s1: "body k s = Some s1" "for_loop ks body s1 = Some s'"
    by (auto split: option.splits)
  have "P s1" using Cons.prems(3)[of k s s1] Cons.prems(2) s1(1) by simp
  with Cons.IH[OF s1(2)] Cons.prems(3) show ?case by auto
qed

lemma build_length: "build n f = Some xs \<Longrightarrow> length xs = n"
  by (simp add: build_Some_iff)

lemma build_nth: "build n f = Some xs \<Longrightarrow> i < n \<Longrightarrow> f i = Some (xs ! i)"
  by (simp add: build_Some_iff)

lemma wr2_shape:
  assumes "wr2 a i j v = Some a'" and "length a = n" and "\<forall>r\<in>set a. length r = m"
  shows "length a' = n \<and> (\<forall>r\<in>set a'. length r = m)"
proof -
  from assms(1) have i: "i < length a" and a': "a' = a[i := (a ! i)[j := v]]"
    by (auto simp: wr2_def rd_def wr_def split: if_splits bind_splits)
  have "set a' \<subseteq> insert ((a ! i)[j := v]) (set a)"
    unfolding a' by (rule set_update_subset_insert)
  moreover have "length ((a ! i)[j := v]) = m" using i assms(3) by simp
  ultimately show ?thesis using assms(2,3) a' by auto
qed

lemma sdpa_shape:
  assumes "scaled_dot_product_attention Q K V seqLength depth = Some out"
  shows "length out = seqLength \<and> (\<forall>r\<in>set out. length r = seqLength)"
proof -
  define P where "P t \<longleftrightarrow> length t = seqLength \<and> (\<forall>r\<in>set t. length r = seqLength)" for t :: matrix
  define cell where "cell = (\<lambda>i j (buf::matrix). do {
      sum \<leftarrow> for_loop (count_by 4 0 depth) (\<lambda>k_idx sum. do {
          Qi \<leftarrow> rd Q i;
          q_vals \<leftarrow> mm_load_ps Qi k_idx;
          Kj \<leftarrow> rd K j;
          k_vals \<leftarrow> mm_load_ps Kj k_idx;
          Some (mm_add_ps sum (mm_mul_ps q_vals k_vals))
        }) mm_setzero_ps;
      wr2 buf i j (hsum sum * (1 / sqrt (real depth)))
    })"
  have c: "P t'" if "cell i j t = Some t'" "P t" for i j t t'
    using that wr2_shape[of t i j _ t' seqLength seqLength]
    by (auto simp: cell_def P_def split: bind_splits)
  have L4: "P t'" if "for_loop js (cell i) t = Some t'" "P t" for js i t t'
    using that(1,2) by (rule for_loop_preserves) (rule c)
  have L3: "P t'" if "for_loop is (\<lambda>i. for_loop (js i) (cell i)) t = Some t'" "P t" for "is" js t t'
    using that(1,2) by (rule for_loop_preserves) (rule L4)
  have L2: "P t'"
    if "for_loop bjs (\<lambda>bj. for_loop (is bi) (\<lambda>i. for_loop (js bj) (cell i))) t = Some t'" "P t"
    for bjs "is" js bi t t'
    using that(1,2) by (rule for_loop_preserves) (rule L3)
  have L1: "P t'"
    if "for_loop bis (\<lambda>bi. for_loop bjs (\<lambda>bj. for_loop (is bi) (\<lambda>i. for_loop (js bj) (cell i)))) t = Some t'" "P t"
    for bis bjs "is" js t t'
    using that(1,2) by (rule for_loop_preserves) (rule L2)
  have "P (replicate seqLength (malloc_floats seqLength))"
    by (simp add: P_def malloc_floats_def)
  moreover have "for_loop (count_by 64 0 seqLength) (\<lambda>bi. for_loop (count_by 64 0 seqLength)
      (\<lambda>bj. for_loop [bi..<min (bi + 64) seqLength] (\<lambda>i. for_loop [bj..<min (bj + 64) seqLength] (cell i))))
      (replicate seqLength (malloc_floats seqLength)) = Some out"
    using assms by (simp add: scaled_dot_product_attention_def Let_def cell_def)
  ultimately have "P out"
    using L1[of "count_by 64 0 seqLength" "count_by 64 0 seqLength"
        "\<lambda>bi. [bi..<min (bi + 64) seqLength]" "\<lambda>bj. [bj..<min (bj + 64) seqLength]"
        "replicate seqLength (malloc_floats seqLength)" out] by simp
  then show ?thesis by (simp add: P_def)
qed

lemma attention_heads_shape:
  assumes "attention_heads heads seqLength = Some head_outputs"
  shows "length head_outputs = NUM_HEADS"
    and "h < NUM_HEADS \<Longrightarrow> length (head_outputs ! h) = seqLength"
    and "h < NUM_HEADS \<Longrightarrow> i < seqLength \<Longrightarrow> length (head_outputs ! h ! i) = seqLength"
proof -
  show len: "length head_outputs = NUM_HEADS"
    using assms by (auto simp: attention_heads_def dest: build_length)
  have s: "length (head_outputs ! h) = seqLength \<and> (\<forall>r\<in>set (head_outputs ! h). length r = seqLength)"
    if "h < NUM_HEADS" for h
  proof -
    from build_nth[OF assms[unfolded attention_heads_def] that]
    obtain head where "scaled_dot_product_attention (map fst head) (map (fst \<circ> snd) head)
        (map (snd \<circ> snd) head) seqLength HEAD_DIM = Some (head_outputs ! h)"
      by (auto split: bind_splits)
    then show ?thesis by (rule sdpa_shape)
  qed
  show "h < NUM_HEADS \<Longrightarrow> length (head_outputs ! h) = seqLength" using s by simp
  show "h < NUM_HEADS \<Longrightarrow> i < seqLength \<Longrightarrow> length (head_outputs ! h ! i) = seqLength"
    using s by simp
qed

subsection \<open>The heads of the attention\<close>

lemma HEAD_DIM_64: "HEAD_DIM = 64"
  by (simp add: HEAD_DIM_def EMBEDDING_SIZE_def NUM_HEADS_def)

lemma EMBEDDING_SIZE_heads: "EMBEDDING_SIZE = NUM_HEADS * HEAD_DIM"
  by (simp add: HEAD_DIM_def EMBEDDING_SIZE_def NUM_HEADS_def)

lemma build_None: "i < n \<Longrightarrow> f i = None \<Longrightarrow> build n f = None"
  using build_None_iff by blast

lemma concat_heads_short:
  assumes "0 < seqLength"
    and "0 < length head_outputs \<Longrightarrow> 0 < length (head_outputs ! 0) \<Longrightarrow>
           length (head_outputs ! 0 ! 0) < HEAD_DIM"
  shows "concat_heads head_outputs seqLength embeddingSize = None"
  unfolding concat_heads_def
proof (rule build_None[of 0])
  show "0 < seqLength" by fact
  have split: "[0..<NUM_HEADS] = 0 # [1..<NUM_HEADS]"
    by (simp add: NUM_HEADS_def upt_conv_Cons)
  have first: "do {
           head_output \<leftarrow> rd head_outputs 0;
           src \<leftarrow> rd head_output 0;
           memcpy a_i (0 * HEAD_DIM) src 0 HEAD_DIM
         } = None" for a_i
  proof (cases "0 < length head_outputs \<and> 0 < length (head_outputs ! 0)")
    case True
    then have "length (head_outputs ! 0 ! 0) < HEAD_DIM" using assms(2) by simp
    then show ?thesis using True by (simp add: rd_def memcpy_def)
  next
    case False
    then show ?thesis by (auto simp: rd_def)
  qed
  show "for_loop [0..<NUM_HEADS] (\<lambda>h a_i. do {
           head_output \<leftarrow> rd head_outputs h;
           src \<leftarrow> rd head_output 0;
           memcpy a_i (h * HEAD_DIM) src 0 HEAD_DIM
         }) (malloc_floats embeddingSize) = None"
    unfolding split using first by simp
qed

lemma concat_heads_row:
  assumes "m \<le> NUM_HEADS" and "length head_outputs = NUM_HEADS"
    and "\<forall>h<NUM_HEADS. i < length (head_outputs ! h) \<and> HEAD_DIM \<le> length (head_outputs ! h ! i)"
  shows "for_loop [0..<m] (\<lambda>h a_i. do {
           head_output \<leftarrow> rd head_outputs h;
           src \<leftarrow> rd head_output i;
           memcpy a_i (h * HEAD_DIM) src 0 HEAD_DIM
         }) (malloc_floats EMBEDDING_SIZE)
       = Some (concat (map (\<lambda>h. take HEAD_DIM (head_outputs ! h ! i)) [0..<m])
               @ replicate (EMBEDDING_SIZE - m * HEAD_DIM) 0)
     \<and> length (concat (map (\<lambda>h. take HEAD_DIM (head_outputs ! h ! i)) [0..<m])) = m * HEAD_DIM"
  using assms(1)
proof (induction m)
  case 0
  then show ?case by (simp add: malloc_floats_def)
next
  case (Suc m)
  let ?pre = "concat (map (\<lambda>h. take HEAD_DIM (head_outputs ! h ! i)) [0..<m])"
  let ?src = "head_outputs ! m ! i"
  from Suc have m: "m < NUM_HEADS" by simp
  with Suc.IH have IH: "for_loop [0..<m] (\<lambda>h a_i. do {
           head_output \<leftarrow> rd head_outputs h;
           src \<leftarrow> rd head_output i;
           memcpy a_i (h * HEAD_DIM) src 0 HEAD_DIM
         }) (malloc_floats EMBEDDING_SIZE) = Some (?pre @ replicate (EMBEDDING_SIZE - m * HEAD_DIM) 0)"
    and len: "length ?pre = m * HEAD_DIM" by simp_all
  from m assms have src: "i < length (head_outputs ! m)" "HEAD_DIM \<le> length ?src" by simp_all
  from m have "Suc m * HEAD_DIM \<le> NUM_HEADS * HEAD_DIM" by (intro mult_le_mono1) simp
  then have fit: "m * HEAD_DIM + HEAD_DIM \<le> EMBEDDING_SIZE" by (simp add: EMBEDDING_SIZE_heads)
  have "memcpy (?pre @ replicate (EMBEDDING_SIZE - m * HEAD_DIM) 0) (m * HEAD_DIM) ?src 0 HEAD_DIM
      = Some (?pre @ take HEAD_DIM ?src @ replicate (EMBEDDING_SIZE - Suc m * HEAD_DIM) 0)"
    using src fit len by (simp add: memcpy_def)
  then show ?case
    using IH m src len assms(2) by (simp add: for_loop_append rd_def)
qed

lemma concat_heads_value:
  assumes "length head_outputs = NUM_HEADS"
    and "\<forall>h<NUM_HEADS. seqLength \<le> length (head_outputs ! h) \<and>
           (\<forall>i<seqLength. HEAD_DIM \<le> length (head_outputs ! h ! i))"
  shows "concat_heads head_outputs seqLength EMBEDDING_SIZE =
           Some (map (\<lambda>i. concat (map (\<lambda>h. take HEAD_DIM (head_outputs ! h ! i)) [0..<NUM_HEADS]))
                  [0..<seqLength])"
  unfolding concat_heads_def
proof (rule build_eq_map)
  fix i assume "i < seqLength"
  with assms(2) have "\<forall>h<NUM_HEADS. i < length (head_outputs ! h) \<and> HEAD_DIM \<le> length (head_outputs ! h ! i)"
    by fastforce
  from concat_heads_row[OF le_refl assms(1) this]
  show "for_loop [0..<NUM_HEADS] (\<lambda>h a_i. do {
           head_output \<leftarrow> rd head_outputs h;
           src \<leftarrow> rd head_output i;
           memcpy a_i (h * HEAD_DIM) src 0 HEAD_DIM
         }) (malloc_floats EMBEDDING_SIZE)
       = Some (concat (map (\<lambda>h. take HEAD_DIM (head_outputs ! h ! i)) [0..<NUM_HEADS]))"
    by (simp add: EMBEDDING_SIZE_heads)
qed

lemma dot_replicate: "dot (replicate n a) (replicate n b) = real n * (a * b)"
  by (simp add: dot_def)

lemma attention_heads_value:
  assumes "length heads = NUM_HEADS"
    and "\<forall>head\<in>set heads. length head = seqLength \<and>
           (\<forall>qkv\<in>set head. length (fst qkv) = HEAD_DIM \<and> length (fst (snd qkv)) = HEAD_DIM)"
  shows "attention_heads heads seqLength =
           Some (map (\<lambda>h. map (\<lambda>i. map (\<lambda>j.
                   (1 / sqrt (real HEAD_DIM)) * dot (fst (heads ! h ! i)) (fst (snd (heads ! h ! j))))
                 [0..<seqLength]) [0..<seqLength]) [0..<NUM_HEADS])"
  unfolding attention_heads_def
proof (rule build_eq_map)
  fix h assume h: "h < NUM_HEADS"
  let ?head = "heads ! h"
  from h assms(1) have "?head \<in> set heads" by simp
  with assms(2) have hd: "length ?head = seqLength"
    "\<forall>qkv\<in>set ?head. length (fst qkv) = HEAD_DIM \<and> length (fst (snd qkv)) = HEAD_DIM"
    by blast+
  have "scaled_dot_product_attention (map fst ?head) (map (fst \<circ> snd) ?head) (map (snd \<circ> snd) ?head)
          seqLength HEAD_DIM
      = Some (map (\<lambda>i. map (\<lambda>j. (1 / sqrt (real HEAD_DIM)) *
                 dot (map fst ?head ! i) (map (fst \<circ> snd) ?head ! j)) [0..<seqLength]) [0..<seqLength])"
    by (rule sdpa_value) (use hd in \<open>auto simp: HEAD_DIM_64\<close>)
  then show "do {
       head \<leftarrow> rd heads h;
       scaled_dot_product_attention (map fst head) (map (fst \<circ> snd) head) (map (snd \<circ> snd) head)
         seqLength HEAD_DIM
     } = Some (map (\<lambda>i. map (\<lambda>j.
                   (1 / sqrt (real HEAD_DIM)) * dot (fst (heads ! h ! i)) (fst (snd (heads ! h ! j))))
                 [0..<seqLength]) [0..<seqLength])"
    using h assms(1) hd(1) by (simp add: rd_def)
qed

text \<open>
  Claim C10. In the recombination of the heads, \<open>HEAD_DIM = 64\<close> floats are copied out of
  each row \<open>head_outputs[h][i]\<close>, and the attention kernel returned that row with
  \<open>seqLength\<close> cells. So the recombination stays inside its rows exactly when
  \<open>seqLength \<ge> HEAD_DIM\<close> (the writes into the rows of \<open>a\<close>, of \<open>EMBEDDING_SIZE\<close> cells, always
  fit), and then head \<open>h\<close> gives the first \<open>HEAD_DIM\<close> cells of its row to the columns from
  \<open>h * HEAD_DIM\<close> on. The sequence has at least one position.
\<close>

theorem head_recombination_bounds:
  assumes "attention_heads heads seqLength = Some head_outputs" and "0 < seqLength"
  shows "HEAD_DIM = 64
     \<and> (\<forall>h<NUM_HEADS. \<forall>i<seqLength. length (head_outputs ! h ! i) = seqLength)
     \<and> (concat_heads head_outputs seqLength EMBEDDING_SIZE \<noteq> None \<longleftrightarrow> HEAD_DIM \<le> seqLength)
     \<and> (HEAD_DIM \<le> seqLength \<longrightarrow>
          concat_heads head_outputs seqLength EMBEDDING_SIZE =
            Some (map (\<lambda>i. concat (map (\<lambda>h. take HEAD_DIM (head_outputs ! h ! i)) [0..<NUM_HEADS]))
                   [0..<seqLength]))"
proof -
  note sh = attention_heads_shape[OF assms(1)]
  have rows: "\<forall>h<NUM_HEADS. \<forall>i<seqLength. length (head_outputs ! h ! i) = seqLength"
    using sh(3) by simp
  have short: "concat_heads head_outputs seqLength EMBEDDING_SIZE = None" if "seqLength < HEAD_DIM"
  proof (rule concat_heads_short[OF assms(2)])
    show "length (head_outputs ! 0 ! 0) < HEAD_DIM"
      using sh(3)[of 0 0] assms(2) that by (simp add: NUM_HEADS_def)
  qed
  have long: "concat_heads head_outputs seqLength EMBEDDING_SIZE =
            Some (map (\<lambda>i. concat (map (\<lambda>h. take HEAD_DIM (head_outputs ! h ! i)) [0..<NUM_HEADS]))
                   [0..<seqLength])" if "HEAD_DIM \<le> seqLength"
    by (rule concat_heads_value) (use sh that in auto)
  show ?thesis using rows short long HEAD_DIM_64 by (cases "HEAD_DIM \<le> seqLength") auto
qed

theorem head_recombination_bounds_witness:
  "attention_heads (replicate 12 [(replicate 64 1, replicate 64 1, [])]) 1 = Some (replicate 12 [[8]])
   \<and> concat_heads (replicate 12 [[8]]) 1 EMBEDDING_SIZE = None"
proof -
  have a: "attention_heads (replicate 12 [(replicate 64 1, replicate 64 1, [])]) 1 = Some (replicate 12 [[8]])"
    using attention_heads_value[of "replicate 12 [(replicate 64 1, replicate 64 1, [])]" 1]
    by (simp add: NUM_HEADS_def HEAD_DIM_64 list_eq_iff_nth_eq dot_replicate)
  from head_recombination_bounds[OF a] show ?thesis
    using a by (simp add: HEAD_DIM_64)
qed

subsection \<open>Sequences shorter than a head is wide\<close>

lemma mha_short:
  assumes "0 < seqLength" and "seqLength < HEAD_DIM"
  shows "multi_head_attention Q K V seqLength embeddingSize = None"
proof (cases "split_heads Q K V seqLength")
  case None
  then show ?thesis by (simp add: multi_head_attention_def)
next
  case (Some heads)
  show ?thesis
  proof (cases "attention_heads heads seqLength")
    case None
    with Some show ?thesis by (simp add: multi_head_attention_def)
  next
    case (Some head_outputs)
    have "length (head_outputs ! 0 ! 0) = seqLength"
      using attention_heads_shape(3)[OF Some, of 0 0] assms(1) by (simp add: NUM_HEADS_def)
    then have "concat_heads head_outputs seqLength embeddingSize = None"
      using assms by (intro concat_heads_short) simp_all
    with Some \<open>split_heads Q K V seqLength = Some heads\<close> show ?thesis
      by (simp add: multi_head_attention_def)
  qed
qed

lemma block_short:
  assumes "0 < seqLength" and "seqLength < HEAD_DIM"
  shows "block x seqLength embeddingSize w = None"
  by (simp add: block_def mha_short[OF assms] bind_eq_None_conv)

lemma model_short:
  assumes "0 < seqLength" and "seqLength < HEAD_DIM"
  shows "model tokens seqLength w = None"
proof -
  have split: "[0..<NUM_BLOCKS] = 0 # [1..<NUM_BLOCKS]"
    by (simp add: NUM_BLOCKS_def upt_conv_Cons)
  have "for_loop [0..<NUM_BLOCKS] (\<lambda>i h. do {
         bw \<leftarrow> rd (blocks w) i;
         block h seqLength EMBEDDING_SIZE bw
       }) h = None" for h
    unfolding split by (simp add: block_short[OF assms] bind_eq_None_conv)
  then show ?thesis by (simp add: model_def bind_eq_None_conv)
qed

subsection \<open>The stages on inputs of the right shapes\<close>

lemma apply_layer_value:
  assumes "layer_ok l inSize outSize" and "length v = inSize" and "4 dvd inSize"
  shows "apply_layer l v = Some (linear_spec l v)"
  using assms linear_layer_value[of v inSize "weights l" outSize "biases l"]
  by (simp add: apply_layer_def linear_spec_def layer_ok_def)

lemma length_linear_spec: "length (linear_spec l v) = fcOutputSize l"
  by (simp add: linear_spec_def)

lemma project_qkv_value:
  assumes "length normalized_x = seqLength" and "\<forall>r\<in>set normalized_x. length r = inSize"
    and "layer_ok (q_mlp w) inSize qSize" and "layer_ok (k_mlp w) inSize kSize"
    and "layer_ok (v_mlp w) inSize vSize" and "4 dvd inSize"
  shows "project_qkv normalized_x seqLength w =
           Some (map (\<lambda>r. (linear_spec (q_mlp w) r, linear_spec (k_mlp w) r, linear_spec (v_mlp w) r))
                  normalized_x)"
proof -
  have "project_qkv normalized_x seqLength w =
      Some (map (\<lambda>i. (linear_spec (q_mlp w) (normalized_x ! i), linear_spec (k_mlp w) (normalized_x ! i),
                       linear_spec (v_mlp w) (normalized_x ! i))) [0..<seqLength])"
    unfolding project_qkv_def
  proof (rule build_eq_map)
    fix i assume "i < seqLength"
    then have i: "i < length normalized_x" and len: "length (normalized_x ! i) = inSize"
      using assms(1,2) by simp_all
    show "do {
       xi \<leftarrow> rd normalized_x i;
       Qi \<leftarrow> apply_layer (q_mlp w) xi;
       Ki \<leftarrow> apply_layer (k_mlp w) xi;
       Vi \<leftarrow> apply_layer (v_mlp w) xi;
       Some (Qi, Ki, Vi)
     } = Some (linear_spec (q_mlp w) (normalized_x ! i), linear_spec (k_mlp w) (normalized_x ! i),
               linear_spec (v_mlp w) (normalized_x ! i))"
      using i apply_layer_value[OF assms(3) len assms(6)] apply_layer_value[OF assms(4) len assms(6)]
        apply_layer_value[OF assms(5) len assms(6)]
      by (simp add: rd_def)
  qed
  also have "map (\<lambda>i. (linear_spec (q_mlp w) (normalized_x ! i), linear_spec (k_mlp w) (normalized_x ! i),
                       linear_spec (v_mlp w) (normalized_x ! i))) [0..<seqLength]
      = map (\<lambda>r. (linear_spec (q_mlp w) r, linear_spec (k_mlp w) r, linear_spec (v_mlp w) r)) normalized_x"
    using assms(1) by (auto simp: list_eq_iff_nth_eq)
  finally show ?thesis .
qed

lemma head_slice_value:
  "h * HEAD_DIM + HEAD_DIM \<le> length row \<Longrightarrow> head_slice row h = Some (head_of h row)"
  by (simp add: head_slice_def memcpy_def head_of_def malloc_floats_def)

lemma head_fits:
  assumes "h < NUM_HEADS" and "EMBEDDING_SIZE \<le> length row"
  shows "h * HEAD_DIM + HEAD_DIM \<le> length row"
proof -
  from assms(1) have "Suc h * HEAD_DIM \<le> NUM_HEADS * HEAD_DIM" by (intro mult_le_mono1) simp
  with assms(2) show ?thesis by (simp add: EMBEDDING_SIZE_heads)
qed

lemma length_head_of:
  "h < NUM_HEADS \<Longrightarrow> EMBEDDING_SIZE \<le> length row \<Longrightarrow> length (head_of h row) = HEAD_DIM"
  using head_fits[of h row] by (simp add: head_of_def)

lemma split_heads_value:
  assumes "length Q = seqLength" and "length K = seqLength" and "length V = seqLength"
    and "\<forall>r\<in>set Q. EMBEDDING_SIZE \<le> length r" and "\<forall>r\<in>set K. EMBEDDING_SIZE \<le> length r"
    and "\<forall>r\<in>set V. EMBEDDING_SIZE \<le> length r"
  shows "split_heads Q K V seqLength =
           Some (map (\<lambda>h. map (\<lambda>i. (head_of h (Q ! i), head_of h (K ! i), head_of h (V ! i)))
                   [0..<seqLength]) [0..<NUM_HEADS])"
  unfolding split_heads_def
proof (rule build_eq_map, rule build_eq_map)
  fix h i assume h: "h < NUM_HEADS" and i: "i < seqLength"
  from i assms have "EMBEDDING_SIZE \<le> length (Q ! i)" "EMBEDDING_SIZE \<le> length (K ! i)"
    "EMBEDDING_SIZE \<le> length (V ! i)" by simp_all
  then have "head_slice (Q ! i) h = Some (head_of h (Q ! i))"
    "head_slice (K ! i) h = Some (head_of h (K ! i))"
    "head_slice (V ! i) h = Some (head_of h (V ! i))"
    using h by (simp_all add: head_slice_value head_fits)
  then show "do {
       Qi \<leftarrow> rd Q i;
       Qhi \<leftarrow> head_slice Qi h;
       Ki \<leftarrow> rd K i;
       Khi \<leftarrow> head_slice Ki h;
       Vi \<leftarrow> rd V i;
       Vhi \<leftarrow> head_slice Vi h;
       Some (Qhi, Khi, Vhi)
     } = Some (head_of h (Q ! i), head_of h (K ! i), head_of h (V ! i))"
    using i assms(1-3) by (simp add: rd_def)
qed

lemma embed_tokens_value:
  assumes "length tokens = seqLength" and "seqLength \<le> length (wpe w)"
    and "\<forall>t\<in>set tokens. 0 \<le> t \<and> nat t < length (wte w)"
    and "\<forall>r\<in>set (wte w). length r = EMBEDDING_SIZE" and "\<forall>r\<in>set (wpe w). length r = EMBEDDING_SIZE"
  shows "embed_tokens tokens (positions_for tokens seqLength 0) seqLength w =
           Some (map (\<lambda>i. map2 (+) (wte w ! nat (tokens ! i)) (wpe w ! i)) [0..<seqLength])"
  unfolding embed_tokens_def
proof (rule build_eq_map)
  fix i assume i: "i < seqLength"
  with assms have t: "0 \<le> tokens ! i" "nat (tokens ! i) < length (wte w)" by simp_all
  with assms i have lt: "length (wte w ! nat (tokens ! i)) = EMBEDDING_SIZE"
    and lp: "length (wpe w ! i) = EMBEDDING_SIZE" by simp_all
  have "build EMBEDDING_SIZE (\<lambda>j. do {
       t \<leftarrow> rd tokens i;
       wte_t \<leftarrow> rd_int (wte w) t;
       wte_tj \<leftarrow> rd wte_t j;
       p \<leftarrow> rd (positions_for tokens seqLength 0) i;
       wpe_p \<leftarrow> rd_int (wpe w) p;
       wpe_pj \<leftarrow> rd wpe_p j;
       Some (wte_tj + wpe_pj)
     }) = Some (map (\<lambda>j. wte w ! nat (tokens ! i) ! j + wpe w ! i ! j) [0..<EMBEDDING_SIZE])"
    by (rule build_eq_map)
      (use i t lt lp assms(1,2) in \<open>simp add: rd_def rd_int_def positions_for_def\<close>)
  also have "map (\<lambda>j. wte w ! nat (tokens ! i) ! j + wpe w ! i ! j) [0..<EMBEDDING_SIZE]
       = map2 (+) (wte w ! nat (tokens ! i)) (wpe w ! i)"
    using lt lp by (auto simp: list_eq_iff_nth_eq)
  finally show "build EMBEDDING_SIZE (\<lambda>j. do {
       t \<leftarrow> rd tokens i;
       wte_t \<leftarrow> rd_int (wte w) t;
       wte_tj \<leftarrow> rd wte_t j;
       p \<leftarrow> rd (positions_for tokens seqLength 0) i;
       wpe_p \<leftarrow> rd_int (wpe w) p;
       wpe_pj \<leftarrow> rd wpe_p j;
       Some (wte_tj + wpe_pj)
     }) = Some (map2 (+) (wte w ! nat (tokens ! i)) (wpe w ! i))" .
qed

subsection \<open>The attention output of a block\<close>

lemma length_scores: "length (scores h Q K) = length Q"
  by (simp add: scores_def)

lemma length_scores_row: "i < length Q \<Longrightarrow> length (scores h Q K ! i) = length K"
  by (simp add: scores_def)

lemma length_concat_const:
  "(\<And>h. h < m \<Longrightarrow> length (f h) = c) \<Longrightarrow> length (concat (map f [0..<m])) = m * c"
  by (induction m) simp_all

lemma length_attention_rows: "length (attention_rows Q K) = length Q"
  by (simp add: attention_rows_def)

lemma length_attention_row:
  assumes "i < length Q" and "HEAD_DIM \<le> length K"
  shows "length (attention_rows Q K ! i) = EMBEDDING_SIZE"
proof -
  have "length (concat (map (\<lambda>h. take HEAD_DIM (scores h Q K ! i)) [0..<NUM_HEADS])) = NUM_HEADS * HEAD_DIM"
    by (rule length_concat_const) (use assms in \<open>simp add: length_scores_row\<close>)
  then show ?thesis using assms(1) by (simp add: attention_rows_def EMBEDDING_SIZE_heads)
qed

lemma mha_value:
  assumes "length Q = seqLength" and "length K = seqLength" and "length V = seqLength"
    and "\<forall>r\<in>set Q. EMBEDDING_SIZE \<le> length r" and "\<forall>r\<in>set K. EMBEDDING_SIZE \<le> length r"
    and "\<forall>r\<in>set V. EMBEDDING_SIZE \<le> length r"
    and "HEAD_DIM \<le> seqLength"
  shows "multi_head_attention Q K V seqLength EMBEDDING_SIZE = Some (attention_rows Q K)"
proof -
  define heads where "heads = map (\<lambda>h. map (\<lambda>i. (head_of h (Q ! i), head_of h (K ! i), head_of h (V ! i)))
                   [0..<seqLength]) [0..<NUM_HEADS]"
  define head_outputs where "head_outputs = map (\<lambda>h. scores h Q K) [0..<NUM_HEADS]"
  have s: "split_heads Q K V seqLength = Some heads"
    unfolding heads_def by (rule split_heads_value) fact+
  have "attention_heads heads seqLength =
           Some (map (\<lambda>h. map (\<lambda>i. map (\<lambda>j.
                   (1 / sqrt (real HEAD_DIM)) * dot (fst (heads ! h ! i)) (fst (snd (heads ! h ! j))))
                 [0..<seqLength]) [0..<seqLength]) [0..<NUM_HEADS])"
  proof (rule attention_heads_value)
    show "length heads = NUM_HEADS" by (simp add: heads_def)
    show "\<forall>head\<in>set heads. length head = seqLength \<and>
           (\<forall>qkv\<in>set head. length (fst qkv) = HEAD_DIM \<and> length (fst (snd qkv)) = HEAD_DIM)"
      using assms(1,2,4,5) by (auto simp: heads_def length_head_of)
  qed
  also have "map (\<lambda>h. map (\<lambda>i. map (\<lambda>j.
                   (1 / sqrt (real HEAD_DIM)) * dot (fst (heads ! h ! i)) (fst (snd (heads ! h ! j))))
                 [0..<seqLength]) [0..<seqLength]) [0..<NUM_HEADS] = head_outputs"
    using assms(1,2) by (auto simp: head_outputs_def heads_def scores_def list_eq_iff_nth_eq)
  finally have a: "attention_heads heads seqLength = Some head_outputs" .
  have "concat_heads head_outputs seqLength EMBEDDING_SIZE =
           Some (map (\<lambda>i. concat (map (\<lambda>h. take HEAD_DIM (head_outputs ! h ! i)) [0..<NUM_HEADS]))
                  [0..<seqLength])"
  proof (rule concat_heads_value)
    show "length head_outputs = NUM_HEADS" by (simp add: head_outputs_def)
    show "\<forall>h<NUM_HEADS. seqLength \<le> length (head_outputs ! h) \<and>
           (\<forall>i<seqLength. HEAD_DIM \<le> length (head_outputs ! h ! i))"
      using assms(1,2,7) by (simp add: head_outputs_def length_scores length_scores_row)
  qed
  also have "map (\<lambda>i. concat (map (\<lambda>h. take HEAD_DIM (head_outputs ! h ! i)) [0..<NUM_HEADS]))
                  [0..<seqLength] = attention_rows Q K"
  proof -
    have "map (\<lambda>h. take HEAD_DIM (head_outputs ! h ! i)) [0..<NUM_HEADS]
        = map (\<lambda>h. take HEAD_DIM (scores h Q K ! i)) [0..<NUM_HEADS]" for i
      by (rule map_cong) (simp_all add: head_outputs_def)
    then show ?thesis unfolding attention_rows_def assms(1) by (simp only:)
  qed
  finally show ?thesis using s a by (simp add: multi_head_attention_def)
qed

subsection \<open>The block on inputs of the right shapes\<close>

lemma dvd_EMBEDDING_SIZE: "4 dvd EMBEDDING_SIZE" "4 dvd EMBEDDING_SIZE * 4"
  by (simp_all add: EMBEDDING_SIZE_def)

lemma length_normalize_row: "length (normalize_row r) = length r"
  by (simp add: normalize_row_def)

lemma rows_add:
  assumes "length x = n" and "length y = n"
    and "\<forall>r\<in>set x. length r = m" and "\<forall>r\<in>set y. length r = m"
  shows "length (map2 (map2 (+)) x y) = n" and "\<forall>r\<in>set (map2 (map2 (+)) x y). length r = m"
  using assms by (auto simp: set_zip)

lemma rows_attention:
  assumes "HEAD_DIM \<le> length K"
  shows "\<forall>r\<in>set (attention_rows Q K). length r = EMBEDDING_SIZE"
proof
  fix r assume "r \<in> set (attention_rows Q K)"
  then obtain i where "i < length Q" "r = attention_rows Q K ! i"
    by (auto simp: in_set_conv_nth length_attention_rows)
  then show "length r = EMBEDDING_SIZE" using length_attention_row[OF _ assms] by simp
qed

lemma mlp_rows_value:
  assumes "length normalized_x_added = seqLength"
    and "\<forall>r\<in>set normalized_x_added. length r = EMBEDDING_SIZE"
    and "layer_ok (first_block_MLP w) EMBEDDING_SIZE (EMBEDDING_SIZE * 4)"
    and "layer_ok (second_block_MLP w) (EMBEDDING_SIZE * 4) EMBEDDING_SIZE"
  shows "mlp_rows normalized_x_added seqLength w =
           Some (map (\<lambda>r. linear_spec (second_block_MLP w)
                             (map (\<lambda>v. (1 / 2) * v) (linear_spec (first_block_MLP w) r)))
                  normalized_x_added)"
proof -
  let ?ff = "\<lambda>r. linear_spec (second_block_MLP w) (map (\<lambda>v. (1 / 2) * v) (linear_spec (first_block_MLP w) r))"
  have "mlp_rows normalized_x_added seqLength w = Some (map (\<lambda>i. ?ff (normalized_x_added ! i)) [0..<seqLength])"
    unfolding mlp_rows_def
  proof (rule build_eq_map)
    fix i assume "i < seqLength"
    then have i: "i < length normalized_x_added" and len: "length (normalized_x_added ! i) = EMBEDDING_SIZE"
      using assms(1,2) by simp_all
    let ?r = "normalized_x_added ! i"
    have out1: "fcOutputSize (first_block_MLP w) = EMBEDDING_SIZE * 4"
      using assms(3) by (simp add: layer_ok_def)
    have l1: "apply_layer (first_block_MLP w) ?r = Some (linear_spec (first_block_MLP w) ?r)"
      by (rule apply_layer_value[OF assms(3) len dvd_EMBEDDING_SIZE(1)])
    have g: "gelu (linear_spec (first_block_MLP w) ?r) (fcOutputSize (first_block_MLP w))
        = Some (map (\<lambda>v. (1 / 2) * v) (linear_spec (first_block_MLP w) ?r))"
      by (rule gelu_value) (simp_all add: length_linear_spec out1 dvd_EMBEDDING_SIZE)
    have l2: "apply_layer (second_block_MLP w) (map (\<lambda>v. (1 / 2) * v) (linear_spec (first_block_MLP w) ?r))
        = Some (?ff ?r)"
      by (rule apply_layer_value[OF assms(4) _ dvd_EMBEDDING_SIZE(2)])
         (simp add: length_linear_spec out1)
    show "do {
       xi \<leftarrow> rd normalized_x_added i;
       first_mlp_out \<leftarrow> apply_layer (first_block_MLP w) xi;
       gelu_out \<leftarrow> gelu first_mlp_out (fcOutputSize (first_block_MLP w));
       apply_layer (second_block_MLP w) gelu_out
     } = Some (?ff (normalized_x_added ! i))"
      using i l1 g l2 by (simp add: rd_def)
  qed
  also have "map (\<lambda>i. ?ff (normalized_x_added ! i)) [0..<seqLength] = map ?ff normalized_x_added"
    using assms(1) by (auto simp: list_eq_iff_nth_eq)
  finally show ?thesis .
qed

lemma block_value:
  assumes "length x = seqLength" and "\<forall>r\<in>set x. length r = EMBEDDING_SIZE"
    and "block_weights_ok w" and "HEAD_DIM \<le> seqLength"
  shows "block x seqLength EMBEDDING_SIZE w = Some (block_spec x w)"
proof -
  from assms(3) have ok: "layer_ok (q_mlp w) EMBEDDING_SIZE EMBEDDING_SIZE"
    "layer_ok (k_mlp w) EMBEDDING_SIZE EMBEDDING_SIZE"
    "layer_ok (v_mlp w) EMBEDDING_SIZE EMBEDDING_SIZE"
    "layer_ok (first_block_MLP w) EMBEDDING_SIZE (EMBEDDING_SIZE * 4)"
    "layer_ok (second_block_MLP w) (EMBEDDING_SIZE * 4) EMBEDDING_SIZE"
    by (simp_all add: block_weights_ok_def)
  then have outs: "fcOutputSize (q_mlp w) = EMBEDDING_SIZE" "fcOutputSize (k_mlp w) = EMBEDDING_SIZE"
    "fcOutputSize (v_mlp w) = EMBEDDING_SIZE" "fcOutputSize (second_block_MLP w) = EMBEDDING_SIZE"
    by (simp_all add: layer_ok_def)
  define nx where "nx = map normalize_row x"
  define QKV where "QKV = map (\<lambda>r. (linear_spec (q_mlp w) r, linear_spec (k_mlp w) r, linear_spec (v_mlp w) r)) nx"
  define Q where "Q = map (linear_spec (q_mlp w)) nx"
  define K where "K = map (linear_spec (k_mlp w)) nx"
  define V where "V = map (linear_spec (v_mlp w)) nx"
  define a where "a = attention_rows Q K"
  define x1 where "x1 = map2 (map2 (+)) x a"
  define nx1 where "nx1 = map normalize_row x1"
  define ff where "ff = map (\<lambda>r. linear_spec (second_block_MLP w)
                             (map (\<lambda>v. (1 / 2) * v) (linear_spec (first_block_MLP w) r))) nx1"
  have nx: "length nx = seqLength" "\<forall>r\<in>set nx. length r = EMBEDDING_SIZE"
    using assms(1,2) by (simp_all add: nx_def length_normalize_row)
  have s1: "norm_layer x seqLength EMBEDDING_SIZE = Some nx"
    unfolding nx_def by (rule norm_layer_value[OF assms(1,2)])
  have s2: "project_qkv nx seqLength w = Some QKV"
    unfolding QKV_def by (rule project_qkv_value[OF nx ok(1-3) dvd_EMBEDDING_SIZE(1)])
  have sel: "map fst QKV = Q" "map (fst \<circ> snd) QKV = K" "map (snd \<circ> snd) QKV = V"
    by (simp_all add: QKV_def Q_def K_def V_def)
  have s3: "multi_head_attention Q K V seqLength EMBEDDING_SIZE = Some a"
    unfolding a_def
    by (rule mha_value) (use nx(1) assms(4) in \<open>simp_all add: Q_def K_def V_def length_linear_spec outs\<close>)
  have a: "length a = seqLength" "\<forall>r\<in>set a. length r = EMBEDDING_SIZE"
    using nx(1) assms(4) rows_attention[of K Q]
    by (simp_all add: a_def length_attention_rows Q_def K_def)
  have s4: "matrix_add x a seqLength EMBEDDING_SIZE = Some x1"
    unfolding x1_def by (rule matrix_add_rows[OF assms(1,2) a dvd_EMBEDDING_SIZE(1)])
  have x1: "length x1 = seqLength" "\<forall>r\<in>set x1. length r = EMBEDDING_SIZE"
    unfolding x1_def using rows_add[OF assms(1) a(1) assms(2) a(2)] by simp_all
  have nx1: "length nx1 = seqLength" "\<forall>r\<in>set nx1. length r = EMBEDDING_SIZE"
    using x1 by (simp_all add: nx1_def length_normalize_row)
  have s5: "norm_layer x1 seqLength EMBEDDING_SIZE = Some nx1"
    unfolding nx1_def by (rule norm_layer_value[OF x1])
  have s6: "mlp_rows nx1 seqLength w = Some ff"
    unfolding ff_def by (rule mlp_rows_value[OF nx1 ok(4,5)])
  have ff: "length ff = seqLength" "\<forall>r\<in>set ff. length r = EMBEDDING_SIZE"
    using nx1(1) by (simp_all add: ff_def length_linear_spec outs)
  have s7: "matrix_add x1 ff seqLength EMBEDDING_SIZE = Some (map2 (map2 (+)) x1 ff)"
    by (rule matrix_add_rows[OF x1 ff dvd_EMBEDDING_SIZE(1)])
  have "block_spec x w = map2 (map2 (+)) x1 ff"
    unfolding block_spec_def Let_def ff_def nx1_def x1_def a_def Q_def K_def nx_def ..
  then show ?thesis
    by (simp add: block_def s1 s2 sel s3 s4 s5 s6 s7)
qed

lemma block_spec_shape:
  assumes "length x = seqLength" and "\<forall>r\<in>set x. length r = EMBEDDING_SIZE"
    and "block_weights_ok w" and "HEAD_DIM \<le> seqLength"
  shows "length (block_spec x w) = seqLength" and "\<forall>r\<in>set (block_spec x w). length r = EMBEDDING_SIZE"
proof -
  from assms(3) have outs: "fcOutputSize (q_mlp w) = EMBEDDING_SIZE" "fcOutputSize (k_mlp w) = EMBEDDING_SIZE"
    "fcOutputSize (second_block_MLP w) = EMBEDDING_SIZE"
    by (simp_all add: block_weights_ok_def layer_ok_def)
  let ?nx = "map normalize_row x"
  let ?Q = "map (linear_spec (q_mlp w)) ?nx" and ?K = "map (linear_spec (k_mlp w)) ?nx"
  let ?a = "attention_rows ?Q ?K"
  let ?x1 = "map2 (map2 (+)) x ?a"
  let ?ff = "map (\<lambda>r. linear_spec (second_block_MLP w)
               (map (\<lambda>v. (1 / 2) * v) (linear_spec (first_block_MLP w) r))) (map normalize_row ?x1)"
  have a: "length ?a = seqLength" "\<forall>r\<in>set ?a. length r = EMBEDDING_SIZE"
    using assms(1,4) rows_attention[of ?K ?Q] by (simp_all add: length_attention_rows)
  have x1: "length ?x1 = seqLength" "\<forall>r\<in>set ?x1. length r = EMBEDDING_SIZE"
    using rows_add[OF assms(1) a(1) assms(2) a(2)] by simp_all
  have ff: "length ?ff = seqLength" "\<forall>r\<in>set ?ff. length r = EMBEDDING_SIZE"
    using x1(1) by (simp_all add: length_linear_spec outs)
  have "block_spec x w = map2 (map2 (+)) ?x1 ?ff"
    unfolding block_spec_def Let_def ..
  then show "length (block_spec x w) = seqLength" and "\<forall>r\<in>set (block_spec x w). length r = EMBEDDING_SIZE"
    using rows_add[OF x1(1) ff(1) x1(2) ff(2)] by simp_all
qed

subsection \<open>The block as the pipeline of its seven steps\<close>

lemma project_qkv_fission:
  "project_qkv normalized_x seqLength w \<bind>
     (\<lambda>QKV. F (map fst QKV) (map (fst \<circ> snd) QKV) (map (snd \<circ> snd) QKV)) =
   do {
     Q \<leftarrow> build seqLength (\<lambda>i. do { xi \<leftarrow> rd normalized_x i; apply_layer (q_mlp w) xi });
     K \<leftarrow> build seqLength (\<lambda>i. do { xi \<leftarrow> rd normalized_x i; apply_layer (k_mlp w) xi });
     V \<leftarrow> build seqLength (\<lambda>i. do { xi \<leftarrow> rd normalized_x i; apply_layer (v_mlp w) xi });
     F Q K V
   }"
proof -
  define fq where "fq i = do { xi \<leftarrow> rd normalized_x i; apply_layer (q_mlp w) xi }" for i
  define fk where "fk i = do { xi \<leftarrow> rd normalized_x i; apply_layer (k_mlp w) xi }" for i
  define fv where "fv i = do { xi \<leftarrow> rd normalized_x i; apply_layer (v_mlp w) xi }" for i
  define T where "T i = do {
       xi \<leftarrow> rd normalized_x i;
       Qi \<leftarrow> apply_layer (q_mlp w) xi;
       Ki \<leftarrow> apply_layer (k_mlp w) xi;
       Vi \<leftarrow> apply_layer (v_mlp w) xi;
       Some (Qi, Ki, Vi)
     }" for i
  have T: "T i = do { a \<leftarrow> fq i; b \<leftarrow> fk i; c \<leftarrow> fv i; Some (a, b, c) }" for i
    by (cases "rd normalized_x i") (simp_all add: T_def fq_def fk_def fv_def)
  have P: "project_qkv normalized_x seqLength w = build seqLength T"
    unfolding project_qkv_def T_def ..
  have R: "do {
     Q \<leftarrow> build seqLength (\<lambda>i. do { xi \<leftarrow> rd normalized_x i; apply_layer (q_mlp w) xi });
     K \<leftarrow> build seqLength (\<lambda>i. do { xi \<leftarrow> rd normalized_x i; apply_layer (k_mlp w) xi });
     V \<leftarrow> build seqLength (\<lambda>i. do { xi \<leftarrow> rd normalized_x i; apply_layer (v_mlp w) xi });
     F Q K V
   } = do { Q \<leftarrow> build seqLength fq; K \<leftarrow> build seqLength fk; V \<leftarrow> build seqLength fv; F Q K V }"
    unfolding fq_def fk_def fv_def ..
  have "build seqLength T \<bind> (\<lambda>QKV. F (map fst QKV) (map (fst \<circ> snd) QKV) (map (snd \<circ> snd) QKV))
      = do { Q \<leftarrow> build seqLength fq; K \<leftarrow> build seqLength fk; V \<leftarrow> build seqLength fv; F Q K V }"
  proof (cases "build seqLength fq")
    case None
    then obtain i where "i < seqLength" "fq i = None" by (auto simp: build_None_iff)
    then have "build seqLength T = None" by (intro build_None[of i]) (simp_all add: T)
    with None show ?thesis by simp
  next
    case Q: (Some Q)
    show ?thesis
    proof (cases "build seqLength fk")
      case None
      then obtain i where "i < seqLength" "fk i = None" by (auto simp: build_None_iff)
      then have "build seqLength T = None"
        by (intro build_None[of i]) (simp_all add: T bind_eq_None_conv)
      with Q None show ?thesis by simp
    next
      case K: (Some K)
      show ?thesis
      proof (cases "build seqLength fv")
        case None
        then obtain i where "i < seqLength" "fv i = None" by (auto simp: build_None_iff)
        then have "build seqLength T = None"
          by (intro build_None[of i]) (simp_all add: T bind_eq_None_conv)
        with Q K None show ?thesis by simp
      next
        case V: (Some V)
        from Q K V have len: "length Q = seqLength" "length K = seqLength" "length V = seqLength"
          by (simp_all add: build_length)
        have "build seqLength T = Some (map (\<lambda>i. (Q ! i, K ! i, V ! i)) [0..<seqLength])"
          by (rule build_eq_map) (use Q K V in \<open>simp add: T build_nth\<close>)
        moreover have "map fst (map (\<lambda>i. (Q ! i, K ! i, V ! i)) [0..<seqLength]) = Q"
          "map (fst \<circ> snd) (map (\<lambda>i. (Q ! i, K ! i, V ! i)) [0..<seqLength]) = K"
          "map (snd \<circ> snd) (map (\<lambda>i. (Q ! i, K ! i, V ! i)) [0..<seqLength]) = V"
          using len by (auto simp: list_eq_iff_nth_eq)
        ultimately show ?thesis using Q K V by simp
      qed
    qed
  qed
  then show ?thesis unfolding P R .
qed

lemma block_eq_pipeline:
  "block x seqLength embeddingSize w = block_pipeline x seqLength embeddingSize w"
proof -
  define F where "F Q K V = do {
          a \<leftarrow> multi_head_attention Q K V seqLength embeddingSize;
          x_added \<leftarrow> matrix_add x a seqLength embeddingSize;
          normalized_x_added \<leftarrow> norm_layer x_added seqLength embeddingSize;
          m \<leftarrow> mlp_rows normalized_x_added seqLength w;
          matrix_add x_added m seqLength embeddingSize }" for Q K V
  have "block x seqLength embeddingSize w = do {
      normalized_x \<leftarrow> norm_layer x seqLength embeddingSize;
      project_qkv normalized_x seqLength w \<bind>
        (\<lambda>QKV. F (map fst QKV) (map (fst \<circ> snd) QKV) (map (snd \<circ> snd) QKV)) }"
    by (simp add: block_def F_def)
  also have "\<dots> = do {
      normalized_x \<leftarrow> norm_layer x seqLength embeddingSize;
      Q \<leftarrow> build seqLength (\<lambda>i. do { xi \<leftarrow> rd normalized_x i; apply_layer (q_mlp w) xi });
      K \<leftarrow> build seqLength (\<lambda>i. do { xi \<leftarrow> rd normalized_x i; apply_layer (k_mlp w) xi });
      V \<leftarrow> build seqLength (\<lambda>i. do { xi \<leftarrow> rd normalized_x i; apply_layer (v_mlp w) xi });
      F Q K V }"
    by (simp only: project_qkv_fission)
  also have "\<dots> = block_pipeline x seqLength embeddingSize w"
    by (simp add: block_pipeline_def F_def mlp_rows_def)
  finally show ?thesis .
qed

lemma example_layer_ok: "layer_ok (example_layer inSize outSize) inSize outSize"
  by (simp add: layer_ok_def example_layer_def)

lemma example_block_ok: "block_weights_ok example_block"
  by (simp add: block_weights_ok_def example_block_def example_layer_ok)

lemma example_weights_ok: "weights_ok example_weights"
  by (simp add: weights_ok_def example_weights_def example_layer_ok example_block_ok)

subsection \<open>The model\<close>

lemma blocks_loop_value:
  assumes "m \<le> length bs" and "\<forall>b\<in>set bs. block_weights_ok b"
    and "length h0 = seqLength" and "\<forall>r\<in>set h0. length r = EMBEDDING_SIZE"
    and "HEAD_DIM \<le> seqLength"
  shows "for_loop [0..<m] (\<lambda>i h. do {
           bw \<leftarrow> rd bs i;
           block h seqLength EMBEDDING_SIZE bw
         }) h0 = Some (fold (\<lambda>b h. block_spec h b) (take m bs) h0)
       \<and> length (fold (\<lambda>b h. block_spec h b) (take m bs) h0) = seqLength
       \<and> (\<forall>r\<in>set (fold (\<lambda>b h. block_spec h b) (take m bs) h0). length r = EMBEDDING_SIZE)"
  using assms(1)
proof (induction m)
  case 0
  then show ?case using assms(3,4) by simp
next
  case (Suc m)
  let ?h = "fold (\<lambda>b h. block_spec h b) (take m bs) h0"
  from Suc have m: "m < length bs" by simp
  then have ok: "block_weights_ok (bs ! m)" using assms(2) by simp
  from Suc.IH m have IH: "for_loop [0..<m] (\<lambda>i h. do {
           bw \<leftarrow> rd bs i;
           block h seqLength EMBEDDING_SIZE bw
         }) h0 = Some ?h"
    and sh: "length ?h = seqLength" "\<forall>r\<in>set ?h. length r = EMBEDDING_SIZE"
    by simp_all
  have step: "block ?h seqLength EMBEDDING_SIZE (bs ! m) = Some (block_spec ?h (bs ! m))"
    by (rule block_value[OF sh ok assms(5)])
  have unf: "fold (\<lambda>b h. block_spec h b) (take (Suc m) bs) h0 = block_spec ?h (bs ! m)"
    using m by (simp add: take_Suc_conv_app_nth)
  show ?case
    unfolding unf using IH step m block_spec_shape[OF sh ok assms(5)]
    by (simp add: for_loop_append rd_def)
qed

lemma model_value:
  assumes "length tokens = seqLength" and "\<forall>t\<in>set tokens. 0 \<le> t \<and> t < int VOCAB_SIZE"
    and "HEAD_DIM \<le> seqLength" and "seqLength \<le> MAX_POSITION_EMBEDDINGS"
    and "weights_ok w"
  shows "model tokens seqLength w = Some (model_spec tokens w)"
    and "length (model_spec tokens w) = VOCAB_SIZE"
proof -
  from assms(5) have w: "length (wte w) = VOCAB_SIZE" "\<forall>r\<in>set (wte w). length r = EMBEDDING_SIZE"
    "length (wpe w) = MAX_POSITION_EMBEDDINGS" "\<forall>r\<in>set (wpe w). length r = EMBEDDING_SIZE"
    "length (blocks w) = NUM_BLOCKS" "\<forall>b\<in>set (blocks w). block_weights_ok b"
    "layer_ok (logits_mlp w) EMBEDDING_SIZE VOCAB_SIZE"
    by (simp_all add: weights_ok_def)
  define h0 where "h0 = map (\<lambda>i. map2 (+) (wte w ! nat (tokens ! i)) (wpe w ! i)) [0..<seqLength]"
  define h where "h = fold (\<lambda>b h. block_spec h b) (blocks w) h0"
  have tok: "\<forall>t\<in>set tokens. 0 \<le> t \<and> nat t < length (wte w)"
    using assms(2) w(1) by auto
  have e: "embed_tokens tokens (positions_for tokens seqLength 0) seqLength w = Some h0"
    unfolding h0_def by (rule embed_tokens_value) (use assms(1,4) w tok in simp_all)
  have h0: "length h0 = seqLength" "\<forall>r\<in>set h0. length r = EMBEDDING_SIZE"
  proof -
    show "length h0 = seqLength" by (simp add: h0_def)
    show "\<forall>r\<in>set h0. length r = EMBEDDING_SIZE"
    proof
      fix r assume "r \<in> set h0"
      then obtain i where i: "i < seqLength" and r: "r = map2 (+) (wte w ! nat (tokens ! i)) (wpe w ! i)"
        by (auto simp: h0_def)
      from i assms(1) tok have "nat (tokens ! i) < length (wte w)" by simp
      moreover from i assms(4) w(3) have "i < length (wpe w)" by simp
      ultimately show "length r = EMBEDDING_SIZE" using r w(2,4) by simp
    qed
  qed
  from blocks_loop_value[OF le_refl w(6) h0 assms(3)]
  have loop: "for_loop [0..<NUM_BLOCKS] (\<lambda>i h. do {
           bw \<leftarrow> rd (blocks w) i;
           block h seqLength EMBEDDING_SIZE bw
         }) h0 = Some h"
    and h: "length h = seqLength" "\<forall>r\<in>set h. length r = EMBEDDING_SIZE"
    by (simp_all add: h_def w(5))
  from assms(3) have pos: "0 < seqLength" by (simp add: HEAD_DIM_64)
  then have last: "rd_int h (int seqLength - 1) = Some (h ! (seqLength - 1))"
    using h(1) by (simp add: rd_int_def nat_diff_distrib')
  have "length (h ! (seqLength - 1)) = EMBEDDING_SIZE" using h pos by simp
  then have out: "apply_layer (logits_mlp w) (h ! (seqLength - 1))
      = Some (linear_spec (logits_mlp w) (h ! (seqLength - 1)))"
    by (rule apply_layer_value[OF w(7) _ dvd_EMBEDDING_SIZE(1)])
  have spec: "model_spec tokens w = linear_spec (logits_mlp w) (h ! (seqLength - 1))"
    unfolding model_spec_def Let_def h_def h0_def assms(1) ..
  show "model tokens seqLength w = Some (model_spec tokens w)"
    using last out by (simp add: model_def e loop spec)
  show "length (model_spec tokens w) = VOCAB_SIZE"
    using w(7) by (simp add: spec length_linear_spec layer_ok_def)
qed

subsection \<open>A sequence of one position\<close>

lemma block_reaches_recombination:
  assumes "length x = seqLength" and "\<forall>r\<in>set x. length r = EMBEDDING_SIZE"
    and "block_weights_ok w"
  shows "\<exists>normalized_x QKV heads head_outputs.
           norm_layer x seqLength EMBEDDING_SIZE = Some normalized_x
         \<and> project_qkv normalized_x seqLength w = Some QKV
         \<and> split_heads (map fst QKV) (map (fst \<circ> snd) QKV) (map (snd \<circ> snd) QKV) seqLength = Some heads
         \<and> attention_heads heads seqLength = Some head_outputs"
proof -
  from assms(3) have ok: "layer_ok (q_mlp w) EMBEDDING_SIZE EMBEDDING_SIZE"
    "layer_ok (k_mlp w) EMBEDDING_SIZE EMBEDDING_SIZE"
    "layer_ok (v_mlp w) EMBEDDING_SIZE EMBEDDING_SIZE"
    by (simp_all add: block_weights_ok_def)
  then have outs: "fcOutputSize (q_mlp w) = EMBEDDING_SIZE" "fcOutputSize (k_mlp w) = EMBEDDING_SIZE"
    "fcOutputSize (v_mlp w) = EMBEDDING_SIZE"
    by (simp_all add: layer_ok_def)
  define nx where "nx = map normalize_row x"
  define QKV where "QKV = map (\<lambda>r. (linear_spec (q_mlp w) r, linear_spec (k_mlp w) r, linear_spec (v_mlp w) r)) nx"
  define Q where "Q = map fst QKV"
  define K where "K = map (fst \<circ> snd) QKV"
  define V where "V = map (snd \<circ> snd) QKV"
  define heads where "heads = map (\<lambda>h. map (\<lambda>i. (head_of h (Q ! i), head_of h (K ! i), head_of h (V ! i)))
                   [0..<seqLength]) [0..<NUM_HEADS]"
  have nx: "length nx = seqLength" "\<forall>r\<in>set nx. length r = EMBEDDING_SIZE"
    using assms(1,2) by (simp_all add: nx_def length_normalize_row)
  have s1: "norm_layer x seqLength EMBEDDING_SIZE = Some nx"
    unfolding nx_def by (rule norm_layer_value[OF assms(1,2)])
  have s2: "project_qkv nx seqLength w = Some QKV"
    unfolding QKV_def by (rule project_qkv_value[OF nx ok dvd_EMBEDDING_SIZE(1)])
  have rows: "length Q = seqLength" "length K = seqLength" "length V = seqLength"
    "\<forall>r\<in>set Q. EMBEDDING_SIZE \<le> length r" "\<forall>r\<in>set K. EMBEDDING_SIZE \<le> length r"
    "\<forall>r\<in>set V. EMBEDDING_SIZE \<le> length r"
    using nx(1) by (auto simp: Q_def K_def V_def QKV_def length_linear_spec outs)
  have s3: "split_heads Q K V seqLength = Some heads"
    unfolding heads_def by (rule split_heads_value[OF rows])
  have "attention_heads heads seqLength =
           Some (map (\<lambda>h. map (\<lambda>i. map (\<lambda>j.
                   (1 / sqrt (real HEAD_DIM)) * dot (fst (heads ! h ! i)) (fst (snd (heads ! h ! j))))
                 [0..<seqLength]) [0..<seqLength]) [0..<NUM_HEADS])"
  proof (rule attention_heads_value)
    show "length heads = NUM_HEADS" by (simp add: heads_def)
    show "\<forall>head\<in>set heads. length head = seqLength \<and>
           (\<forall>qkv\<in>set head. length (fst qkv) = HEAD_DIM \<and> length (fst (snd qkv)) = HEAD_DIM)"
      using rows by (auto simp: heads_def length_head_of)
  qed
  with s1 s2 s3 show ?thesis unfolding Q_def K_def V_def by blast
qed

lemma example_embedding:
  "embed_tokens [10] (positions_for [10] 1 0) 1 example_weights = Some [replicate EMBEDDING_SIZE (1 / 50)]"
proof -
  have e: "embed_tokens [10] (positions_for [10] 1 0) 1 example_weights =
      Some (map (\<lambda>i. map2 (+) (wte example_weights ! nat ([10] ! i)) (wpe example_weights ! i)) [0..<1])"
    by (rule embed_tokens_value)
       (simp_all add: example_weights_def MAX_POSITION_EMBEDDINGS_def VOCAB_SIZE_def)
  have t: "wte example_weights ! nat 10 = replicate EMBEDDING_SIZE (1 / 100)"
    by (simp add: example_weights_def VOCAB_SIZE_def)
  have p: "wpe example_weights ! 0 = replicate EMBEDDING_SIZE (1 / 100)"
    by (simp add: example_weights_def MAX_POSITION_EMBEDDINGS_def)
  show ?thesis using e t p by simp
qed

text \<open>
  Claim C8 asks that a forward pass over one token runs through every stage with no
  access out of bounds. On the token 10 and the example weights, the embedding, the
  normalisation, the projections, the split into heads and the attention kernel of the
  first block all return; the rows the kernel returns have one cell, the recombination
  reads \<open>HEAD_DIM\<close> cells of them, and that read is out of bounds: the block and the
  model stop there.
\<close>

theorem single_position_faults:
  "embed_tokens [10] (positions_for [10] 1 0) 1 example_weights = Some [replicate EMBEDDING_SIZE (1 / 50)]
   \<and> (\<exists>normalized_x QKV heads head_outputs.
         norm_layer [replicate EMBEDDING_SIZE (1 / 50)] 1 EMBEDDING_SIZE = Some normalized_x
       \<and> project_qkv normalized_x 1 example_block = Some QKV
       \<and> split_heads (map fst QKV) (map (fst \<circ> snd) QKV) (map (snd \<circ> snd) QKV) 1 = Some heads
       \<and> attention_heads heads 1 = Some head_outputs
       \<and> length (head_outputs ! 0 ! 0) = 1
       \<and> concat_heads head_outputs 1 EMBEDDING_SIZE = None)
   \<and> block [replicate EMBEDDING_SIZE (1 / 50)] 1 EMBEDDING_SIZE example_block = None
   \<and> model [10] 1 example_weights = None"
proof -
  obtain normalized_x QKV heads head_outputs where st:
    "norm_layer [replicate EMBEDDING_SIZE (1 / 50)] 1 EMBEDDING_SIZE = Some normalized_x"
    "project_qkv normalized_x 1 example_block = Some QKV"
    "split_heads (map fst QKV) (map (fst \<circ> snd) QKV) (map (snd \<circ> snd) QKV) 1 = Some heads"
    "attention_heads heads 1 = Some head_outputs"
    using block_reaches_recombination[of "[replicate EMBEDDING_SIZE (1 / 50)]" 1 example_block]
      example_block_ok by auto
  have len: "length (head_outputs ! 0 ! 0) = 1"
    using attention_heads_shape(3)[OF st(4), of 0 0] by (simp add: NUM_HEADS_def)
  then have "concat_heads head_outputs 1 EMBEDDING_SIZE = None"
    by (intro concat_heads_short) (simp_all add: HEAD_DIM_64)
  with st len example_embedding show ?thesis
    using block_short[of 1] model_short[of 1] by (simp add: HEAD_DIM_64)
qed

text \<open>
  Claim C2 asks that the recombined attention output has \<open>seqLength\<close> rows of
  \<open>EMBEDDING_SIZE\<close> columns on every valid input. On one position the heads are split and
  the kernel returns a \<open>1 \<times> 1\<close> score matrix for each head; copying \<open>HEAD_DIM\<close> floats out
  of its only row is out of bounds.
\<close>

theorem mha_one_position_faults:
  "split_heads [replicate EMBEDDING_SIZE 1] [replicate EMBEDDING_SIZE 1] [replicate EMBEDDING_SIZE 1] 1
     = Some (replicate NUM_HEADS [(replicate HEAD_DIM 1, replicate HEAD_DIM 1, replicate HEAD_DIM 1)])
   \<and> attention_heads (replicate NUM_HEADS [(replicate HEAD_DIM 1, replicate HEAD_DIM 1, replicate HEAD_DIM 1)]) 1
     = Some (replicate NUM_HEADS [[8]])
   \<and> concat_heads (replicate NUM_HEADS [[8]]) 1 EMBEDDING_SIZE = None
   \<and> multi_head_attention [replicate EMBEDDING_SIZE 1] [replicate EMBEDDING_SIZE 1]
         [replicate EMBEDDING_SIZE 1] 1 EMBEDDING_SIZE = None"
proof -
  have hd: "head_of h (replicate EMBEDDING_SIZE 1) = replicate HEAD_DIM 1" if "h < NUM_HEADS" for h
  proof -
    from that have "h * HEAD_DIM + HEAD_DIM \<le> EMBEDDING_SIZE"
      using head_fits[of h "replicate EMBEDDING_SIZE (1::real)"] by simp
    then show ?thesis by (simp add: head_of_def min_def)
  qed
  have "split_heads [replicate EMBEDDING_SIZE 1] [replicate EMBEDDING_SIZE 1] [replicate EMBEDDING_SIZE 1] 1
      = Some (map (\<lambda>h. map (\<lambda>i. (head_of h ([replicate EMBEDDING_SIZE 1] ! i),
            head_of h ([replicate EMBEDDING_SIZE 1] ! i), head_of h ([replicate EMBEDDING_SIZE 1] ! i)))
          [0..<1]) [0..<NUM_HEADS])"
    by (rule split_heads_value) simp_all
  also have "map (\<lambda>h. map (\<lambda>i. (head_of h ([replicate EMBEDDING_SIZE 1] ! i),
            head_of h ([replicate EMBEDDING_SIZE 1] ! i), head_of h ([replicate EMBEDDING_SIZE 1] ! i)))
          [0..<1]) [0..<NUM_HEADS]
      = replicate NUM_HEADS [(replicate HEAD_DIM 1, replicate HEAD_DIM 1, replicate HEAD_DIM 1)]"
    by (simp add: list_eq_iff_nth_eq hd)
  finally have s: "split_heads [replicate EMBEDDING_SIZE 1] [replicate EMBEDDING_SIZE 1]
      [replicate EMBEDDING_SIZE 1] 1
      = Some (replicate NUM_HEADS [(replicate HEAD_DIM 1, replicate HEAD_DIM 1, replicate HEAD_DIM 1)])" .
  have a: "attention_heads (replicate NUM_HEADS [(replicate HEAD_DIM 1, replicate HEAD_DIM 1, replicate HEAD_DIM 1)]) 1
      = Some (replicate NUM_HEADS [[8]])"
    using attention_heads_value[of "replicate NUM_HEADS [(replicate HEAD_DIM 1, replicate HEAD_DIM 1, replicate HEAD_DIM 1)]" 1]
    by (simp add: list_eq_iff_nth_eq dot_replicate) (simp add: HEAD_DIM_64)
  have c: "concat_heads (replicate NUM_HEADS [[8]]) 1 EMBEDDING_SIZE = None"
    by (rule concat_heads_short) (simp_all add: HEAD_DIM_64 NUM_HEADS_def)
  show ?thesis using s a c by (simp add: multi_head_attention_def)
qed

text \<open>
  Claim C1 asks that the model returns 50257 logits for every sequence of 1 to 1024
  tokens. On the five tokens of the example that \<^verbatim>\<open>main\<close> keeps in a comment, and on any
  16 tokens, the length \<^verbatim>\<open>main\<close> runs, the first block reads out of bounds, as on every
  sequence of fewer than \<open>HEAD_DIM\<close> tokens (lemma \<open>model_short\<close>). From \<open>HEAD_DIM\<close> tokens
  on, the model returns what the claim says (lemma \<open>model_value\<close>).
\<close>

theorem model_faults_on_short_input:
  "model [10, 20, 30, 40, 50] 5 example_weights = None
   \<and> (\<forall>tokens w. model tokens 16 w = None)"
  using model_short[of 5] model_short[of 16] by (simp add: HEAD_DIM_64)

section \<open>Proofs about the store\<close>

subsection \<open>What stays as it was\<close>

lemma keeps_refl: "L \<le> brk s \<Longrightarrow> keeps L s s"
  by (simp add: keeps_def)

lemma keeps_trans: "keeps L s s1 \<Longrightarrow> keeps L s1 s2 \<Longrightarrow> keeps L s s2"
  by (auto simp: keeps_def)

lemma keeps_brk: "keeps L s s' \<Longrightarrow> L \<le> brk s'"
  by (simp add: keeps_def)

lemma keeps_weaken: "keeps L s s' \<Longrightarrow> L' \<le> L \<Longrightarrow> keeps L' s s'"
  by (auto simp: keeps_def)

lemma malloc_row_keeps:
  assumes "malloc_row v s = (p, s')" and "L \<le> brk s"
  shows "keeps L s s'" and "p = brk s" and "brk s' = Suc (brk s)"
  using assms by (auto simp: malloc_row_def keeps_def)

lemma alloc_rows_keeps:
  assumes "alloc_rows vs s = (ps, s')" and "L \<le> brk s"
  shows "keeps L s s' \<and> (\<forall>p\<in>set ps. brk s \<le> p \<and> p < brk s')"
  using assms
proof (induction vs arbitrary: s ps s')
  case Nil
  then show ?case by (simp add: keeps_refl)
next
  case (Cons v vs)
  obtain p s1 where m: "malloc_row v s = (p, s1)" by (cases "malloc_row v s")
  obtain qs s2 where a: "alloc_rows vs s1 = (qs, s2)" by (cases "alloc_rows vs s1")
  from Cons.prems(1) m a have r: "ps = p # qs" "s' = s2" by simp_all
  note k1 = malloc_row_keeps[OF m Cons.prems(2)]
  from k1 have "L \<le> brk s1" by (simp add: keeps_def)
  from Cons.IH[OF a this] have k2: "keeps L s1 s2" "\<forall>p\<in>set qs. brk s1 \<le> p \<and> p < brk s2" by simp_all
  from k2(1) have "brk s1 \<le> brk s2" by (simp add: keeps_def)
  with k1 k2 r show ?case by (auto intro: keeps_trans)
qed

lemma store_row_keeps:
  "store_row p v s = Some s' \<Longrightarrow> L \<le> p \<Longrightarrow> L \<le> brk s \<Longrightarrow> keeps L s s'"
  by (auto simp: store_row_def keeps_def split: if_splits)

lemma free_row_keeps:
  "free_row p s = Some s' \<Longrightarrow> L \<le> p \<Longrightarrow> L \<le> brk s \<Longrightarrow> keeps L s s'"
  by (auto simp: free_row_def keeps_def split: if_splits)

lemma build_st_partial:
  assumes "build_st n f s = Some (rs, s')" and "I [] s"
    and "\<And>i acc t r t'. i < n \<Longrightarrow> I acc t \<Longrightarrow> f i t = Some (r, t') \<Longrightarrow> I (acc @ [r]) t'"
  shows "I rs s'"
proof -
  have "case_prod I (rs, s')"
    using assms(1)[unfolded build_st_def]
  proof (rule for_loop_preserves)
    show "case_prod I ([], s)" using assms(2) by simp
    fix k t t'
    assume "k \<in> set [0..<n]" "case_prod I t"
      "(case t of (acc, s) \<Rightarrow> do { (r, s) \<leftarrow> f k s; Some (acc @ [r], s) }) = Some t'"
    then show "case_prod I t'"
      using assms(3)[of k] by (auto split: prod.splits bind_splits)
  qed
  then show ?thesis by simp
qed

text \<open>What a step that allocates gives back: the store keeps what it had below \<open>L\<close>, and
  the addresses returned are new.\<close>

lemma build_st_keeps:
  assumes "build_st n f s = Some (rs, s')" and "L \<le> brk s"
    and "\<And>i t r t'. i < n \<Longrightarrow> L \<le> brk t \<Longrightarrow> f i t = Some (r, t') \<Longrightarrow>
           keeps L t t' \<and> (\<forall>p\<in>A r. L \<le> p)"
  shows "keeps L s s' \<and> (\<forall>r\<in>set rs. \<forall>p\<in>A r. L \<le> p)"
  using assms(1)
proof (rule build_st_partial[where I = "\<lambda>acc t. keeps L s t \<and> (\<forall>r\<in>set acc. \<forall>p\<in>A r. L \<le> p)"])
  show "keeps L s s \<and> (\<forall>r\<in>set []. \<forall>p\<in>A r. L \<le> p)" using assms(2) by (simp add: keeps_refl)
  fix i acc t r t'
  assume i: "i < n" and I: "keeps L s t \<and> (\<forall>r\<in>set acc. \<forall>p\<in>A r. L \<le> p)" and f: "f i t = Some (r, t')"
  from I have "L \<le> brk t" by (simp add: keeps_def)
  from assms(3)[OF i this f] I
  show "keeps L s t' \<and> (\<forall>r\<in>set (acc @ [r]). \<forall>p\<in>A r. L \<le> p)"
    by (auto intro: keeps_trans)
qed

lemma rd_mem: "rd xs i = Some v \<Longrightarrow> v \<in> set xs"
  by (auto simp: rd_def split: if_splits)

lemma for_loop_keeps:
  assumes "for_loop js g t = Some t'" and "L \<le> brk t"
    and "\<And>j u u'. j \<in> set js \<Longrightarrow> L \<le> brk u \<Longrightarrow> g j u = Some u' \<Longrightarrow> keeps L u u'"
  shows "keeps L t t'"
  using assms(1) keeps_refl[OF assms(2)]
  by (rule for_loop_preserves[where P = "\<lambda>u. keeps L t u"])
     (blast intro: keeps_trans keeps_brk assms(3))

text \<open>The functions \<^verbatim>\<open>block\<close> calls write to the buffers they allocate, and to no other.\<close>

lemma linear_st_keeps:
  assumes "linear_st p wts bs inSize outSize s = Some (q, s')" and "L \<le> brk s"
  shows "keeps L s s'" and "L \<le> q"
proof -
  obtain a t1 where m: "malloc_row (malloc_floats outSize) s = (a, t1)"
    by (cases "malloc_row (malloc_floats outSize) s")
  note k1 = malloc_row_keeps[OF m assms(2)]
  from k1 assms(2) have a: "L \<le> a" by simp
  from assms(1) m have loop: "for_loop [0..<outSize] (\<lambda>i s. do {
            result \<leftarrow> for_loop (count_by 4 0 inSize) (\<lambda>j result. do {
                input_vals \<leftarrow> mm_loadu_ps (row_of s p) j;
                wrow \<leftarrow> rd wts i;
                weight_vals \<leftarrow> mm_loadu_ps wrow j;
                Some (mm_add_ps result (mm_mul_ps input_vals weight_vals))
              }) mm_setzero_ps;
            b \<leftarrow> rd bs i;
            buf \<leftarrow> wr (row_of s a) i (hsum result + b);
            store_row a buf s
          }) t1 = Some s'" and q: "q = a"
    by (auto simp: linear_st_def bind_eq_Some_conv)
  have "keeps L t1 s'"
    using loop keeps_brk[OF k1(1)]
  proof (rule for_loop_keeps, goal_cases)
    case (1 j u u')
    then show ?case using a by (auto simp: bind_eq_Some_conv intro: store_row_keeps)
  qed
  with k1(1) show "keeps L s s'" by (rule keeps_trans)
  from a q show "L \<le> q" by simp
qed

lemma apply_layer_st_keeps:
  assumes "apply_layer_st l p s = Some (q, s')" and "L \<le> brk s"
  shows "keeps L s s'" and "L \<le> q"
  using assms linear_st_keeps unfolding apply_layer_st_def by blast+

lemma gelu_st_keeps:
  assumes "gelu_st p n s = Some (q, s')" and "L \<le> brk s"
  shows "keeps L s s'" and "L \<le> q"
proof -
  obtain a t1 where m: "malloc_row (malloc_floats n) s = (a, t1)"
    by (cases "malloc_row (malloc_floats n) s")
  note k1 = malloc_row_keeps[OF m assms(2)]
  from k1 assms(2) have a: "L \<le> a" by simp
  from assms(1) m have loop: "for_loop (count_by 4 0 n) (\<lambda>i s. do {
            input_vals \<leftarrow> mm_loadu_ps (row_of s p) i;
            let result = mm_mul_ps input_vals (mm_set1_ps (1 / 2));
            buf \<leftarrow> mm_storeu_ps (row_of s a) i result;
            store_row a buf s
          }) t1 = Some s'" and q: "q = a"
    by (auto simp: gelu_st_def bind_eq_Some_conv)
  have "keeps L t1 s'"
    using loop keeps_brk[OF k1(1)]
  proof (rule for_loop_keeps, goal_cases)
    case (1 j u u')
    then show ?case using a by (auto simp: bind_eq_Some_conv Let_def intro: store_row_keeps)
  qed
  with k1(1) show "keeps L s s'" by (rule keeps_trans)
  from a q show "L \<le> q" by simp
qed

lemma norm_st_keeps:
  assumes "norm_st x n f s = Some (ps, s')" and "L \<le> brk s"
  shows "keeps L s s'" and "\<forall>p\<in>set ps. L \<le> p"
proof -
  have "keeps L s s' \<and> (\<forall>r\<in>set ps. \<forall>p\<in>(\<lambda>q. {q}) r. L \<le> p)"
    using assms(1)[unfolded norm_st_def] assms(2)
  proof (rule build_st_keeps, goal_cases)
    case (1 i t r t')
    obtain a t1 where m: "malloc_row (malloc_floats f) t = (a, t1)"
      by (cases "malloc_row (malloc_floats f) t")
    note k1 = malloc_row_keeps[OF m 1(2)]
    from k1 1(2) have a: "L \<le> a" by simp
    from 1(3) m obtain mean variance where loop: "for_loop [0..<f] (\<lambda>j s. do {
             xi \<leftarrow> rd x i;
             xij \<leftarrow> rd (row_of s xi) j;
             buf \<leftarrow> wr (row_of s a) j ((xij - mean) / sqrt (variance + EPSILON));
             store_row a buf s
           }) t1 = Some t'" and r: "r = a"
      by (auto simp: Let_def bind_eq_Some_conv)
    have "keeps L t1 t'"
      using loop keeps_brk[OF k1(1)]
    proof (rule for_loop_keeps, goal_cases)
      case (1 j u u')
      then show ?case using a by (auto simp: bind_eq_Some_conv intro: store_row_keeps)
    qed
    with k1(1) r a show ?case by (auto intro: keeps_trans)
  qed
  then show "keeps L s s'" and "\<forall>p\<in>set ps. L \<le> p" by auto
qed

lemma matrix_add_st_keeps:
  assumes "matrix_add_st x y n m s = Some (ps, s')" and "L \<le> brk s"
  shows "keeps L s s'" and "\<forall>p\<in>set ps. L \<le> p"
proof -
  have "keeps L s s' \<and> (\<forall>r\<in>set ps. \<forall>p\<in>(\<lambda>q. {q}) r. L \<le> p)"
    using assms(1)[unfolded matrix_add_st_def] assms(2)
  proof (rule build_st_keeps, goal_cases)
    case (1 i t r t')
    obtain a t1 where m: "malloc_row (malloc_floats m) t = (a, t1)"
      by (cases "malloc_row (malloc_floats m) t")
    note k1 = malloc_row_keeps[OF m 1(2)]
    from k1 1(2) have a: "L \<le> a" by simp
    from 1(3) m obtain t2 where loop1: "for_loop (count_by 4 0 m) (\<lambda>j s. do {
             xi \<leftarrow> rd x i;
             vec_x \<leftarrow> mm_loadu_ps (row_of s xi) j;
             yi \<leftarrow> rd y i;
             vec_y \<leftarrow> mm_loadu_ps (row_of s yi) j;
             buf \<leftarrow> mm_storeu_ps (row_of s a) j (mm_add_ps vec_x vec_y);
             store_row a buf s
           }) t1 = Some t2"
      and loop2: "for_loop [m - m mod 4..<m] (\<lambda>j s. do {
             xi \<leftarrow> rd x i;
             xij \<leftarrow> rd (row_of s xi) j;
             yi \<leftarrow> rd y i;
             yij \<leftarrow> rd (row_of s yi) j;
             buf \<leftarrow> wr (row_of s a) j (xij + yij);
             store_row a buf s
           }) t2 = Some t'" and r: "r = a"
      by (auto simp: bind_eq_Some_conv)
    have k2: "keeps L t1 t2"
      using loop1 keeps_brk[OF k1(1)]
    proof (rule for_loop_keeps, goal_cases)
      case (1 j u u')
      then show ?case using a by (auto simp: bind_eq_Some_conv intro: store_row_keeps)
    qed
    have k3: "keeps L t2 t'"
      using loop2 keeps_brk[OF k2]
    proof (rule for_loop_keeps, goal_cases)
      case (1 j u u')
      then show ?case using a by (auto simp: bind_eq_Some_conv intro: store_row_keeps)
    qed
    from k1(1) k2 k3 r a show ?case by (auto intro: keeps_trans)
  qed
  then show "keeps L s s'" and "\<forall>p\<in>set ps. L \<le> p" by auto
qed

lemma sdpa_st_keeps:
  assumes "sdpa_st Q K V n d s = Some (ps, s')" and "L \<le> brk s"
  shows "keeps L s s'" and "\<forall>p\<in>set ps. L \<le> p"
proof -
  obtain out t1 where m: "alloc_rows (replicate n (malloc_floats n)) s = (out, t1)"
    by (cases "alloc_rows (replicate n (malloc_floats n)) s")
  from alloc_rows_keeps[OF m assms(2)] assms(2)
  have k1: "keeps L s t1" and a: "\<forall>p\<in>set out. L \<le> p" by auto
  from assms(1) m have loop: "for_loop (count_by 64 0 n) (\<lambda>bi s.
           for_loop (count_by 64 0 n) (\<lambda>bj s.
             for_loop [bi..<min (bi + 64) n] (\<lambda>i s.
               for_loop [bj..<min (bj + 64) n] (\<lambda>j s. do {
                   sum \<leftarrow> for_loop (count_by 4 0 d) (\<lambda>k_idx sum. do {
                       Qi \<leftarrow> rd Q i;
                       q_vals \<leftarrow> mm_load_ps (row_of s Qi) k_idx;
                       Kj \<leftarrow> rd K j;
                       k_vals \<leftarrow> mm_load_ps (row_of s Kj) k_idx;
                       Some (mm_add_ps sum (mm_mul_ps q_vals k_vals))
                     }) mm_setzero_ps;
                   output_i \<leftarrow> rd out i;
                   buf \<leftarrow> wr (row_of s output_i) j (hsum sum * (1 / sqrt (real d)));
                   store_row output_i buf s
                 }) s) s) s) t1 = Some s'" and r: "ps = out"
    by (auto simp: sdpa_st_def Let_def bind_eq_Some_conv)
  have "keeps L t1 s'"
    using loop keeps_brk[OF k1]
  proof (rule for_loop_keeps, goal_cases)
    case (1 bi u u')
    from 1(3) 1(2) show ?case
    proof (rule for_loop_keeps, goal_cases)
      case (1 bj u u')
      from 1(3) 1(2) show ?case
      proof (rule for_loop_keeps, goal_cases)
        case (1 i u u')
        from 1(3) 1(2) show ?case
        proof (rule for_loop_keeps, goal_cases)
          case (1 j u u')
          then show ?case
            using a by (auto simp: bind_eq_Some_conv intro: store_row_keeps dest: rd_mem)
        qed
      qed
    qed
  qed
  with k1 show "keeps L s s'" by (rule keeps_trans)
  from a r show "\<forall>p\<in>set ps. L \<le> p" by simp
qed

lemma project_qkv_st_keeps:
  assumes "project_qkv_st nx n w s = Some (QKV, s')" and "L \<le> brk s"
  shows "keeps L s s'" and "\<forall>(q, k, v)\<in>set QKV. L \<le> q \<and> L \<le> k \<and> L \<le> v"
proof -
  have "keeps L s s' \<and> (\<forall>r\<in>set QKV. \<forall>p\<in>(\<lambda>(q, k, v). {q, k, v}) r. L \<le> p)"
    using assms(1)[unfolded project_qkv_st_def] assms(2)
  proof (rule build_st_keeps)
    fix i t r t'
    assume "i < n" and L: "L \<le> brk t" and f: "do {
       xi \<leftarrow> rd nx i;
       (Qi, s) \<leftarrow> apply_layer_st (q_mlp w) xi t;
       (Ki, s) \<leftarrow> apply_layer_st (k_mlp w) xi s;
       (Vi, s) \<leftarrow> apply_layer_st (v_mlp w) xi s;
       Some ((Qi, Ki, Vi), s)
     } = Some (r, t')"
    then obtain xi Qi t1 Ki t2 Vi where st:
      "apply_layer_st (q_mlp w) xi t = Some (Qi, t1)"
      "apply_layer_st (k_mlp w) xi t1 = Some (Ki, t2)"
      "apply_layer_st (v_mlp w) xi t2 = Some (Vi, t')" "r = (Qi, Ki, Vi)"
      by (auto split: bind_splits)
    note k1 = apply_layer_st_keeps[OF st(1) L]
    note k2 = apply_layer_st_keeps[OF st(2) keeps_brk[OF k1(1)]]
    note k3 = apply_layer_st_keeps[OF st(3) keeps_brk[OF k2(1)]]
    show "keeps L t t' \<and> (\<forall>p\<in>(\<lambda>(q, k, v). {q, k, v}) r. L \<le> p)"
      using k1 k2 k3 st(4) by (auto intro: keeps_trans)
  qed
  then show "keeps L s s'" and "\<forall>(q, k, v)\<in>set QKV. L \<le> q \<and> L \<le> k \<and> L \<le> v"
    by auto
qed

lemma copy_head_st_keeps:
  "copy_head_st dst src h s = Some s' \<Longrightarrow> L \<le> dst \<Longrightarrow> L \<le> brk s \<Longrightarrow> keeps L s s'"
  by (auto simp: copy_head_st_def split: bind_splits intro: store_row_keeps)

lemma split_heads_st_keeps:
  assumes "split_heads_st Q K V n s = Some (heads, s')" and "L \<le> brk s"
  shows "keeps L s s'" and "\<forall>head\<in>set heads. \<forall>(q, k, v)\<in>set head. L \<le> q \<and> L \<le> k \<and> L \<le> v"
proof -
  have "keeps L s s' \<and> (\<forall>head\<in>set heads. \<forall>p\<in>(\<lambda>head. \<Union>(q, k, v)\<in>set head. {q, k, v}) head. L \<le> p)"
    using assms(1)[unfolded split_heads_st_def] assms(2)
  proof (rule build_st_keeps)
    fix h t head t'
    assume "h < NUM_HEADS" and L: "L \<le> brk t" and b: "build_st n (\<lambda>i s.
       case malloc_row (malloc_floats HEAD_DIM) s of (Qhi, s) \<Rightarrow>
       case malloc_row (malloc_floats HEAD_DIM) s of (Khi, s) \<Rightarrow>
       case malloc_row (malloc_floats HEAD_DIM) s of (Vhi, s) \<Rightarrow> do {
         Qi \<leftarrow> rd Q i;
         s \<leftarrow> copy_head_st Qhi Qi h s;
         Ki \<leftarrow> rd K i;
         s \<leftarrow> copy_head_st Khi Ki h s;
         Vi \<leftarrow> rd V i;
         s \<leftarrow> copy_head_st Vhi Vi h s;
         Some ((Qhi, Khi, Vhi), s)
       }) t = Some (head, t')"
    have "keeps L t t' \<and> (\<forall>r\<in>set head. \<forall>p\<in>(\<lambda>(q, k, v). {q, k, v}) r. L \<le> p)"
      using b L
    proof (rule build_st_keeps)
      fix i u r u'
      assume "i < n" and Lu: "L \<le> brk u" and f: "(case malloc_row (malloc_floats HEAD_DIM) u of (Qhi, s) \<Rightarrow>
       case malloc_row (malloc_floats HEAD_DIM) s of (Khi, s) \<Rightarrow>
       case malloc_row (malloc_floats HEAD_DIM) s of (Vhi, s) \<Rightarrow> do {
         Qi \<leftarrow> rd Q i;
         s \<leftarrow> copy_head_st Qhi Qi h s;
         Ki \<leftarrow> rd K i;
         s \<leftarrow> copy_head_st Khi Ki h s;
         Vi \<leftarrow> rd V i;
         s \<leftarrow> copy_head_st Vhi Vi h s;
         Some ((Qhi, Khi, Vhi), s)
       }) = Some (r, u')"
      obtain Qhi u1 where m1: "malloc_row (malloc_floats HEAD_DIM) u = (Qhi, u1)"
        by (cases "malloc_row (malloc_floats HEAD_DIM) u")
      obtain Khi u2 where m2: "malloc_row (malloc_floats HEAD_DIM) u1 = (Khi, u2)"
        by (cases "malloc_row (malloc_floats HEAD_DIM) u1")
      obtain Vhi u3 where m3: "malloc_row (malloc_floats HEAD_DIM) u2 = (Vhi, u3)"
        by (cases "malloc_row (malloc_floats HEAD_DIM) u2")
      from f m1 m2 m3 obtain Qi Ki Vi u4 u5 where st:
        "copy_head_st Qhi Qi h u3 = Some u4" "copy_head_st Khi Ki h u4 = Some u5"
        "copy_head_st Vhi Vi h u5 = Some u'" "r = (Qhi, Khi, Vhi)"
        by (auto split: bind_splits)
      note k1 = malloc_row_keeps[OF m1 Lu]
      note k2 = malloc_row_keeps[OF m2 keeps_brk[OF k1(1)]]
      note k3 = malloc_row_keeps[OF m3 keeps_brk[OF k2(1)]]
      have a: "L \<le> Qhi" "L \<le> Khi" "L \<le> Vhi" using k1 k2 k3 Lu by simp_all
      note k4 = copy_head_st_keeps[OF st(1) a(1) keeps_brk[OF k3(1)]]
      note k5 = copy_head_st_keeps[OF st(2) a(2) keeps_brk[OF k4]]
      note k6 = copy_head_st_keeps[OF st(3) a(3) keeps_brk[OF k5]]
      have "keeps L u u'"
        by (rule keeps_trans[OF k1(1) keeps_trans[OF k2(1) keeps_trans[OF k3(1) keeps_trans[OF k4 keeps_trans[OF k5 k6]]]]])
      then show "keeps L u u' \<and> (\<forall>p\<in>(\<lambda>(q, k, v). {q, k, v}) r. L \<le> p)"
        using a st(4) by simp
    qed
    then show "keeps L t t' \<and> (\<forall>p\<in>(\<lambda>head. \<Union>(q, k, v)\<in>set head. {q, k, v}) head. L \<le> p)"
      by auto
  qed
  then show "keeps L s s'"
    and "\<forall>head\<in>set heads. \<forall>(q, k, v)\<in>set head. L \<le> q \<and> L \<le> k \<and> L \<le> v"
    by auto
qed

lemma attention_heads_st_keeps:
  assumes "attention_heads_st heads n s = Some (head_outputs, s')" and "L \<le> brk s"
  shows "keeps L s s'" and "\<forall>ho\<in>set head_outputs. \<forall>p\<in>set ho. L \<le> p"
proof -
  have "keeps L s s' \<and> (\<forall>ho\<in>set head_outputs. \<forall>p\<in>set ho. L \<le> p)"
    using assms(1)[unfolded attention_heads_st_def] assms(2)
  proof (rule build_st_keeps)
    fix h t r t'
    assume "h < NUM_HEADS" and L: "L \<le> brk t" and f: "do {
       head \<leftarrow> rd heads h;
       sdpa_st (map fst head) (map (fst \<circ> snd) head) (map (snd \<circ> snd) head) n HEAD_DIM t
     } = Some (r, t')"
    from f obtain head where
      "sdpa_st (map fst head) (map (fst \<circ> snd) head) (map (snd \<circ> snd) head) n HEAD_DIM t = Some (r, t')"
      by (auto split: bind_splits)
    from sdpa_st_keeps[OF this L] show "keeps L t t' \<and> (\<forall>p\<in>set r. L \<le> p)" by simp
  qed
  then show "keeps L s s'" and "\<forall>ho\<in>set head_outputs. \<forall>p\<in>set ho. L \<le> p" by auto
qed

lemma concat_heads_st_keeps:
  assumes "concat_heads_st head_outputs n E s = Some (a, s')" and "L \<le> brk s"
  shows "keeps L s s'" and "\<forall>p\<in>set a. L \<le> p"
proof -
  have "keeps L s s' \<and> (\<forall>r\<in>set a. \<forall>p\<in>(\<lambda>q. {q}) r. L \<le> p)"
    using assms(1)[unfolded concat_heads_st_def] assms(2)
  proof (rule build_st_keeps)
    fix i t r t'
    assume "i < n" and L: "L \<le> brk t" and f: "(case malloc_row (malloc_floats E) t of (a_i, s) \<Rightarrow> do {
         s \<leftarrow> for_loop [0..<NUM_HEADS] (\<lambda>h s. do {
             head_output \<leftarrow> rd head_outputs h;
             src \<leftarrow> rd head_output i;
             buf \<leftarrow> memcpy (row_of s a_i) (h * HEAD_DIM) (row_of s src) 0 HEAD_DIM;
             store_row a_i buf s
           }) s;
         Some (a_i, s)
       }) = Some (r, t')"
    obtain a_i t1 where m: "malloc_row (malloc_floats E) t = (a_i, t1)"
      by (cases "malloc_row (malloc_floats E) t")
    note k1 = malloc_row_keeps[OF m L]
    from k1 L have a: "L \<le> a_i" by simp
    from f m have loop: "for_loop [0..<NUM_HEADS] (\<lambda>h s. do {
             head_output \<leftarrow> rd head_outputs h;
             src \<leftarrow> rd head_output i;
             buf \<leftarrow> memcpy (row_of s a_i) (h * HEAD_DIM) (row_of s src) 0 HEAD_DIM;
             store_row a_i buf s
           }) t1 = Some t'" and r: "r = a_i"
      by (auto split: bind_splits)
    have "keeps L t1 t'"
      using loop keeps_refl[OF keeps_brk[OF k1(1)]]
    proof (rule for_loop_preserves[where P = "\<lambda>u. keeps L t1 u"])
      fix k u u'
      assume "keeps L t1 u" "do {
             head_output \<leftarrow> rd head_outputs k;
             src \<leftarrow> rd head_output i;
             buf \<leftarrow> memcpy (row_of u a_i) (k * HEAD_DIM) (row_of u src) 0 HEAD_DIM;
             store_row a_i buf u
           } = Some u'"
      then show "keeps L t1 u'"
        using a by (auto split: bind_splits intro: keeps_trans store_row_keeps keeps_brk)
    qed
    with k1(1) r a show "keeps L t t' \<and> (\<forall>p\<in>{r}. L \<le> p)"
      by (auto intro: keeps_trans)
  qed
  then show "keeps L s s'" and "\<forall>p\<in>set a. L \<le> p" by auto
qed

lemma mlp_rows_st_keeps:
  assumes "mlp_rows_st nxa n w s = Some (m, s')" and "L \<le> brk s"
  shows "keeps L s s'" and "\<forall>p\<in>set m. L \<le> p"
proof -
  have "keeps L s s' \<and> (\<forall>r\<in>set m. \<forall>p\<in>(\<lambda>q. {q}) r. L \<le> p)"
    using assms(1)[unfolded mlp_rows_st_def] assms(2)
  proof (rule build_st_keeps)
    fix i t r t'
    assume "i < n" and L: "L \<le> brk t" and f: "do {
       xi \<leftarrow> rd nxa i;
       (first_mlp_out, s) \<leftarrow> apply_layer_st (first_block_MLP w) xi t;
       (gelu_out, s) \<leftarrow> gelu_st first_mlp_out (fcOutputSize (first_block_MLP w)) s;
       s \<leftarrow> free_row first_mlp_out s;
       (m_i, s) \<leftarrow> apply_layer_st (second_block_MLP w) gelu_out s;
       s \<leftarrow> free_row gelu_out s;
       Some (m_i, s)
     } = Some (r, t')"
    then obtain xi first_mlp_out t1 gelu_out t2 t3 t4 where st:
      "apply_layer_st (first_block_MLP w) xi t = Some (first_mlp_out, t1)"
      "gelu_st first_mlp_out (fcOutputSize (first_block_MLP w)) t1 = Some (gelu_out, t2)"
      "free_row first_mlp_out t2 = Some t3"
      "apply_layer_st (second_block_MLP w) gelu_out t3 = Some (r, t4)"
      "free_row gelu_out t4 = Some t'"
      by (auto split: bind_splits)
    note k1 = apply_layer_st_keeps[OF st(1) L]
    note k2 = gelu_st_keeps[OF st(2) keeps_brk[OF k1(1)]]
    note k3 = free_row_keeps[OF st(3) k1(2) keeps_brk[OF k2(1)]]
    note k4 = apply_layer_st_keeps[OF st(4) keeps_brk[OF k3]]
    note k5 = free_row_keeps[OF st(5) k2(2) keeps_brk[OF k4(1)]]
    have "keeps L t t'"
      by (rule keeps_trans[OF k1(1) keeps_trans[OF k2(1) keeps_trans[OF k3 keeps_trans[OF k4(1) k5]]]])
    with k4(2) show "keeps L t t' \<and> (\<forall>p\<in>{r}. L \<le> p)" by simp
  qed
  then show "keeps L s s'" and "\<forall>p\<in>set m. L \<le> p" by auto
qed

lemma free_block_rows_keeps:
  assumes "free_block_rows nx QKV nxa m xa n s = Some s'" and "L \<le> brk s"
    and "\<forall>p\<in>set nx. L \<le> p" and "\<forall>(q, k, v)\<in>set QKV. L \<le> q \<and> L \<le> k \<and> L \<le> v"
    and "\<forall>p\<in>set nxa. L \<le> p" and "\<forall>p\<in>set m. L \<le> p" and "\<forall>p\<in>set xa. L \<le> p"
  shows "keeps L s s'"
  using assms(1)[unfolded free_block_rows_def] keeps_refl[OF assms(2)]
proof (rule for_loop_preserves[where P = "\<lambda>u. keeps L s u"])
  fix i t t'
  assume k: "keeps L s t" and f: "do {
       p \<leftarrow> rd nx i;
       s \<leftarrow> free_row p t;
       (Qi, Ki, Vi) \<leftarrow> rd QKV i;
       s \<leftarrow> free_row Qi s;
       s \<leftarrow> free_row Ki s;
       s \<leftarrow> free_row Vi s;
       p \<leftarrow> rd nxa i;
       s \<leftarrow> free_row p s;
       p \<leftarrow> rd m i;
       s \<leftarrow> free_row p s;
       p \<leftarrow> rd xa i;
       free_row p s
     } = Some t'"
  from f obtain p1 t1 Qi Ki Vi t2 t3 t4 p5 t5 p6 t6 p7 where st:
    "rd nx i = Some p1" "free_row p1 t = Some t1"
    "rd QKV i = Some (Qi, Ki, Vi)" "free_row Qi t1 = Some t2" "free_row Ki t2 = Some t3"
    "free_row Vi t3 = Some t4"
    "rd nxa i = Some p5" "free_row p5 t4 = Some t5"
    "rd m i = Some p6" "free_row p6 t5 = Some t6"
    "rd xa i = Some p7" "free_row p7 t6 = Some t'"
    by (auto simp: bind_eq_Some_conv)
  have a: "L \<le> p1" "L \<le> Qi" "L \<le> Ki" "L \<le> Vi" "L \<le> p5" "L \<le> p6" "L \<le> p7"
    using st(1,3,7,9,11) assms(3-7) by (auto dest!: rd_mem)
  note k1 = free_row_keeps[OF st(2) a(1) keeps_brk[OF k]]
  note k2 = free_row_keeps[OF st(4) a(2) keeps_brk[OF k1]]
  note k3 = free_row_keeps[OF st(5) a(3) keeps_brk[OF k2]]
  note k4 = free_row_keeps[OF st(6) a(4) keeps_brk[OF k3]]
  note k5 = free_row_keeps[OF st(8) a(5) keeps_brk[OF k4]]
  note k6 = free_row_keeps[OF st(10) a(6) keeps_brk[OF k5]]
  note k7 = free_row_keeps[OF st(12) a(7) keeps_brk[OF k6]]
  show "keeps L s t'"
    by (rule keeps_trans[OF k keeps_trans[OF k1 keeps_trans[OF k2 keeps_trans[OF k3 keeps_trans[OF k4 keeps_trans[OF k5 keeps_trans[OF k6 k7]]]]]]])
qed

lemma free_head_rows_keeps:
  assumes "free_head_rows heads head_outputs n s = Some s'" and "L \<le> brk s"
    and "\<forall>head\<in>set heads. \<forall>(q, k, v)\<in>set head. L \<le> q \<and> L \<le> k \<and> L \<le> v"
    and "\<forall>ho\<in>set head_outputs. \<forall>p\<in>set ho. L \<le> p"
  shows "keeps L s s'"
  using assms(1)[unfolded free_head_rows_def] keeps_refl[OF assms(2)]
proof (rule for_loop_preserves[where P = "\<lambda>u. keeps L s u"])
  fix h t t'
  assume k: "keeps L s t" and f: "for_loop [0..<n] (\<lambda>i s. do {
         head \<leftarrow> rd heads h;
         (Qhi, Khi, Vhi) \<leftarrow> rd head i;
         s \<leftarrow> free_row Qhi s;
         s \<leftarrow> free_row Khi s;
         s \<leftarrow> free_row Vhi s;
         head_output \<leftarrow> rd head_outputs h;
         p \<leftarrow> rd head_output i;
         free_row p s
       }) t = Some t'"
  show "keeps L s t'"
    using f k
  proof (rule for_loop_preserves[where P = "\<lambda>u. keeps L s u"])
    fix i u u'
    assume ku: "keeps L s u" and g: "do {
         head \<leftarrow> rd heads h;
         (Qhi, Khi, Vhi) \<leftarrow> rd head i;
         s \<leftarrow> free_row Qhi u;
         s \<leftarrow> free_row Khi s;
         s \<leftarrow> free_row Vhi s;
         head_output \<leftarrow> rd head_outputs h;
         p \<leftarrow> rd head_output i;
         free_row p s
       } = Some u'"
    from g obtain head Qhi Khi Vhi u1 u2 u3 ho p where st:
      "rd heads h = Some head" "rd head i = Some (Qhi, Khi, Vhi)"
      "free_row Qhi u = Some u1" "free_row Khi u1 = Some u2" "free_row Vhi u2 = Some u3"
      "rd head_outputs h = Some ho" "rd ho i = Some p" "free_row p u3 = Some u'"
      by (auto simp: bind_eq_Some_conv)
    have "head \<in> set heads" "(Qhi, Khi, Vhi) \<in> set head" "ho \<in> set head_outputs" "p \<in> set ho"
      using st(1,2,6,7) by (auto dest: rd_mem)
    then have a: "L \<le> Qhi" "L \<le> Khi" "L \<le> Vhi" "L \<le> p"
      using assms(3,4) by fastforce+
    note k1 = free_row_keeps[OF st(3) a(1) keeps_brk[OF ku]]
    note k2 = free_row_keeps[OF st(4) a(2) keeps_brk[OF k1]]
    note k3 = free_row_keeps[OF st(5) a(3) keeps_brk[OF k2]]
    note k4 = free_row_keeps[OF st(8) a(4) keeps_brk[OF k3]]
    show "keeps L s u'"
      by (rule keeps_trans[OF ku keeps_trans[OF k1 keeps_trans[OF k2 keeps_trans[OF k3 k4]]]])
  qed
qed

lemma block_st_keeps:
  assumes "block_st x n E w s = Some (output, s')"
  shows "keeps (brk s) s s'"
proof -
  let ?L = "brk s"
  from assms obtain nx s1 QKV s2 heads s3 hos s4 a s5 xa s6 nxa s7 m s8 s9 s10 where st:
    "norm_st x n E s = Some (nx, s1)"
    "project_qkv_st nx n w s1 = Some (QKV, s2)"
    "split_heads_st (map fst QKV) (map (fst \<circ> snd) QKV) (map (snd \<circ> snd) QKV) n s2 = Some (heads, s3)"
    "attention_heads_st heads n s3 = Some (hos, s4)"
    "concat_heads_st hos n E s4 = Some (a, s5)"
    "matrix_add_st x a n E s5 = Some (xa, s6)"
    "norm_st xa n E s6 = Some (nxa, s7)"
    "mlp_rows_st nxa n w s7 = Some (m, s8)"
    "matrix_add_st xa m n E s8 = Some (output, s9)"
    "free_block_rows nx QKV nxa m xa n s9 = Some s10"
    "free_head_rows heads hos n s10 = Some s'"
    unfolding block_st_def by (auto simp: bind_eq_Some_conv)
  note k1 = norm_st_keeps[OF st(1) order_refl]
  note k2 = project_qkv_st_keeps[OF st(2) keeps_brk[OF k1(1)]]
  note k3 = split_heads_st_keeps[OF st(3) keeps_brk[OF k2(1)]]
  note k4 = attention_heads_st_keeps[OF st(4) keeps_brk[OF k3(1)]]
  note k5 = concat_heads_st_keeps[OF st(5) keeps_brk[OF k4(1)]]
  note k6 = matrix_add_st_keeps[OF st(6) keeps_brk[OF k5(1)]]
  note k7 = norm_st_keeps[OF st(7) keeps_brk[OF k6(1)]]
  note k8 = mlp_rows_st_keeps[OF st(8) keeps_brk[OF k7(1)]]
  note k9 = matrix_add_st_keeps[OF st(9) keeps_brk[OF k8(1)]]
  note k10 = free_block_rows_keeps[OF st(10) keeps_brk[OF k9(1)] k1(2) k2(2) k7(2) k8(2) k6(2)]
  note k11 = free_head_rows_keeps[OF st(11) keeps_brk[OF k10] k3(2) k4(2)]
  show ?thesis
    by (rule keeps_trans[OF k1(1) keeps_trans[OF k2(1) keeps_trans[OF k3(1) keeps_trans[OF k4(1) keeps_trans[OF k5(1) keeps_trans[OF k6(1) keeps_trans[OF k7(1) keeps_trans[OF k8(1) keeps_trans[OF k9(1) keeps_trans[OF k10 k11]]]]]]]]]])
qed

subsection \<open>What an allocation adds\<close>

lemma holds_length: "holds s ps rows \<Longrightarrow> length ps = length rows"
  unfolding holds_def by (metis length_map)

lemma holds_nth: "holds s ps rows \<Longrightarrow> i < length ps \<Longrightarrow> cells s (ps ! i) = Some (rows ! i)"
  unfolding holds_def by (metis length_map nth_map)

lemma holds_view: "holds s ps rows \<Longrightarrow> view s ps = rows"
  by (auto simp: list_eq_iff_nth_eq view_def row_of_def holds_length holds_nth)

lemma holds_row_of: "holds s ps rows \<Longrightarrow> i < length ps \<Longrightarrow> row_of s (ps ! i) = rows ! i"
  by (simp add: row_of_def holds_nth)

lemma holds_append:
  "holds s ps rows \<Longrightarrow> holds s qs rows' \<Longrightarrow> holds s (ps @ qs) (rows @ rows')"
  by (simp add: holds_def)

lemma holds_keeps:
  "holds s ps rows \<Longrightarrow> keeps L s s' \<Longrightarrow> \<forall>p\<in>set ps. p < L \<Longrightarrow> holds s' ps rows"
proof -
  assume a: "holds s ps rows" "keeps L s s'" "\<forall>p\<in>set ps. p < L"
  have "map (cells s') ps = map (cells s) ps"
    by (rule map_cong) (use a(2,3) in \<open>auto simp: keeps_def\<close>)
  with a(1) show ?thesis by (simp add: holds_def)
qed

lemma row_of_keeps: "keeps L s s' \<Longrightarrow> p < L \<Longrightarrow> row_of s' p = row_of s p"
  by (simp add: row_of_def keeps_def)

lemma view_keeps: "keeps L s s' \<Longrightarrow> \<forall>p\<in>set ps. p < L \<Longrightarrow> view s' ps = view s ps"
  by (simp add: view_def row_of_keeps)

lemma fresh_rows_Nil: "wf_store s \<Longrightarrow> fresh_rows s [] s []"
  by (simp add: fresh_rows_def keeps_refl holds_def)

lemma fresh_rows_append:
  assumes "fresh_rows s ps t rows" and "fresh_rows t qs t' rows'"
  shows "fresh_rows s (ps @ qs) t' (rows @ rows')"
proof -
  from assms have k: "keeps (brk s) s t" "keeps (brk t) t t'" by (simp_all add: fresh_rows_def)
  then have le: "brk s \<le> brk t" "brk t \<le> brk t'" by (simp_all add: keeps_def)
  have k': "keeps (brk s) s t'"
    by (rule keeps_trans[OF k(1) keeps_weaken[OF k(2) le(1)]])
  have "holds t' ps rows"
    using assms k(2) by (intro holds_keeps[of t ps rows "brk t" t']) (auto simp: fresh_rows_def)
  then have h: "holds t' (ps @ qs) (rows @ rows')"
    using assms(2) by (simp add: holds_append fresh_rows_def)
  have d: "distinct (ps @ qs)" using assms by (fastforce simp: fresh_rows_def)
  have r: "\<forall>p\<in>set (ps @ qs). brk s \<le> p \<and> p < brk t'"
    using assms le by (fastforce simp: fresh_rows_def)
  from k' h d r assms(2) show ?thesis by (simp add: fresh_rows_def)
qed

lemma malloc_row_fresh:
  assumes "wf_store s"
  shows "\<exists>s'. malloc_row v s = (brk s, s') \<and> fresh_rows s [brk s] s' [v]"
proof -
  from assms have "cells s (brk s) = None" by (auto simp: wf_store_def)
  then show ?thesis
    using assms by (auto simp: malloc_row_def fresh_rows_def keeps_def wf_store_def holds_def)
qed

lemma alloc_rows_fresh:
  assumes "wf_store s"
  shows "\<exists>ps s'. alloc_rows vs s = (ps, s') \<and> fresh_rows s ps s' vs"
  using assms
proof (induction vs arbitrary: s)
  case Nil
  then show ?case by (simp add: fresh_rows_Nil)
next
  case (Cons v vs)
  from malloc_row_fresh[OF Cons.prems, of v] obtain s1 where
    m: "malloc_row v s = (brk s, s1)" "fresh_rows s [brk s] s1 [v]" by blast
  then have "wf_store s1" by (simp add: fresh_rows_def)
  from Cons.IH[OF this] obtain ps s2 where
    a: "alloc_rows vs s1 = (ps, s2)" "fresh_rows s1 ps s2 vs" by blast
  from fresh_rows_append[OF m(2) a(2)] m(1) a(1) show ?case by simp
qed

lemma fresh_rows_wf: "fresh_rows s ps s' rows \<Longrightarrow> wf_store s'"
  by (simp add: fresh_rows_def)

lemma fresh_rows_keeps: "fresh_rows s ps s' rows \<Longrightarrow> keeps (brk s) s s'"
  by (simp add: fresh_rows_def)

lemma fresh_rows_holds: "fresh_rows s ps s' rows \<Longrightarrow> holds s' ps rows"
  by (simp add: fresh_rows_def)

lemma fresh_rows_below: "fresh_rows s ps s' rows \<Longrightarrow> \<forall>p\<in>set ps. p < brk s'"
  by (simp add: fresh_rows_def)

subsection \<open>Arrays filled in index order, on the store\<close>

lemma build_st_Suc:
  "build_st (Suc n) f s = do {
     (rs, s1) \<leftarrow> build_st n f s;
     (r, s2) \<leftarrow> f n s1;
     Some (rs @ [r], s2)
   }"
  by (simp add: build_st_def for_loop_append split: option.splits prod.splits)

lemma build_st_0: "build_st 0 f s = Some ([], s)"
  by (simp add: build_st_def)

lemma build_st_total:
  assumes "wf_store s"
    and "\<And>i t. i < n \<Longrightarrow> wf_store t \<Longrightarrow> keeps (brk s) s t \<Longrightarrow>
           \<exists>r t'. f i t = Some (r, t') \<and> fresh_rows t (A r) t' (B i)"
  shows "\<exists>rs s'. build_st n f s = Some (rs, s') \<and> length rs = n \<and>
           fresh_rows s (concat (map A rs)) s' (concat (map B [0..<n])) \<and>
           (\<forall>i<n. holds s' (A (rs ! i)) (B i))"
  using assms(2)
proof (induction n)
  case 0
  then show ?case using assms(1) by (simp add: build_st_0 fresh_rows_Nil)
next
  case (Suc n)
  from Suc.IH Suc.prems obtain rs s1 where b: "build_st n f s = Some (rs, s1)" "length rs = n"
    "fresh_rows s (concat (map A rs)) s1 (concat (map B [0..<n]))"
    "\<forall>i<n. holds s1 (A (rs ! i)) (B i)"
    by (metis less_Suc_eq)
  from Suc.prems[of n s1] b(3) obtain r s2 where
    f: "f n s1 = Some (r, s2)" "fresh_rows s1 (A r) s2 (B n)"
    by (auto simp: fresh_rows_def)
  have fr: "fresh_rows s (concat (map A (rs @ [r]))) s2 (concat (map B [0..<Suc n]))"
    using fresh_rows_append[OF b(3) f(2)] by simp
  have "holds s2 (A ((rs @ [r]) ! i)) (B i)" if "i < Suc n" for i
  proof (cases "i < n")
    case True
    have "\<forall>p\<in>set (A (rs ! i)). p < brk s1"
      using b(2,3) True by (auto simp: fresh_rows_def)
    with b(4) True f(2) have "holds s2 (A (rs ! i)) (B i)"
      by (auto intro: holds_keeps simp: fresh_rows_def)
    with True b(2) show ?thesis by (simp add: nth_append)
  next
    case False
    with that have "i = n" by simp
    with f(2) b(2) show ?thesis by (simp add: fresh_rows_def nth_append)
  qed
  with b(1,2) f(1) fr show ?case by (simp add: build_st_Suc)
qed

subsection \<open>A loop on the store and the same loop on values\<close>

text \<open>When the store is a function \<open>\<phi>\<close> of the values a loop updates, the loop on the store
  follows the loop on the values. \<open>I\<close> is what the loop keeps true of the values.\<close>

lemma for_loop_sim:
  assumes "I a0"
    and "\<And>j a. j \<in> set js \<Longrightarrow> I a \<Longrightarrow>
           g j (\<phi> a) = map_option \<phi> (f j a) \<and> (\<forall>a'. f j a = Some a' \<longrightarrow> I a')"
  shows "for_loop js g (\<phi> a0) = map_option \<phi> (for_loop js f a0) \<and>
         (\<forall>a'. for_loop js f a0 = Some a' \<longrightarrow> I a')"
  using assms
proof (induction js arbitrary: a0)
  case Nil
  then show ?case by simp
next
  case (Cons j js)
  from Cons.prems(2)[of j a0] Cons.prems(1)
  have st: "g j (\<phi> a0) = map_option \<phi> (f j a0)" "\<forall>a'. f j a0 = Some a' \<longrightarrow> I a'" by simp_all
  show ?case
  proof (cases "f j a0")
    case None
    with st show ?thesis by simp
  next
    case (Some a1)
    with st have "I a1" by simp
    have rest: "g j' (\<phi> a) = map_option \<phi> (f j' a) \<and> (\<forall>a'. f j' a = Some a' \<longrightarrow> I a')"
      if "j' \<in> set js" "I a" for j' a
      using Cons.prems(2)[of j' a] that by simp
    from Cons.IH[OF \<open>I a1\<close> rest] have
      "for_loop js g (\<phi> a1) = map_option \<phi> (for_loop js f a1) \<and>
       (\<forall>a'. for_loop js f a1 = Some a' \<longrightarrow> I a')" .
    with st Some show ?thesis by simp
  qed
qed

lemma for_loop_sim_eq:
  assumes "\<And>j a. j \<in> set js \<Longrightarrow> g j (\<phi> a) = map_option \<phi> (f j a)"
  shows "for_loop js g (\<phi> a0) = map_option \<phi> (for_loop js f a0)"
  using for_loop_sim[of "\<lambda>_. True" a0 js g \<phi> f] assms by simp

text \<open>A buffer just allocated, as a function of its contents.\<close>

lemma malloc_row_fst: "fst (malloc_row v s) = brk s"
  by (simp add: malloc_row_def)

lemma malloc_row_pair: "malloc_row v s = (brk s, snd (malloc_row v s))"
  by (simp add: malloc_row_def)

lemma row_of_malloc_new: "row_of (snd (malloc_row v s)) (brk s) = v"
  by (simp add: malloc_row_def row_of_def)

lemma row_of_malloc_other: "p < brk s \<Longrightarrow> row_of (snd (malloc_row v s)) p = row_of s p"
  by (simp add: malloc_row_def row_of_def)

lemma store_row_malloc: "store_row (brk s) v' (snd (malloc_row v s)) = Some (snd (malloc_row v' s))"
  by (simp add: malloc_row_def store_row_def)

text \<open>Filling a buffer cell by cell, in index order, gives the array of the values.\<close>

lemma collect_snoc:
  "collect (rs @ [r]) =
     (case collect rs of None \<Rightarrow> None
      | Some vs \<Rightarrow> (case r of None \<Rightarrow> None | Some v \<Rightarrow> Some (vs @ [v])))"
proof (induction rs)
  case Nil
  then show ?case by (cases r) simp_all
next
  case (Cons a rs)
  then show ?case by (cases a) (simp_all split: option.splits)
qed

lemma build_Suc:
  "build (Suc n) f =
     (case build n f of None \<Rightarrow> None
      | Some vs \<Rightarrow> (case f n of None \<Rightarrow> None | Some v \<Rightarrow> Some (vs @ [v])))"
  by (simp add: build_def collect_snoc)

lemma wr_loop_prefix:
  "k \<le> n \<Longrightarrow>
   for_loop [0..<k] (\<lambda>i buf. f i \<bind> wr buf i) (replicate n z) =
     map_option (\<lambda>vs. vs @ replicate (n - k) z) (build k f)"
proof (induction k)
  case 0
  then show ?case by (simp add: build_def)
next
  case (Suc k)
  then have IH: "for_loop [0..<k] (\<lambda>i buf. f i \<bind> wr buf i) (replicate n z) =
     map_option (\<lambda>vs. vs @ replicate (n - k) z) (build k f)" by simp
  have step: "for_loop ([0..<k] @ [k]) (\<lambda>i buf. f i \<bind> wr buf i) (replicate n z) =
      (case for_loop [0..<k] (\<lambda>i buf. f i \<bind> wr buf i) (replicate n z) of None \<Rightarrow> None
       | Some b \<Rightarrow> f k \<bind> wr b k)"
    by (simp add: for_loop_append split: option.splits)
  show ?case
  proof (cases "build k f")
    case None
    with IH show ?thesis by (simp add: step build_Suc)
  next
    case (Some vs)
    then have l: "length vs = k" by (rule build_length)
    from Suc.prems have r: "replicate (n - k) z = z # replicate (n - Suc k) z"
      by (cases "n - k") (simp_all add: Suc_diff_Suc)
    show ?thesis
    proof (cases "f k")
      case None
      with IH Some show ?thesis by (simp add: step build_Suc)
    next
      case (Some v)
      have "for_loop ([0..<k] @ [k]) (\<lambda>i buf. f i \<bind> wr buf i) (replicate n z)
          = wr (vs @ replicate (n - k) z) k v"
        using IH \<open>build k f = Some vs\<close> Some by (simp add: step)
      also have "\<dots> = Some (vs @ v # replicate (n - Suc k) z)"
        using l by (simp add: wr_def r list_update_append)
      finally show ?thesis
        using \<open>build k f = Some vs\<close> Some by (simp add: build_Suc)
    qed
  qed
qed

lemma wr_loop_build:
  "for_loop [0..<n] (\<lambda>i buf. f i \<bind> wr buf i) (replicate n z) = build n f"
  using wr_loop_prefix[of n n f z] by (cases "build n f") simp_all

text \<open>Rows allocated one after the other.\<close>

lemma alloc_rows_snoc:
  "alloc_rows (vs @ [v]) s =
     (case alloc_rows vs s of (ps, t) \<Rightarrow> case malloc_row v t of (p, t') \<Rightarrow> (ps @ [p], t'))"
  by (induction vs arbitrary: s) (simp_all split: prod.splits)

lemma alloc_rows_keeps_brk: "keeps (brk s) s (snd (alloc_rows vs s))"
  using alloc_rows_keeps[of vs s "fst (alloc_rows vs s)" "snd (alloc_rows vs s)" "brk s"]
  by simp

lemma build_st_alloc:
  assumes "\<And>i t. i < n \<Longrightarrow> keeps (brk s) s t \<Longrightarrow> f i t = F i \<bind> (\<lambda>v. Some (malloc_row v t))"
  shows "build_st n f s = build n F \<bind> (\<lambda>vs. Some (alloc_rows vs s))"
  using assms
proof (induction n)
  case 0
  then show ?case by (simp add: build_st_0 build_def)
next
  case (Suc n)
  then have IH: "build_st n f s = build n F \<bind> (\<lambda>vs. Some (alloc_rows vs s))" by simp
  show ?case
  proof (cases "build n F")
    case None
    with IH show ?thesis by (simp add: build_st_Suc build_Suc)
  next
    case (Some vs)
    obtain ps t where a: "alloc_rows vs s = (ps, t)" by (cases "alloc_rows vs s")
    then have "keeps (brk s) s t" using alloc_rows_keeps_brk[of s vs] by simp
    from Suc.prems[OF _ this, of n] have st: "f n t = F n \<bind> (\<lambda>v. Some (malloc_row v t))" by simp
    show ?thesis
      using IH Some a st
      by (cases "F n") (simp_all add: build_st_Suc build_Suc alloc_rows_snoc split: prod.splits)
  qed
qed

lemma alloc_rows_eq:
  "alloc_rows vs s =
     ([brk s..<brk s + length vs],
      s\<lparr>cells := (\<lambda>p. if brk s \<le> p \<and> p < brk s + length vs then Some (vs ! (p - brk s))
                     else cells s p),
        brk := brk s + length vs\<rparr>)"
proof (induction vs arbitrary: s)
  case Nil
  have "(\<lambda>p. if brk s \<le> p \<and> p < brk s then Some ([] ! (p - brk s)) else cells s p) = cells s"
    by (auto simp: fun_eq_iff)
  then show ?case by simp
next
  case (Cons v vs)
  have u: "[brk s..<Suc (brk s + length vs)] = brk s # [Suc (brk s)..<Suc (brk s + length vs)]"
    by (simp add: upt_conv_Cons del: upt_Suc)
  show ?case
    by (auto simp: Cons.IH malloc_row_def u fun_eq_iff nth_Cons' simp del: upt_Suc)
qed

subsection \<open>The functions the block calls: what they return\<close>

text \<open>Given arguments that were allocated before the call, each function of the store
  returns what the function on values computes from the contents of its arguments, in
  buffers it allocated.\<close>

lemma gelu_st_value:
  assumes "x < brk s"
  shows "gelu_st x n s = gelu (row_of s x) n \<bind> (\<lambda>output. Some (malloc_row output s))"
proof -
  have body: "(do {
        input_vals \<leftarrow> mm_loadu_ps (row_of (snd (malloc_row buf s)) x) i;
        let result = mm_mul_ps input_vals (mm_set1_ps (1 / 2));
        buf' \<leftarrow> mm_storeu_ps (row_of (snd (malloc_row buf s)) (brk s)) i result;
        store_row (brk s) buf' (snd (malloc_row buf s))
      }) = map_option (\<lambda>buf. snd (malloc_row buf s)) (do {
        input_vals \<leftarrow> mm_loadu_ps (row_of s x) i;
        let result = mm_mul_ps input_vals (mm_set1_ps (1 / 2));
        mm_storeu_ps buf i result
      })" for i buf
  proof (cases "mm_loadu_ps (row_of s x) i")
    case None
    then show ?thesis using assms by (simp add: row_of_malloc_other)
  next
    case (Some v)
    then show ?thesis
      using assms
      by (cases "mm_storeu_ps buf i (mm_mul_ps v (mm_set1_ps (1 / 2)))")
         (simp_all add: row_of_malloc_other row_of_malloc_new store_row_malloc)
  qed
  have loop: "for_loop (count_by 4 0 n) (\<lambda>i u. do {
        input_vals \<leftarrow> mm_loadu_ps (row_of u x) i;
        let result = mm_mul_ps input_vals (mm_set1_ps (1 / 2));
        buf' \<leftarrow> mm_storeu_ps (row_of u (brk s)) i result;
        store_row (brk s) buf' u
      }) (snd (malloc_row (malloc_floats n) s))
      = map_option (\<lambda>buf. snd (malloc_row buf s)) (gelu (row_of s x) n)"
    unfolding gelu_def by (rule for_loop_sim_eq) (rule body)
  show ?thesis
    by (cases "gelu (row_of s x) n")
       (simp_all add: gelu_st_def case_prod_beta malloc_row_fst loop[unfolded Let_def]
          malloc_row_pair[symmetric])
qed

lemma linear_st_value:
  assumes "fcInput < brk s"
  shows "linear_st fcInput wts bs inSize outSize s =
           linear_layer (row_of s fcInput) wts bs inSize outSize \<bind>
             (\<lambda>output. Some (malloc_row output s))"
proof -
  define F where "F i = do {
       result \<leftarrow> for_loop (count_by 4 0 inSize) (\<lambda>j result. do {
           input_vals \<leftarrow> mm_loadu_ps (row_of s fcInput) j;
           wrow \<leftarrow> rd wts i;
           weight_vals \<leftarrow> mm_loadu_ps wrow j;
           Some (mm_add_ps result (mm_mul_ps input_vals weight_vals))
         }) mm_setzero_ps;
       b \<leftarrow> rd bs i;
       Some (hsum result + b)
     }" for i
  have body: "(do {
        result \<leftarrow> for_loop (count_by 4 0 inSize) (\<lambda>j result. do {
            input_vals \<leftarrow> mm_loadu_ps (row_of (snd (malloc_row buf s)) fcInput) j;
            wrow \<leftarrow> rd wts i;
            weight_vals \<leftarrow> mm_loadu_ps wrow j;
            Some (mm_add_ps result (mm_mul_ps input_vals weight_vals))
          }) mm_setzero_ps;
        b \<leftarrow> rd bs i;
        buf' \<leftarrow> wr (row_of (snd (malloc_row buf s)) (brk s)) i (hsum result + b);
        store_row (brk s) buf' (snd (malloc_row buf s))
      }) = map_option (\<lambda>buf. snd (malloc_row buf s)) (F i \<bind> wr buf i)" for i buf
  proof (cases "F i")
    case None
    then show ?thesis
      using assms by (auto simp: F_def row_of_malloc_other bind_eq_None_conv)
  next
    case (Some v)
    then show ?thesis
      using assms
      by (cases "wr buf i v")
         (auto simp: F_def row_of_malloc_other row_of_malloc_new store_row_malloc
            bind_eq_Some_conv)
  qed
  have "for_loop [0..<outSize] (\<lambda>i u. do {
        result \<leftarrow> for_loop (count_by 4 0 inSize) (\<lambda>j result. do {
            input_vals \<leftarrow> mm_loadu_ps (row_of u fcInput) j;
            wrow \<leftarrow> rd wts i;
            weight_vals \<leftarrow> mm_loadu_ps wrow j;
            Some (mm_add_ps result (mm_mul_ps input_vals weight_vals))
          }) mm_setzero_ps;
        b \<leftarrow> rd bs i;
        buf' \<leftarrow> wr (row_of u (brk s)) i (hsum result + b);
        store_row (brk s) buf' u
      }) (snd (malloc_row (malloc_floats outSize) s))
      = map_option (\<lambda>buf. snd (malloc_row buf s))
          (for_loop [0..<outSize] (\<lambda>i buf. F i \<bind> wr buf i) (malloc_floats outSize))"
    by (rule for_loop_sim_eq) (rule body)
  also have "for_loop [0..<outSize] (\<lambda>i buf. F i \<bind> wr buf i) (malloc_floats outSize)
      = build outSize F"
    unfolding malloc_floats_def by (rule wr_loop_build)
  also have "build outSize F = linear_layer (row_of s fcInput) wts bs inSize outSize"
    unfolding linear_layer_def by (rule arg_cong[where f = "build outSize"]) (simp add: fun_eq_iff F_def)
  finally have loop: "for_loop [0..<outSize] (\<lambda>i u. do {
        result \<leftarrow> for_loop (count_by 4 0 inSize) (\<lambda>j result. do {
            input_vals \<leftarrow> mm_loadu_ps (row_of u fcInput) j;
            wrow \<leftarrow> rd wts i;
            weight_vals \<leftarrow> mm_loadu_ps wrow j;
            Some (mm_add_ps result (mm_mul_ps input_vals weight_vals))
          }) mm_setzero_ps;
        b \<leftarrow> rd bs i;
        buf' \<leftarrow> wr (row_of u (brk s)) i (hsum result + b);
        store_row (brk s) buf' u
      }) (snd (malloc_row (malloc_floats outSize) s))
      = map_option (\<lambda>buf. snd (malloc_row buf s))
          (linear_layer (row_of s fcInput) wts bs inSize outSize)" .
  show ?thesis
    by (cases "linear_layer (row_of s fcInput) wts bs inSize outSize")
       (simp_all add: linear_st_def case_prod_beta malloc_row_fst loop
          malloc_row_pair[symmetric])
qed

lemma apply_layer_st_value:
  "p < brk s \<Longrightarrow>
   apply_layer_st l p s = apply_layer l (row_of s p) \<bind> (\<lambda>output. Some (malloc_row output s))"
  by (simp add: apply_layer_st_def apply_layer_def linear_st_value)

lemma map_option_bind_in: "map_option \<phi> (m \<bind> g) = m \<bind> (\<lambda>x. map_option \<phi> (g x))"
  by (cases m) simp_all

lemma bind_Some_map: "m \<bind> (\<lambda>b. Some (\<phi> b)) = map_option \<phi> m"
  by (cases m) simp_all

lemma map_option_then: "map_option \<phi> m \<bind> g = m \<bind> (\<lambda>x. g (\<phi> x))"
  by (cases m) simp_all

text \<open>A row of an argument, read while the function fills a buffer of its own.\<close>

lemma row_of_arg:
  assumes "\<forall>p\<in>set x. p < brk s" and "keeps (brk s) s t" and "i < length x"
  shows "row_of (snd (malloc_row buf t)) (x ! i) = row_of s (x ! i)"
proof -
  from assms(1,3) have b: "x ! i < brk s" by simp
  moreover from assms(2) have "brk s \<le> brk t" by (simp add: keeps_def)
  ultimately have "row_of (snd (malloc_row buf t)) (x ! i) = row_of t (x ! i)"
    by (simp add: row_of_malloc_other)
  with row_of_keeps[OF assms(2) b] show ?thesis by simp
qed

lemma matrix_add_st_value:
  assumes "\<forall>p\<in>set x. p < brk s" and "\<forall>p\<in>set y. p < brk s"
  shows "matrix_add_st x y n m s =
           matrix_add (view s x) (view s y) n m \<bind> (\<lambda>result. Some (alloc_rows result s))"
  unfolding matrix_add_st_def matrix_add_def
proof (rule build_st_alloc)
  fix i t assume "i < n" and k: "keeps (brk s) s t"
  note rx = row_of_arg[OF assms(1) k] and ry = row_of_arg[OF assms(2) k]
  have body1: "(do {
             xi \<leftarrow> rd x i;
             vec_x \<leftarrow> mm_loadu_ps (row_of (snd (malloc_row buf t)) xi) j;
             yi \<leftarrow> rd y i;
             vec_y \<leftarrow> mm_loadu_ps (row_of (snd (malloc_row buf t)) yi) j;
             buf' \<leftarrow> mm_storeu_ps (row_of (snd (malloc_row buf t)) (brk t)) j (mm_add_ps vec_x vec_y);
             store_row (brk t) buf' (snd (malloc_row buf t))
           }) = map_option (\<lambda>buf. snd (malloc_row buf t)) (do {
             xi \<leftarrow> rd (view s x) i;
             vec_x \<leftarrow> mm_loadu_ps xi j;
             yi \<leftarrow> rd (view s y) i;
             vec_y \<leftarrow> mm_loadu_ps yi j;
             mm_storeu_ps buf j (mm_add_ps vec_x vec_y)
           })" for j buf
    by (cases "i < length x"; cases "i < length y")
       (simp_all add: rd_def view_def rx ry row_of_malloc_new store_row_malloc
          map_option_bind_in bind_Some_map)
  have body2: "(do {
             xi \<leftarrow> rd x i;
             xij \<leftarrow> rd (row_of (snd (malloc_row buf t)) xi) j;
             yi \<leftarrow> rd y i;
             yij \<leftarrow> rd (row_of (snd (malloc_row buf t)) yi) j;
             buf' \<leftarrow> wr (row_of (snd (malloc_row buf t)) (brk t)) j (xij + yij);
             store_row (brk t) buf' (snd (malloc_row buf t))
           }) = map_option (\<lambda>buf. snd (malloc_row buf t)) (do {
             xi \<leftarrow> rd (view s x) i;
             xij \<leftarrow> rd xi j;
             yi \<leftarrow> rd (view s y) i;
             yij \<leftarrow> rd yi j;
             wr buf j (xij + yij)
           })" for j buf
    by (cases "i < length x"; cases "i < length y")
       (simp_all add: view_def rx ry row_of_malloc_new store_row_malloc
          map_option_bind_in bind_Some_map rd_def[of x] rd_def[of y] rd_def[of "map (row_of s) x"]
          rd_def[of "map (row_of s) y"])
  have loop1: "for_loop (count_by 4 0 m) (\<lambda>j u. do {
             xi \<leftarrow> rd x i;
             vec_x \<leftarrow> mm_loadu_ps (row_of u xi) j;
             yi \<leftarrow> rd y i;
             vec_y \<leftarrow> mm_loadu_ps (row_of u yi) j;
             buf' \<leftarrow> mm_storeu_ps (row_of u (brk t)) j (mm_add_ps vec_x vec_y);
             store_row (brk t) buf' u
           }) (snd (malloc_row b0 t))
      = map_option (\<lambda>buf. snd (malloc_row buf t)) (for_loop (count_by 4 0 m) (\<lambda>j result_i. do {
             xi \<leftarrow> rd (view s x) i;
             vec_x \<leftarrow> mm_loadu_ps xi j;
             yi \<leftarrow> rd (view s y) i;
             vec_y \<leftarrow> mm_loadu_ps yi j;
             mm_storeu_ps result_i j (mm_add_ps vec_x vec_y)
           }) b0)" for b0
    by (rule for_loop_sim_eq) (rule body1)
  have loop2: "for_loop [m - m mod 4..<m] (\<lambda>j u. do {
             xi \<leftarrow> rd x i;
             xij \<leftarrow> rd (row_of u xi) j;
             yi \<leftarrow> rd y i;
             yij \<leftarrow> rd (row_of u yi) j;
             buf' \<leftarrow> wr (row_of u (brk t)) j (xij + yij);
             store_row (brk t) buf' u
           }) (snd (malloc_row b0 t))
      = map_option (\<lambda>buf. snd (malloc_row buf t)) (for_loop [m - m mod 4..<m] (\<lambda>j result_i. do {
             xi \<leftarrow> rd (view s x) i;
             xij \<leftarrow> rd xi j;
             yi \<leftarrow> rd (view s y) i;
             yij \<leftarrow> rd yi j;
             wr result_i j (xij + yij)
           }) b0)" for b0
    by (rule for_loop_sim_eq) (rule body2)
  show "(case malloc_row (malloc_floats m) t of (result_i, s) \<Rightarrow> do {
         s \<leftarrow> for_loop (count_by 4 0 m) (\<lambda>j s. do {
             xi \<leftarrow> rd x i;
             vec_x \<leftarrow> mm_loadu_ps (row_of s xi) j;
             yi \<leftarrow> rd y i;
             vec_y \<leftarrow> mm_loadu_ps (row_of s yi) j;
             buf \<leftarrow> mm_storeu_ps (row_of s result_i) j (mm_add_ps vec_x vec_y);
             store_row result_i buf s
           }) s;
         s \<leftarrow> for_loop [m - m mod 4..<m] (\<lambda>j s. do {
             xi \<leftarrow> rd x i;
             xij \<leftarrow> rd (row_of s xi) j;
             yi \<leftarrow> rd y i;
             yij \<leftarrow> rd (row_of s yi) j;
             buf \<leftarrow> wr (row_of s result_i) j (xij + yij);
             store_row result_i buf s
           }) s;
         Some (result_i, s)
       }) = (do {
       result_i \<leftarrow> for_loop (count_by 4 0 m) (\<lambda>j result_i. do {
           xi \<leftarrow> rd (view s x) i;
           vec_x \<leftarrow> mm_loadu_ps xi j;
           yi \<leftarrow> rd (view s y) i;
           vec_y \<leftarrow> mm_loadu_ps yi j;
           mm_storeu_ps result_i j (mm_add_ps vec_x vec_y)
         }) (malloc_floats m);
       for_loop [m - m mod 4..<m] (\<lambda>j result_i. do {
           xi \<leftarrow> rd (view s x) i;
           xij \<leftarrow> rd xi j;
           yi \<leftarrow> rd (view s y) i;
           yij \<leftarrow> rd yi j;
           wr result_i j (xij + yij)
         }) result_i
     }) \<bind> (\<lambda>v. Some (malloc_row v t))"
    by (simp add: case_prod_beta malloc_row_fst loop1 loop2 map_option_then
        malloc_row_pair[symmetric])
qed

lemma norm_st_value:
  assumes "\<forall>p\<in>set x. p < brk s"
  shows "norm_st x n f s =
           norm_layer (view s x) n f \<bind> (\<lambda>normalized. Some (alloc_rows normalized s))"
  unfolding norm_st_def norm_layer_def
proof (rule build_st_alloc)
  fix i t assume "i < n" and k: "keeps (brk s) s t"
  note rx = row_of_arg[OF assms(1) k]
  have mean_eq: "for_loop [0..<f] (\<lambda>j mean. do {
             xi \<leftarrow> rd x i;
             xij \<leftarrow> rd (row_of (snd (malloc_row buf t)) xi) j;
             Some (mean + xij)
           }) 0 = for_loop [0..<f] (\<lambda>j mean. do {
             xi \<leftarrow> rd (view s x) i;
             xij \<leftarrow> rd xi j;
             Some (mean + xij)
           }) 0" for buf
    by (rule for_loop_cong, cases "i < length x")
       (simp_all add: view_def rx rd_def[of x] rd_def[of "map (row_of s) x"])
  have var_eq: "for_loop [0..<f] (\<lambda>j variance. do {
             xi \<leftarrow> rd x i;
             xij \<leftarrow> rd (row_of (snd (malloc_row buf t)) xi) j;
             Some (variance + (xij - mean) * (xij - mean))
           }) 0 = for_loop [0..<f] (\<lambda>j variance. do {
             xi \<leftarrow> rd (view s x) i;
             xij \<leftarrow> rd xi j;
             Some (variance + (xij - mean) * (xij - mean))
           }) 0" for buf mean
    by (rule for_loop_cong, cases "i < length x")
       (simp_all add: view_def rx rd_def[of x] rd_def[of "map (row_of s) x"])
  have body: "(do {
             xi \<leftarrow> rd x i;
             xij \<leftarrow> rd (row_of (snd (malloc_row buf t)) xi) j;
             buf' \<leftarrow> wr (row_of (snd (malloc_row buf t)) (brk t)) j ((xij - mean) / sqrt (variance + EPSILON));
             store_row (brk t) buf' (snd (malloc_row buf t))
           }) = map_option (\<lambda>buf. snd (malloc_row buf t)) ((do {
             xi \<leftarrow> rd (view s x) i;
             xij \<leftarrow> rd xi j;
             Some ((xij - mean) / sqrt (variance + EPSILON))
           }) \<bind> wr buf j)" for j buf mean variance
    by (cases "i < length x")
       (simp_all add: view_def rx row_of_malloc_new store_row_malloc
          map_option_bind_in bind_Some_map map_option_then rd_def[of x]
          rd_def[of "map (row_of s) x"])
  have "for_loop [0..<f] (\<lambda>j u. do {
             xi \<leftarrow> rd x i;
             xij \<leftarrow> rd (row_of u xi) j;
             buf' \<leftarrow> wr (row_of u (brk t)) j ((xij - mean) / sqrt (variance + EPSILON));
             store_row (brk t) buf' u
           }) (snd (malloc_row (malloc_floats f) t))
      = map_option (\<lambda>buf. snd (malloc_row buf t)) (for_loop [0..<f] (\<lambda>j buf. (do {
             xi \<leftarrow> rd (view s x) i;
             xij \<leftarrow> rd xi j;
             Some ((xij - mean) / sqrt (variance + EPSILON))
           }) \<bind> wr buf j) (malloc_floats f))" for mean variance
    by (rule for_loop_sim_eq) (rule body)
  then have loop: "for_loop [0..<f] (\<lambda>j u. do {
             xi \<leftarrow> rd x i;
             xij \<leftarrow> rd (row_of u xi) j;
             buf' \<leftarrow> wr (row_of u (brk t)) j ((xij - mean) / sqrt (variance + EPSILON));
             store_row (brk t) buf' u
           }) (snd (malloc_row (malloc_floats f) t))
      = map_option (\<lambda>buf. snd (malloc_row buf t)) (build f (\<lambda>j. do {
             xi \<leftarrow> rd (view s x) i;
             xij \<leftarrow> rd xi j;
             Some ((xij - mean) / sqrt (variance + EPSILON))
           }))" for mean variance
    by (simp only: malloc_floats_def wr_loop_build)
  show "(case malloc_row (malloc_floats f) t of (normalized_i, s) \<Rightarrow> do {
         mean \<leftarrow> for_loop [0..<f] (\<lambda>j mean. do {
             xi \<leftarrow> rd x i;
             xij \<leftarrow> rd (row_of s xi) j;
             Some (mean + xij)
           }) 0;
         let mean = mean / real f;
         variance \<leftarrow> for_loop [0..<f] (\<lambda>j variance. do {
             xi \<leftarrow> rd x i;
             xij \<leftarrow> rd (row_of s xi) j;
             Some (variance + (xij - mean) * (xij - mean))
           }) 0;
         let variance = variance / real f;
         s \<leftarrow> for_loop [0..<f] (\<lambda>j s. do {
             xi \<leftarrow> rd x i;
             xij \<leftarrow> rd (row_of s xi) j;
             buf \<leftarrow> wr (row_of s normalized_i) j ((xij - mean) / sqrt (variance + EPSILON));
             store_row normalized_i buf s
           }) s;
         Some (normalized_i, s)
       }) = (do {
       mean \<leftarrow> for_loop [0..<f] (\<lambda>j mean. do {
           xi \<leftarrow> rd (view s x) i;
           xij \<leftarrow> rd xi j;
           Some (mean + xij)
         }) 0;
       let mean = mean / real f;
       variance \<leftarrow> for_loop [0..<f] (\<lambda>j variance. do {
           xi \<leftarrow> rd (view s x) i;
           xij \<leftarrow> rd xi j;
           Some (variance + (xij - mean) * (xij - mean))
         }) 0;
       let variance = variance / real f;
       build f (\<lambda>j. do {
           xi \<leftarrow> rd (view s x) i;
           xij \<leftarrow> rd xi j;
           Some ((xij - mean) / sqrt (variance + EPSILON))
         })
     }) \<bind> (\<lambda>v. Some (malloc_row v t))"
    by (simp add: case_prod_beta malloc_row_fst mean_eq var_eq loop map_option_then
        malloc_row_pair[symmetric] Let_def)
qed

lemma sdpa_st_value:
  assumes "\<forall>p\<in>set Q. p < brk s" and "\<forall>p\<in>set K. p < brk s"
  shows "sdpa_st Q K V n d s =
           scaled_dot_product_attention (view s Q) (view s K) (view s V) n d \<bind>
             (\<lambda>output. Some (alloc_rows output s))"
proof -
  define b where "b = brk s"
  define \<phi> where "\<phi> = (\<lambda>M. s\<lparr>cells := (\<lambda>p. if b \<le> p \<and> p < b + n then Some (M ! (p - b)) else cells s p),
                            brk := b + n\<rparr>)"
  define f4 where "f4 = (\<lambda>i j M. do {
      sum \<leftarrow> for_loop (count_by 4 0 d) (\<lambda>k_idx sum. do {
          Qi \<leftarrow> rd (view s Q) i;
          q_vals \<leftarrow> mm_load_ps Qi k_idx;
          Kj \<leftarrow> rd (view s K) j;
          k_vals \<leftarrow> mm_load_ps Kj k_idx;
          Some (mm_add_ps sum (mm_mul_ps q_vals k_vals))
        }) mm_setzero_ps;
      wr2 M i j (hsum sum * (1 / sqrt (real d)))
    })"
  define g4 where "g4 = (\<lambda>i j u. do {
      sum \<leftarrow> for_loop (count_by 4 0 d) (\<lambda>k_idx sum. do {
          Qi \<leftarrow> rd Q i;
          q_vals \<leftarrow> mm_load_ps (row_of u Qi) k_idx;
          Kj \<leftarrow> rd K j;
          k_vals \<leftarrow> mm_load_ps (row_of u Kj) k_idx;
          Some (mm_add_ps sum (mm_mul_ps q_vals k_vals))
        }) mm_setzero_ps;
      output_i \<leftarrow> rd [b..<b + n] i;
      buf \<leftarrow> wr (row_of u output_i) j (hsum sum * (1 / sqrt (real d)));
      store_row output_i buf u
    })"
  have A: "alloc_rows M s = ([b..<b + n], \<phi> M)" if "length M = n" for M
    using that unfolding \<phi>_def b_def by (simp add: alloc_rows_eq)
  have rowarg: "row_of (\<phi> M) p = row_of s p" if "p < b" for p M
    using that by (simp add: \<phi>_def row_of_def)
  have rowout: "row_of (\<phi> M) (b + i) = M ! i" if "i < n" for i M
    using that by (simp add: \<phi>_def row_of_def)
  have stout: "store_row (b + i) r (\<phi> M) = Some (\<phi> (M[i := r]))" if "i < n" "length M = n" for i r M
  proof -
    have "(\<lambda>p. if b \<le> p \<and> p < b + n then Some (M ! (p - b)) else cells s p)(b + i \<mapsto> r)
        = (\<lambda>p. if b \<le> p \<and> p < b + n then Some (M[i := r] ! (p - b)) else cells s p)"
      using that by (auto simp: fun_eq_iff nth_list_update)
    then show ?thesis using that by (simp add: \<phi>_def store_row_def)
  qed
  have sum_eq: "for_loop (count_by 4 0 d) (\<lambda>k_idx sum. do {
          Qi \<leftarrow> rd Q i;
          q_vals \<leftarrow> mm_load_ps (row_of (\<phi> M) Qi) k_idx;
          Kj \<leftarrow> rd K j;
          k_vals \<leftarrow> mm_load_ps (row_of (\<phi> M) Kj) k_idx;
          Some (mm_add_ps sum (mm_mul_ps q_vals k_vals))
        }) mm_setzero_ps
      = for_loop (count_by 4 0 d) (\<lambda>k_idx sum. do {
          Qi \<leftarrow> rd (view s Q) i;
          q_vals \<leftarrow> mm_load_ps Qi k_idx;
          Kj \<leftarrow> rd (view s K) j;
          k_vals \<leftarrow> mm_load_ps Kj k_idx;
          Some (mm_add_ps sum (mm_mul_ps q_vals k_vals))
        }) mm_setzero_ps" for i j M
  proof (rule for_loop_cong)
    fix k_idx sum
    have q: "row_of (\<phi> M) (Q ! i) = row_of s (Q ! i)" if "i < length Q"
      using assms(1) that by (intro rowarg) (simp add: b_def)
    have k: "row_of (\<phi> M) (K ! j) = row_of s (K ! j)" if "j < length K"
      using assms(2) that by (intro rowarg) (simp add: b_def)
    show "(do {
          Qi \<leftarrow> rd Q i;
          q_vals \<leftarrow> mm_load_ps (row_of (\<phi> M) Qi) k_idx;
          Kj \<leftarrow> rd K j;
          k_vals \<leftarrow> mm_load_ps (row_of (\<phi> M) Kj) k_idx;
          Some (mm_add_ps sum (mm_mul_ps q_vals k_vals))
        }) = (do {
          Qi \<leftarrow> rd (view s Q) i;
          q_vals \<leftarrow> mm_load_ps Qi k_idx;
          Kj \<leftarrow> rd (view s K) j;
          k_vals \<leftarrow> mm_load_ps Kj k_idx;
          Some (mm_add_ps sum (mm_mul_ps q_vals k_vals))
        })"
      by (cases "i < length Q"; cases "j < length K")
         (simp_all add: view_def q k rd_def[of Q] rd_def[of K] rd_def[of "map (row_of s) Q"]
            rd_def[of "map (row_of s) K"])
  qed
  have L4: "g4 i j (\<phi> M) = map_option \<phi> (f4 i j M) \<and> (\<forall>M'. f4 i j M = Some M' \<longrightarrow> length M' = n)"
    if "length M = n" for i j M
  proof (cases "i < n")
    case True
    have "g4 i j (\<phi> M) = map_option \<phi> (f4 i j M)"
      using True that unfolding g4_def f4_def sum_eq
      by (simp add: wr2_def rd_def[of "[b..<b + n]"] rd_def[of M] rowout stout
          map_option_bind_in bind_Some_map wr_def[of M] option.map_comp comp_def)
    moreover have "\<forall>M'. f4 i j M = Some M' \<longrightarrow> length M' = n"
      using that by (auto simp: f4_def wr2_def bind_eq_Some_conv wr_def[of M])
    ultimately show ?thesis by simp
  next
    case False
    with that show ?thesis
      by (simp add: g4_def f4_def wr2_def rd_def[of "[b..<b + n]"] rd_def[of M])
  qed
  have L3: "for_loop js (\<lambda>j u. g4 i j u) (\<phi> M) = map_option \<phi> (for_loop js (\<lambda>j M. f4 i j M) M) \<and>
            (\<forall>M'. for_loop js (\<lambda>j M. f4 i j M) M = Some M' \<longrightarrow> length M' = n)"
    if "length M = n" for i js M
    by (rule for_loop_sim[of "\<lambda>M. length M = n" M js "\<lambda>j u. g4 i j u" \<phi> "\<lambda>j M. f4 i j M"])
       (use that L4 in auto)
  have L2: "for_loop is (\<lambda>i u. for_loop (J i) (\<lambda>j u. g4 i j u) u) (\<phi> M)
              = map_option \<phi> (for_loop is (\<lambda>i M. for_loop (J i) (\<lambda>j M. f4 i j M) M) M) \<and>
            (\<forall>M'. for_loop is (\<lambda>i M. for_loop (J i) (\<lambda>j M. f4 i j M) M) M = Some M' \<longrightarrow> length M' = n)"
    if "length M = n" for "is" J M
    by (rule for_loop_sim[of "\<lambda>M. length M = n" M "is"
          "\<lambda>i u. for_loop (J i) (\<lambda>j u. g4 i j u) u" \<phi>
          "\<lambda>i M. for_loop (J i) (\<lambda>j M. f4 i j M) M"])
       (use that L3 in auto)
  have L1: "for_loop bjs (\<lambda>bj u. for_loop (I2 bj) (\<lambda>i u. for_loop (J bj i) (\<lambda>j u. g4 i j u) u) u) (\<phi> M)
              = map_option \<phi> (for_loop bjs (\<lambda>bj M. for_loop (I2 bj) (\<lambda>i M. for_loop (J bj i) (\<lambda>j M. f4 i j M) M) M) M) \<and>
            (\<forall>M'. for_loop bjs (\<lambda>bj M. for_loop (I2 bj) (\<lambda>i M. for_loop (J bj i) (\<lambda>j M. f4 i j M) M) M) M = Some M'
                \<longrightarrow> length M' = n)"
    if "length M = n" for bjs I2 J M
    by (rule for_loop_sim[of "\<lambda>M. length M = n" M bjs
          "\<lambda>bj u. for_loop (I2 bj) (\<lambda>i u. for_loop (J bj i) (\<lambda>j u. g4 i j u) u) u" \<phi>
          "\<lambda>bj M. for_loop (I2 bj) (\<lambda>i M. for_loop (J bj i) (\<lambda>j M. f4 i j M) M) M"])
       (use that L2 in auto)
  have L0: "for_loop bis (\<lambda>bi u. for_loop (B bi) (\<lambda>bj u. for_loop (I2 bi bj)
                (\<lambda>i u. for_loop (J bi bj i) (\<lambda>j u. g4 i j u) u) u) u) (\<phi> M)
              = map_option \<phi> (for_loop bis (\<lambda>bi M. for_loop (B bi) (\<lambda>bj M. for_loop (I2 bi bj)
                (\<lambda>i M. for_loop (J bi bj i) (\<lambda>j M. f4 i j M) M) M) M) M) \<and>
            (\<forall>M'. for_loop bis (\<lambda>bi M. for_loop (B bi) (\<lambda>bj M. for_loop (I2 bi bj)
                (\<lambda>i M. for_loop (J bi bj i) (\<lambda>j M. f4 i j M) M) M) M) M = Some M'
                \<longrightarrow> length M' = n)"
    if "length M = n" for bis B I2 J M
    by (rule for_loop_sim[of "\<lambda>M. length M = n" M bis
          "\<lambda>bi u. for_loop (B bi) (\<lambda>bj u. for_loop (I2 bi bj)
                (\<lambda>i u. for_loop (J bi bj i) (\<lambda>j u. g4 i j u) u) u) u" \<phi>
          "\<lambda>bi M. for_loop (B bi) (\<lambda>bj M. for_loop (I2 bi bj)
                (\<lambda>i M. for_loop (J bi bj i) (\<lambda>j M. f4 i j M) M) M) M"])
       (use that L1 in auto)
  have len0: "length (replicate n (malloc_floats n)) = n" by simp
  note run = L0[OF len0, of "count_by 64 0 n" "\<lambda>bi. count_by 64 0 n"
      "\<lambda>bi bj. [bi..<min (bi + 64) n]" "\<lambda>bi bj i. [bj..<min (bj + 64) n]", unfolded g4_def f4_def]
  have fin: "G \<bind> (\<lambda>u. Some ([b..<b + n], u)) = X \<bind> (\<lambda>output. Some (alloc_rows output s))"
    if "G = map_option \<phi> X \<and> (\<forall>M'. X = Some M' \<longrightarrow> length M' = n)" for G X
    using that A by (cases X) auto
  show ?thesis
    unfolding sdpa_st_def scaled_dot_product_attention_def Let_def A[OF len0] prod.case
    by (rule fin) (rule run)
qed

subsection \<open>The functions the block calls, on the store\<close>

lemma linear_st_total:
  assumes "wf_store s" and "linear_layer (row_of s p) wts bs inSize outSize = Some v"
    and "p < brk s"
  shows "\<exists>s'. linear_st p wts bs inSize outSize s = Some (brk s, s') \<and> fresh_rows s [brk s] s' [v]"
  using malloc_row_fresh[OF assms(1), of v] assms(2,3) by (auto simp: linear_st_value)

lemma apply_layer_st_total:
  assumes "wf_store s" and "apply_layer l (row_of s p) = Some v" and "p < brk s"
  shows "\<exists>s'. apply_layer_st l p s = Some (brk s, s') \<and> fresh_rows s [brk s] s' [v]"
  using linear_st_total[OF assms(1) _ assms(3)] assms(2)
  by (simp add: apply_layer_st_def apply_layer_def)

lemma gelu_st_total:
  assumes "wf_store s" and "gelu (row_of s p) n = Some v" and "p < brk s"
  shows "\<exists>s'. gelu_st p n s = Some (brk s, s') \<and> fresh_rows s [brk s] s' [v]"
  using malloc_row_fresh[OF assms(1), of v] assms(2,3) by (auto simp: gelu_st_value)

lemma norm_st_total:
  assumes "wf_store s" and "norm_layer (view s x) n f = Some Y" and "\<forall>p\<in>set x. p < brk s"
  shows "\<exists>ps s'. norm_st x n f s = Some (ps, s') \<and> fresh_rows s ps s' Y"
  using alloc_rows_fresh[OF assms(1), of Y] assms(2,3) by (auto simp: norm_st_value)

lemma matrix_add_st_total:
  assumes "wf_store s" and "matrix_add (view s x) (view s y) n m = Some Z"
    and "\<forall>p\<in>set x. p < brk s" and "\<forall>p\<in>set y. p < brk s"
  shows "\<exists>ps s'. matrix_add_st x y n m s = Some (ps, s') \<and> fresh_rows s ps s' Z"
  using alloc_rows_fresh[OF assms(1), of Z] assms(2,3,4) by (auto simp: matrix_add_st_value)

lemma sdpa_st_total:
  assumes "wf_store s" and "scaled_dot_product_attention (view s Q) (view s K) (view s V) n d = Some Z"
    and "\<forall>p\<in>set Q. p < brk s" and "\<forall>p\<in>set K. p < brk s"
  shows "\<exists>ps s'. sdpa_st Q K V n d s = Some (ps, s') \<and> fresh_rows s ps s' Z"
  using alloc_rows_fresh[OF assms(1), of Z] assms(2,3,4) by (auto simp: sdpa_st_value)

lemma holds_triple:
  "holds s (triple_list (a, b, c)) (triple_list (x, y, z)) \<longleftrightarrow>
     cells s a = Some x \<and> cells s b = Some y \<and> cells s c = Some z"
  by (simp add: holds_def triple_list_def)

lemma holds_triples:
  assumes "length T = n" and "length Tv = n"
    and "\<forall>i<n. holds s (triple_list (T ! i)) (triple_list (Tv ! i))"
  shows "holds s (map fst T) (map fst Tv)" and "holds s (map (fst \<circ> snd) T) (map (fst \<circ> snd) Tv)"
    and "holds s (map (snd \<circ> snd) T) (map (snd \<circ> snd) Tv)"
proof -
  have "cells s (fst (T ! i)) = Some (fst (Tv ! i)) \<and> cells s (fst (snd (T ! i))) = Some (fst (snd (Tv ! i)))
      \<and> cells s (snd (snd (T ! i))) = Some (snd (snd (Tv ! i)))" if "i < n" for i
    using assms(3) that holds_triple[of s "fst (T ! i)" "fst (snd (T ! i))" "snd (snd (T ! i))"
        "fst (Tv ! i)" "fst (snd (Tv ! i))" "snd (snd (Tv ! i))"]
    by simp
  then show "holds s (map fst T) (map fst Tv)" and "holds s (map (fst \<circ> snd) T) (map (fst \<circ> snd) Tv)"
    and "holds s (map (snd \<circ> snd) T) (map (snd \<circ> snd) Tv)"
    using assms(1,2) by (simp_all add: holds_def list_eq_iff_nth_eq)
qed

lemma map_nth_upt: "length xs = n \<Longrightarrow> map (\<lambda>i. f (xs ! i)) [0..<n] = map f xs"
  by (auto simp: list_eq_iff_nth_eq)

lemma project_qkv_st_total:
  assumes "wf_store s" and "project_qkv (view s nx) n w = Some QKVv"
    and "\<forall>p\<in>set nx. p < brk s"
  shows "\<exists>QKV s'. project_qkv_st nx n w s = Some (QKV, s') \<and> length QKV = n \<and>
           fresh_rows s (concat (map triple_list QKV)) s' (concat (map triple_list QKVv)) \<and>
           holds s' (map fst QKV) (map fst QKVv) \<and>
           holds s' (map (fst \<circ> snd) QKV) (map (fst \<circ> snd) QKVv) \<and>
           holds s' (map (snd \<circ> snd) QKV) (map (snd \<circ> snd) QKVv)"
proof -
  note pure = assms(2)[unfolded project_qkv_def]
  have len: "length QKVv = n" using pure by (rule build_length)
  have step: "\<exists>r t'. do {
       xi \<leftarrow> rd nx i;
       (Qi, s) \<leftarrow> apply_layer_st (q_mlp w) xi t;
       (Ki, s) \<leftarrow> apply_layer_st (k_mlp w) xi s;
       (Vi, s) \<leftarrow> apply_layer_st (v_mlp w) xi s;
       Some ((Qi, Ki, Vi), s)
     } = Some (r, t') \<and> fresh_rows t (triple_list r) t' (triple_list (QKVv ! i))"
    if i: "i < n" and wf: "wf_store t" and k: "keeps (brk s) s t" for i t
  proof -
    from build_nth[OF pure i] obtain xi qv kv vv where p:
      "rd (view s nx) i = Some xi" "apply_layer (q_mlp w) xi = Some qv"
      "apply_layer (k_mlp w) xi = Some kv" "apply_layer (v_mlp w) xi = Some vv"
      "QKVv ! i = (qv, kv, vv)"
      by (auto simp: bind_eq_Some_conv)
    from p(1) have i': "i < length nx" and xi: "xi = row_of s (nx ! i)"
      by (auto simp: rd_def view_def split: if_splits)
    from i' assms(3) have below: "nx ! i < brk s" by simp
    have r0: "row_of t (nx ! i) = xi" using row_of_keeps[OF k below] xi by simp
    have le1: "brk s \<le> brk t" using k by (simp add: keeps_def)
    from below le1 have b0: "nx ! i < brk t" by simp
    from apply_layer_st_total[OF wf, of "q_mlp w" "nx ! i" qv] p(2) r0 b0 obtain t1 where
      a1: "apply_layer_st (q_mlp w) (nx ! i) t = Some (brk t, t1)" "fresh_rows t [brk t] t1 [qv]"
      by auto
    have le2: "brk t \<le> brk t1" using a1(2) by (simp add: fresh_rows_def keeps_def)
    from b0 le2 have b1: "nx ! i < brk t1" by simp
    have r1: "row_of t1 (nx ! i) = xi"
      using row_of_keeps[OF fresh_rows_keeps[OF a1(2)], of "nx ! i"] below le1 r0 by simp
    from apply_layer_st_total[OF fresh_rows_wf[OF a1(2)], of "k_mlp w" "nx ! i" kv] p(3) r1 b1 obtain t2 where
      a2: "apply_layer_st (k_mlp w) (nx ! i) t1 = Some (brk t1, t2)" "fresh_rows t1 [brk t1] t2 [kv]"
      by auto
    have le3: "brk t1 \<le> brk t2" using a2(2) by (simp add: fresh_rows_def keeps_def)
    from b1 le3 have b2: "nx ! i < brk t2" by simp
    have r2: "row_of t2 (nx ! i) = xi"
      using row_of_keeps[OF fresh_rows_keeps[OF a2(2)], of "nx ! i"] below le1 le2 r1 by simp
    from apply_layer_st_total[OF fresh_rows_wf[OF a2(2)], of "v_mlp w" "nx ! i" vv] p(4) r2 b2 obtain t3 where
      a3: "apply_layer_st (v_mlp w) (nx ! i) t2 = Some (brk t2, t3)" "fresh_rows t2 [brk t2] t3 [vv]"
      by auto
    have "fresh_rows t ([brk t] @ [brk t1] @ [brk t2]) t3 ([qv] @ [kv] @ [vv])"
      by (intro fresh_rows_append[OF a1(2)] fresh_rows_append[OF a2(2)] a3(2))
    then show ?thesis
      using i' a1(1) a2(1) a3(1) p(5) by (simp add: rd_def triple_list_def)
  qed
  from build_st_total[of s n _ triple_list "\<lambda>i. triple_list (QKVv ! i)", OF assms(1) step]
  obtain QKV s' where b: "project_qkv_st nx n w s = Some (QKV, s')" "length QKV = n"
    "fresh_rows s (concat (map triple_list QKV)) s' (concat (map (\<lambda>i. triple_list (QKVv ! i)) [0..<n]))"
    "\<forall>i<n. holds s' (triple_list (QKV ! i)) (triple_list (QKVv ! i))"
    unfolding project_qkv_st_def by blast
  have "map (\<lambda>i. triple_list (QKVv ! i)) [0..<n] = map triple_list QKVv"
    by (rule map_nth_upt[OF len])
  with b holds_triples[OF b(2) len b(4)] show ?thesis by auto
qed

subsection \<open>The body of the block, on the store\<close>

lemma length_concat_triples: "length (concat (map triple_list T)) = 3 * length T"
  by (induction T) (auto simp: triple_list_def)

lemma holds_concat_triples:
  assumes "length T = length Tv"
    and "holds s (concat (map triple_list T)) (concat (map triple_list Tv))"
  shows "holds s (map fst T) (map fst Tv) \<and> holds s (map (fst \<circ> snd) T) (map (fst \<circ> snd) Tv)
       \<and> holds s (map (snd \<circ> snd) T) (map (snd \<circ> snd) Tv)"
  using assms
  by (induction T Tv rule: list_induct2) (auto simp: holds_def triple_list_def)

lemma split_step_total:
  assumes "wf_store t"
    and "rd Q i = Some qi" and "rd K i = Some ki" and "rd V i = Some vi"
    and "qi < brk t" and "ki < brk t" and "vi < brk t"
    and "head_slice (row_of t qi) h = Some qh" and "head_slice (row_of t ki) h = Some kh"
    and "head_slice (row_of t vi) h = Some vh"
  shows "\<exists>r t'. (case malloc_row (malloc_floats HEAD_DIM) t of (Qhi, s) \<Rightarrow>
       case malloc_row (malloc_floats HEAD_DIM) s of (Khi, s) \<Rightarrow>
       case malloc_row (malloc_floats HEAD_DIM) s of (Vhi, s) \<Rightarrow> do {
         Qi \<leftarrow> rd Q i;
         s \<leftarrow> copy_head_st Qhi Qi h s;
         Ki \<leftarrow> rd K i;
         s \<leftarrow> copy_head_st Khi Ki h s;
         Vi \<leftarrow> rd V i;
         s \<leftarrow> copy_head_st Vhi Vi h s;
         Some ((Qhi, Khi, Vhi), s)
       }) = Some (r, t') \<and> fresh_rows t (triple_list r) t' (triple_list (qh, kh, vh))"
proof -
  let ?b = "brk t"
  let ?t' = "t\<lparr>cells := (cells t)(?b \<mapsto> qh, Suc ?b \<mapsto> kh, Suc (Suc ?b) \<mapsto> vh), brk := Suc (Suc (Suc ?b))\<rparr>"
  have run: "(case malloc_row (malloc_floats HEAD_DIM) t of (Qhi, s) \<Rightarrow>
       case malloc_row (malloc_floats HEAD_DIM) s of (Khi, s) \<Rightarrow>
       case malloc_row (malloc_floats HEAD_DIM) s of (Vhi, s) \<Rightarrow> do {
         Qi \<leftarrow> rd Q i;
         s \<leftarrow> copy_head_st Qhi Qi h s;
         Ki \<leftarrow> rd K i;
         s \<leftarrow> copy_head_st Khi Ki h s;
         Vi \<leftarrow> rd V i;
         s \<leftarrow> copy_head_st Vhi Vi h s;
         Some ((Qhi, Khi, Vhi), s)
       }) = Some ((?b, Suc ?b, Suc (Suc ?b)), ?t')"
    using assms(2-10)
    by (simp add: malloc_row_def copy_head_st_def store_row_def row_of_def head_slice_def
        fun_upd_twist)
  have "fresh_rows t [?b, Suc ?b, Suc (Suc ?b)] ?t' [qh, kh, vh]"
    using assms(1) by (auto simp: fresh_rows_def keeps_def wf_store_def holds_def)
  with run show ?thesis by (simp add: triple_list_def)
qed

lemma split_heads_st_total:
  assumes "wf_store s" and "split_heads (view s Q) (view s K) (view s V) n = Some headsv"
    and "\<forall>p\<in>set Q. p < brk s" and "\<forall>p\<in>set K. p < brk s" and "\<forall>p\<in>set V. p < brk s"
  shows "\<exists>heads s'. split_heads_st Q K V n s = Some (heads, s') \<and> length heads = NUM_HEADS \<and>
           fresh_rows s (concat (map (\<lambda>head. concat (map triple_list head)) heads)) s'
             (concat (map (\<lambda>head. concat (map triple_list head)) headsv)) \<and>
           (\<forall>h<NUM_HEADS. length (heads ! h) = n \<and>
              holds s' (concat (map triple_list (heads ! h))) (concat (map triple_list (headsv ! h))))"
proof -
  note pure = assms(2)[unfolded split_heads_def]
  have len: "length headsv = NUM_HEADS" using pure by (rule build_length)
  have lenh: "length (headsv ! h) = n" if "h < NUM_HEADS" for h
    using build_nth[OF pure that] by (rule build_length)
  have outer: "\<exists>head u'. build_st n (\<lambda>i s.
       case malloc_row (malloc_floats HEAD_DIM) s of (Qhi, s) \<Rightarrow>
       case malloc_row (malloc_floats HEAD_DIM) s of (Khi, s) \<Rightarrow>
       case malloc_row (malloc_floats HEAD_DIM) s of (Vhi, s) \<Rightarrow> do {
         Qi \<leftarrow> rd Q i;
         s \<leftarrow> copy_head_st Qhi Qi h s;
         Ki \<leftarrow> rd K i;
         s \<leftarrow> copy_head_st Khi Ki h s;
         Vi \<leftarrow> rd V i;
         s \<leftarrow> copy_head_st Vhi Vi h s;
         Some ((Qhi, Khi, Vhi), s)
       }) u = Some (head, u') \<and>
       fresh_rows u (concat (map triple_list head)) u' (concat (map triple_list (headsv ! h)))"
    if h: "h < NUM_HEADS" and wfu: "wf_store u" and ku: "keeps (brk s) s u" for h u
  proof -
    note pure_h = build_nth[OF pure h]
    have inner: "\<exists>r t'. (case malloc_row (malloc_floats HEAD_DIM) t of (Qhi, s) \<Rightarrow>
       case malloc_row (malloc_floats HEAD_DIM) s of (Khi, s) \<Rightarrow>
       case malloc_row (malloc_floats HEAD_DIM) s of (Vhi, s) \<Rightarrow> do {
         Qi \<leftarrow> rd Q i;
         s \<leftarrow> copy_head_st Qhi Qi h s;
         Ki \<leftarrow> rd K i;
         s \<leftarrow> copy_head_st Khi Ki h s;
         Vi \<leftarrow> rd V i;
         s \<leftarrow> copy_head_st Vhi Vi h s;
         Some ((Qhi, Khi, Vhi), s)
       }) = Some (r, t') \<and> fresh_rows t (triple_list r) t' (triple_list (headsv ! h ! i))"
      if i: "i < n" and wft: "wf_store t" and kt: "keeps (brk u) u t" for i t
    proof -
      from build_nth[OF pure_h i] obtain qh kh vh where p:
        "rd (view s Q) i \<bind> (\<lambda>Qi. head_slice Qi h) = Some qh"
        "rd (view s K) i \<bind> (\<lambda>Ki. head_slice Ki h) = Some kh"
        "rd (view s V) i \<bind> (\<lambda>Vi. head_slice Vi h) = Some vh"
        "headsv ! h ! i = (qh, kh, vh)"
        by (auto simp: bind_eq_Some_conv)
      from p(1-3) have il: "i < length Q" "i < length K" "i < length V"
        and sl: "head_slice (row_of s (Q ! i)) h = Some qh" "head_slice (row_of s (K ! i)) h = Some kh"
        "head_slice (row_of s (V ! i)) h = Some vh"
        by (auto simp: rd_def view_def bind_eq_Some_conv split: if_splits)
      from il assms(3-5) have below: "Q ! i < brk s" "K ! i < brk s" "V ! i < brk s" by simp_all
      have le: "brk s \<le> brk u" "brk u \<le> brk t" using ku kt by (simp_all add: keeps_def)
      have same: "row_of t p = row_of s p" if "p < brk s" for p
        using row_of_keeps[OF kt, of p] row_of_keeps[OF ku, of p] that le by simp
      show ?thesis
        unfolding p(4)
        by (rule split_step_total[OF wft, of Q i "Q ! i" K "K ! i" V "V ! i"])
           (use il below le sl in \<open>simp_all add: rd_def same\<close>)
    qed
    from build_st_total[of u n _ triple_list "\<lambda>i. triple_list (headsv ! h ! i)", OF wfu inner]
    obtain head u' where b: "build_st n (\<lambda>i s.
       case malloc_row (malloc_floats HEAD_DIM) s of (Qhi, s) \<Rightarrow>
       case malloc_row (malloc_floats HEAD_DIM) s of (Khi, s) \<Rightarrow>
       case malloc_row (malloc_floats HEAD_DIM) s of (Vhi, s) \<Rightarrow> do {
         Qi \<leftarrow> rd Q i;
         s \<leftarrow> copy_head_st Qhi Qi h s;
         Ki \<leftarrow> rd K i;
         s \<leftarrow> copy_head_st Khi Ki h s;
         Vi \<leftarrow> rd V i;
         s \<leftarrow> copy_head_st Vhi Vi h s;
         Some ((Qhi, Khi, Vhi), s)
       }) u = Some (head, u')"
      "fresh_rows u (concat (map triple_list head)) u'
         (concat (map (\<lambda>i. triple_list (headsv ! h ! i)) [0..<n]))"
      by blast
    have "map (\<lambda>i. triple_list (headsv ! h ! i)) [0..<n] = map triple_list (headsv ! h)"
      by (rule map_nth_upt[OF lenh[OF h]])
    with b show ?thesis by auto
  qed
  from build_st_total[of s NUM_HEADS _ "\<lambda>head. concat (map triple_list head)"
      "\<lambda>h. concat (map triple_list (headsv ! h))", OF assms(1) outer]
  obtain heads s' where b: "split_heads_st Q K V n s = Some (heads, s')" "length heads = NUM_HEADS"
    "fresh_rows s (concat (map (\<lambda>head. concat (map triple_list head)) heads)) s'
       (concat (map (\<lambda>h. concat (map triple_list (headsv ! h))) [0..<NUM_HEADS]))"
    "\<forall>h<NUM_HEADS. holds s' (concat (map triple_list (heads ! h))) (concat (map triple_list (headsv ! h)))"
    unfolding split_heads_st_def by blast
  have flat: "map (\<lambda>h. concat (map triple_list (headsv ! h))) [0..<NUM_HEADS]
      = map (\<lambda>head. concat (map triple_list head)) headsv"
    by (rule map_nth_upt[OF len])
  have "length (heads ! h) = n" if "h < NUM_HEADS" for h
  proof -
    from b(4) that have "length (concat (map triple_list (heads ! h)))
        = length (concat (map triple_list (headsv ! h)))"
      by (auto dest: holds_length)
    then show ?thesis using lenh[OF that] by (simp add: length_concat_triples)
  qed
  with b flat show ?thesis by auto
qed

lemma attention_heads_st_total:
  assumes "wf_store s" and "attention_heads headsv n = Some hosv"
    and "length heads = NUM_HEADS" and "length headsv = NUM_HEADS"
    and "\<forall>h<NUM_HEADS. length (heads ! h) = length (headsv ! h) \<and>
           holds s (concat (map triple_list (heads ! h))) (concat (map triple_list (headsv ! h)))"
    and "\<forall>h<NUM_HEADS. \<forall>p\<in>set (concat (map triple_list (heads ! h))). p < brk s"
  shows "\<exists>hos s'. attention_heads_st heads n s = Some (hos, s') \<and> length hos = NUM_HEADS \<and>
           fresh_rows s (concat hos) s' (concat hosv) \<and>
           (\<forall>h<NUM_HEADS. holds s' (hos ! h) (hosv ! h))"
proof -
  note pure = assms(2)[unfolded attention_heads_def]
  have len: "length hosv = NUM_HEADS" using pure by (rule build_length)
  have step: "\<exists>r t'. (do {
       head \<leftarrow> rd heads h;
       sdpa_st (map fst head) (map (fst \<circ> snd) head) (map (snd \<circ> snd) head) n HEAD_DIM t
     }) = Some (r, t') \<and> fresh_rows t r t' (hosv ! h)"
    if h: "h < NUM_HEADS" and wft: "wf_store t" and kt: "keeps (brk s) s t" for h t
  proof -
    from build_nth[OF pure h] assms(4) h
    have p: "scaled_dot_product_attention (map fst (headsv ! h)) (map (fst \<circ> snd) (headsv ! h))
        (map (snd \<circ> snd) (headsv ! h)) n HEAD_DIM = Some (hosv ! h)"
      by (simp add: rd_def)
    from assms(5) h have l: "length (heads ! h) = length (headsv ! h)"
      and hl: "holds s (concat (map triple_list (heads ! h))) (concat (map triple_list (headsv ! h)))"
      by simp_all
    note hs = holds_concat_triples[OF l hl]
    have below: "\<forall>p\<in>set (map fst (heads ! h)). p < brk s"
      "\<forall>p\<in>set (map (fst \<circ> snd) (heads ! h)). p < brk s"
      "\<forall>p\<in>set (map (snd \<circ> snd) (heads ! h)). p < brk s"
      using assms(6) h by (force simp: triple_list_def)+
    have v: "view t (map fst (heads ! h)) = map fst (headsv ! h)"
      "view t (map (fst \<circ> snd) (heads ! h)) = map (fst \<circ> snd) (headsv ! h)"
      "view t (map (snd \<circ> snd) (heads ! h)) = map (snd \<circ> snd) (headsv ! h)"
      using view_keeps[OF kt below(1)] view_keeps[OF kt below(2)] view_keeps[OF kt below(3)]
        hs by (simp_all add: holds_view)
    have le: "brk s \<le> brk t" using kt by (simp add: keeps_def)
    from below(1,2) le have bt: "\<forall>p\<in>set (map fst (heads ! h)). p < brk t"
      "\<forall>p\<in>set (map (fst \<circ> snd) (heads ! h)). p < brk t"
      by fastforce+
    from sdpa_st_total[OF wft, of "map fst (heads ! h)" "map (fst \<circ> snd) (heads ! h)"
        "map (snd \<circ> snd) (heads ! h)" n HEAD_DIM "hosv ! h", OF _ bt] p v
    show ?thesis using h assms(3) by (simp add: rd_def)
  qed
  from build_st_total[of s NUM_HEADS _ "\<lambda>r. r" "\<lambda>h. hosv ! h", OF assms(1) step]
  obtain hos s' where b: "attention_heads_st heads n s = Some (hos, s')" "length hos = NUM_HEADS"
    "fresh_rows s (concat (map (\<lambda>r. r) hos)) s' (concat (map (\<lambda>h. hosv ! h) [0..<NUM_HEADS]))"
    "\<forall>h<NUM_HEADS. holds s' (hos ! h) (hosv ! h)"
    unfolding attention_heads_st_def by blast
  have "map (\<lambda>h. hosv ! h) [0..<NUM_HEADS] = hosv" using len map_nth[of hosv] by simp
  with b show ?thesis by auto
qed

text \<open>A loop that writes to one live buffer \<open>a\<close> of the store and reads the others follows
  the same loop on the value of that buffer.\<close>

lemma for_loop_one_row:
  assumes "\<And>j buf. j \<in> set js \<Longrightarrow>
      g j (t\<lparr>cells := (cells t)(a \<mapsto> buf)\<rparr>) =
        map_option (\<lambda>buf'. t\<lparr>cells := (cells t)(a \<mapsto> buf')\<rparr>) (f j buf)"
  shows "for_loop js g (t\<lparr>cells := (cells t)(a \<mapsto> b0)\<rparr>) =
           map_option (\<lambda>buf'. t\<lparr>cells := (cells t)(a \<mapsto> buf')\<rparr>) (for_loop js f b0)"
  using assms
proof (induction js arbitrary: b0)
  case Nil
  then show ?case by simp
next
  case (Cons j js)
  show ?case
  proof (cases "f j b0")
    case None
    with Cons.prems[of j b0] show ?thesis by simp
  next
    case (Some b1)
    with Cons.prems[of j b0] Cons.IH[of b1] Cons.prems show ?thesis by simp
  qed
qed

lemma concat_heads_st_total:
  assumes "wf_store s" and "concat_heads hosv n E = Some av"
    and "length hos = length hosv"
    and "\<forall>h<length hos. holds s (hos ! h) (hosv ! h)"
    and "\<forall>h<length hos. \<forall>p\<in>set (hos ! h). p < brk s"
  shows "\<exists>a s'. concat_heads_st hos n E s = Some (a, s') \<and> fresh_rows s a s' av"
proof -
  note pure = assms(2)[unfolded concat_heads_def]
  have len: "length av = n" using pure by (rule build_length)
  have step: "\<exists>r t'. (case malloc_row (malloc_floats E) t of (a_i, s) \<Rightarrow> do {
         s \<leftarrow> for_loop [0..<NUM_HEADS] (\<lambda>h s. do {
             head_output \<leftarrow> rd hos h;
             src \<leftarrow> rd head_output i;
             buf \<leftarrow> memcpy (row_of s a_i) (h * HEAD_DIM) (row_of s src) 0 HEAD_DIM;
             store_row a_i buf s
           }) s;
         Some (a_i, s)
       }) = Some (r, t') \<and> fresh_rows t [r] t' [av ! i]"
    if i: "i < n" and wft: "wf_store t" and kt: "keeps (brk s) s t" for i t
  proof -
    let ?a = "brk t"
    let ?t1 = "t\<lparr>brk := Suc (brk t)\<rparr>"
    have le: "brk s \<le> brk t" using kt by (simp add: keeps_def)
    have body: "(do {
             head_output \<leftarrow> rd hos h;
             src \<leftarrow> rd head_output i;
             buf' \<leftarrow> memcpy (row_of (?t1\<lparr>cells := (cells ?t1)(?a \<mapsto> buf)\<rparr>) ?a) (h * HEAD_DIM)
                      (row_of (?t1\<lparr>cells := (cells ?t1)(?a \<mapsto> buf)\<rparr>) src) 0 HEAD_DIM;
             store_row ?a buf' (?t1\<lparr>cells := (cells ?t1)(?a \<mapsto> buf)\<rparr>)
           }) = map_option (\<lambda>buf'. ?t1\<lparr>cells := (cells ?t1)(?a \<mapsto> buf')\<rparr>)
                  (do {
                     head_output \<leftarrow> rd hosv h;
                     src \<leftarrow> rd head_output i;
                     memcpy buf (h * HEAD_DIM) src 0 HEAD_DIM
                   })" for h buf
    proof (cases "h < length hos \<and> i < length (hos ! h)")
      case True
      then have h: "h < length hos" and ii: "i < length (hos ! h)" by simp_all
      from assms(4) h have hl: "holds s (hos ! h) (hosv ! h)" by simp
      from holds_length[OF hl] ii have iv: "i < length (hosv ! h)" by simp
      from assms(5) h ii have b: "hos ! h ! i < brk s" by simp
      have "row_of t (hos ! h ! i) = row_of s (hos ! h ! i)" by (rule row_of_keeps[OF kt b])
      also have "\<dots> = hosv ! h ! i" by (rule holds_row_of[OF hl ii])
      finally have r: "row_of t (hos ! h ! i) = hosv ! h ! i" .
      from b le have ne: "hos ! h ! i \<noteq> brk t" by simp
      from r ne have r1: "row_of (?t1\<lparr>cells := (cells ?t1)(?a \<mapsto> buf)\<rparr>) (hos ! h ! i) = hosv ! h ! i"
        by (simp add: row_of_def)
      have r2: "row_of (?t1\<lparr>cells := (cells ?t1)(?a \<mapsto> buf)\<rparr>) ?a = buf"
        by (simp add: row_of_def)
      show ?thesis
        using h ii iv assms(3) r[unfolded row_of_def] ne
        by (cases "memcpy buf (h * HEAD_DIM) (hosv ! h ! i) 0 HEAD_DIM")
           (simp_all add: rd_def store_row_def row_of_def)
    next
      case False
      have "length (hos ! h) = length (hosv ! h)" if "h < length hos"
        using assms(4) that by (auto dest: holds_length)
      with False assms(3) show ?thesis
        by (auto simp: rd_def)
    qed
    from build_nth[OF pure i] have p: "for_loop [0..<NUM_HEADS] (\<lambda>h a_i. do {
           head_output \<leftarrow> rd hosv h;
           src \<leftarrow> rd head_output i;
           memcpy a_i (h * HEAD_DIM) src 0 HEAD_DIM
         }) (malloc_floats E) = Some (av ! i)" .
    have m: "malloc_row (malloc_floats E) t = (?a, ?t1\<lparr>cells := (cells ?t1)(?a \<mapsto> malloc_floats E)\<rparr>)"
      by (simp add: malloc_row_def)
    have loop: "for_loop [0..<NUM_HEADS] (\<lambda>h s. do {
             head_output \<leftarrow> rd hos h;
             src \<leftarrow> rd head_output i;
             buf \<leftarrow> memcpy (row_of s ?a) (h * HEAD_DIM) (row_of s src) 0 HEAD_DIM;
             store_row ?a buf s
           }) (?t1\<lparr>cells := (cells ?t1)(?a \<mapsto> malloc_floats E)\<rparr>)
        = Some (?t1\<lparr>cells := (cells ?t1)(?a \<mapsto> av ! i)\<rparr>)"
      by (subst for_loop_one_row[where f = "\<lambda>h a_i. do {
           head_output \<leftarrow> rd hosv h;
           src \<leftarrow> rd head_output i;
           memcpy a_i (h * HEAD_DIM) src 0 HEAD_DIM
         }"]) (simp_all only: body p option.map)
    have sw: "t\<lparr>cells := c, brk := Suc (brk t)\<rparr> = t\<lparr>brk := Suc (brk t), cells := c\<rparr>" for c
      by simp
    from malloc_row_fresh[OF wft, of "av ! i"] loop show ?thesis
      by (simp add: malloc_row_def sw)
  qed
  from build_st_total[of s n _ "\<lambda>r. [r]" "\<lambda>i. [av ! i]", OF assms(1) step]
  obtain a s' where b: "concat_heads_st hos n E s = Some (a, s')"
    "fresh_rows s (concat (map (\<lambda>r. [r]) a)) s' (concat (map (\<lambda>i. [av ! i]) [0..<n]))"
    unfolding concat_heads_st_def by blast
  have "concat (map (\<lambda>r. [r]) a) = a" by (induction a) simp_all
  moreover have "concat (map (\<lambda>i. [av ! i]) [0..<n]) = av"
    using map_nth_upt[OF len, of "\<lambda>r. [r]"] by (simp add: concat_map_singleton)
  ultimately show ?thesis using b by auto
qed

lemma mlp_step_total:
  assumes "wf_store t" and "xi < brk t"
    and "apply_layer l1 (row_of t xi) = Some f" and "gelu f k = Some g"
    and "apply_layer l2 g = Some mi"
  shows "\<exists>r t'. (do {
       (first_mlp_out, s) \<leftarrow> apply_layer_st l1 xi t;
       (gelu_out, s) \<leftarrow> gelu_st first_mlp_out k s;
       s \<leftarrow> free_row first_mlp_out s;
       (m_i, s) \<leftarrow> apply_layer_st l2 gelu_out s;
       s \<leftarrow> free_row gelu_out s;
       Some (m_i, s)
     }) = Some (r, t') \<and> fresh_rows t [r] t' [mi]"
proof -
  let ?b = "brk t"
  from assms(2,3) have a1: "apply_layer_st l1 xi t
      = Some (?b, t\<lparr>cells := (cells t)(?b \<mapsto> f), brk := Suc ?b\<rparr>)"
    by (simp add: apply_layer_st_value malloc_row_def)
  let ?t1 = "t\<lparr>cells := (cells t)(?b \<mapsto> f), brk := Suc ?b\<rparr>"
  from assms(4) have a2: "gelu_st ?b k ?t1
      = Some (Suc ?b, t\<lparr>cells := (cells t)(?b \<mapsto> f, Suc ?b \<mapsto> g), brk := Suc (Suc ?b)\<rparr>)"
    by (simp add: gelu_st_value malloc_row_def row_of_def)
  let ?t2 = "t\<lparr>cells := (cells t)(?b \<mapsto> f, Suc ?b \<mapsto> g), brk := Suc (Suc ?b)\<rparr>"
  have a3: "free_row ?b ?t2
      = Some (t\<lparr>cells := (cells t)(?b := None, Suc ?b \<mapsto> g), brk := Suc (Suc ?b)\<rparr>)"
    by (simp add: free_row_def fun_upd_twist)
  let ?t3 = "t\<lparr>cells := (cells t)(?b := None, Suc ?b \<mapsto> g), brk := Suc (Suc ?b)\<rparr>"
  from assms(5) have a4: "apply_layer_st l2 (Suc ?b) ?t3
      = Some (Suc (Suc ?b), t\<lparr>cells := (cells t)(?b := None, Suc ?b \<mapsto> g, Suc (Suc ?b) \<mapsto> mi),
                brk := Suc (Suc (Suc ?b))\<rparr>)"
    by (simp add: apply_layer_st_value malloc_row_def row_of_def)
  let ?t4 = "t\<lparr>cells := (cells t)(?b := None, Suc ?b \<mapsto> g, Suc (Suc ?b) \<mapsto> mi),
                brk := Suc (Suc (Suc ?b))\<rparr>"
  have a5: "free_row (Suc ?b) ?t4
      = Some (t\<lparr>cells := (cells t)(?b := None, Suc ?b := None, Suc (Suc ?b) \<mapsto> mi),
                brk := Suc (Suc (Suc ?b))\<rparr>)"
    by (simp add: free_row_def fun_upd_twist)
  let ?t5 = "t\<lparr>cells := (cells t)(?b := None, Suc ?b := None, Suc (Suc ?b) \<mapsto> mi),
                brk := Suc (Suc (Suc ?b))\<rparr>"
  have "fresh_rows t [Suc (Suc ?b)] ?t5 [mi]"
    using assms(1) by (auto simp: fresh_rows_def keeps_def wf_store_def holds_def)
  then show ?thesis by (simp add: a1 a2 a3 a4 a5)
qed

lemma mlp_rows_st_total:
  assumes "wf_store s" and "mlp_rows (view s nxa) n w = Some mv"
    and "\<forall>p\<in>set nxa. p < brk s"
  shows "\<exists>m s'. mlp_rows_st nxa n w s = Some (m, s') \<and> fresh_rows s m s' mv"
proof -
  note pure = assms(2)[unfolded mlp_rows_def]
  have len: "length mv = n" using pure by (rule build_length)
  have step: "\<exists>r t'. (do {
       xi \<leftarrow> rd nxa i;
       (first_mlp_out, s) \<leftarrow> apply_layer_st (first_block_MLP w) xi t;
       (gelu_out, s) \<leftarrow> gelu_st first_mlp_out (fcOutputSize (first_block_MLP w)) s;
       s \<leftarrow> free_row first_mlp_out s;
       (m_i, s) \<leftarrow> apply_layer_st (second_block_MLP w) gelu_out s;
       s \<leftarrow> free_row gelu_out s;
       Some (m_i, s)
     }) = Some (r, t') \<and> fresh_rows t [r] t' [mv ! i]"
    if i: "i < n" and wft: "wf_store t" and kt: "keeps (brk s) s t" for i t
  proof -
    from build_nth[OF pure i] obtain f g where p: "i < length nxa"
      "apply_layer (first_block_MLP w) (row_of s (nxa ! i)) = Some f"
      "gelu f (fcOutputSize (first_block_MLP w)) = Some g"
      "apply_layer (second_block_MLP w) g = Some (mv ! i)"
      by (auto simp: rd_def view_def bind_eq_Some_conv split: if_splits)
    from p(1) assms(3) have b: "nxa ! i < brk s" by simp
    have le: "brk s \<le> brk t" using kt by (simp add: keeps_def)
    have r: "row_of t (nxa ! i) = row_of s (nxa ! i)" by (rule row_of_keeps[OF kt b])
    from mlp_step_total[OF wft, of "nxa ! i" "first_block_MLP w" f
        "fcOutputSize (first_block_MLP w)" g "second_block_MLP w" "mv ! i"] b le p r
    show ?thesis by (simp add: rd_def)
  qed
  from build_st_total[of s n _ "\<lambda>r. [r]" "\<lambda>i. [mv ! i]", OF assms(1) step]
  obtain m s' where b: "mlp_rows_st nxa n w s = Some (m, s')"
    "fresh_rows s (concat (map (\<lambda>r. [r]) m)) s' (concat (map (\<lambda>i. [mv ! i]) [0..<n]))"
    unfolding mlp_rows_st_def by blast
  have "concat (map (\<lambda>r. [r]) m) = m" by (induction m) simp_all
  moreover have "concat (map (\<lambda>i. [mv ! i]) [0..<n]) = mv"
    using map_nth_upt[OF len, of "\<lambda>r. [r]"] by (simp add: concat_map_singleton)
  ultimately show ?thesis using b by auto
qed

subsection \<open>Freeing\<close>

lemma free_list_Cons_bind: "free_list (p # ps) s = free_row p s \<bind> free_list ps"
  by (cases "free_row p s") simp_all

lemma free_list_append: "free_list (ps @ qs) s = free_list ps s \<bind> free_list qs"
  by (induction ps arbitrary: s) (simp_all split: option.splits)

lemma for_loop_free_list:
  assumes "\<And>i t. i < n \<Longrightarrow> body i t = free_list (F i) t"
  shows "for_loop [0..<n] body s = free_list (concat (map F [0..<n])) s"
  using assms
proof (induction n)
  case 0
  then show ?case by simp
next
  case (Suc n)
  then have "for_loop [0..<n] body s = free_list (concat (map F [0..<n])) s" by simp
  with Suc.prems[of n] show ?case
    by (cases "free_list (concat (map F [0..<n])) s")
       (simp_all add: for_loop_append free_list_append split: option.splits)
qed

lemma free_list_total:
  assumes "distinct ps" and "\<forall>p\<in>set ps. cells s p \<noteq> None"
  shows "\<exists>s'. free_list ps s = Some s' \<and> brk s' = brk s \<and>
           (\<forall>p. cells s' p = (if p \<in> set ps then None else cells s p))"
  using assms
proof (induction ps arbitrary: s)
  case Nil
  then show ?case by simp
next
  case (Cons p ps)
  let ?s1 = "s\<lparr>cells := (cells s)(p := None)\<rparr>"
  from Cons.prems have f: "free_row p s = Some ?s1" by (simp add: free_row_def)
  from Cons.prems have "distinct ps" "\<forall>q\<in>set ps. cells ?s1 q \<noteq> None" by auto
  from Cons.IH[OF this] obtain s' where "free_list ps ?s1 = Some s'" "brk s' = brk ?s1"
    "\<forall>q. cells s' q = (if q \<in> set ps then None else cells ?s1 q)" by blast
  with f show ?case by auto
qed

lemma mset_concat_pair:
  assumes "\<And>i. i < n \<Longrightarrow> mset (X i) = mset (F i) + mset (G i)"
  shows "mset (concat (map X [0..<n])) = mset (concat (map F [0..<n])) + mset (concat (map G [0..<n]))"
  using assms by (induction n) simp_all

lemma concat_nth_singletons: "length xs = n \<Longrightarrow> concat (map (\<lambda>i. [xs ! i]) [0..<n]) = xs"
  using map_nth_upt[of xs n "\<lambda>r. [r]"] by (simp add: concat_map_singleton)

lemma free_list_Cons_fun: "free_list (p # ps) = (\<lambda>s. free_row p s \<bind> free_list ps)"
  by (rule ext) (rule free_list_Cons_bind)

lemma free_list_Nil_fun: "free_list [] = Some"
  by (rule ext) simp

lemma free_block_rows_eq:
  assumes "length nx = n" and "length QKV = n" and "length nxa = n" and "length m = n"
    and "length xa = n"
  shows "free_block_rows nx QKV nxa m xa n s =
           free_list (concat (map (\<lambda>i. ([nx ! i] @ triple_list (QKV ! i)) @ ([nxa ! i] @ ([m ! i] @ [xa ! i])))
             [0..<n])) s"
  unfolding free_block_rows_def
proof (rule for_loop_free_list)
  fix i t assume i: "i < n"
  obtain q k v where t: "QKV ! i = (q, k, v)" by (cases "QKV ! i") auto
  show "(do {
       p \<leftarrow> rd nx i;
       s \<leftarrow> free_row p t;
       (Qi, Ki, Vi) \<leftarrow> rd QKV i;
       s \<leftarrow> free_row Qi s;
       s \<leftarrow> free_row Ki s;
       s \<leftarrow> free_row Vi s;
       p \<leftarrow> rd nxa i;
       s \<leftarrow> free_row p s;
       p \<leftarrow> rd m i;
       s \<leftarrow> free_row p s;
       p \<leftarrow> rd xa i;
       free_row p s
     }) = free_list (([nx ! i] @ triple_list (QKV ! i)) @ ([nxa ! i] @ ([m ! i] @ [xa ! i]))) t"
    using i assms by (simp add: rd_def t triple_list_def free_list_Cons_fun free_list_Nil_fun del: free_list.simps)
qed

lemma free_block_rows_mset:
  assumes "length nx = n" and "length QKV = n" and "length nxa = n" and "length m = n"
    and "length xa = n"
  shows "mset (concat (map (\<lambda>i. ([nx ! i] @ triple_list (QKV ! i)) @ ([nxa ! i] @ ([m ! i] @ [xa ! i])))
             [0..<n]))
       = mset (nx @ concat (map triple_list QKV) @ nxa @ m @ xa)"
proof -
  have "mset (concat (map (\<lambda>i. ([nx ! i] @ triple_list (QKV ! i)) @ ([nxa ! i] @ ([m ! i] @ [xa ! i])))
             [0..<n]))
      = (mset (concat (map (\<lambda>i. [nx ! i]) [0..<n])) + mset (concat (map (\<lambda>i. triple_list (QKV ! i)) [0..<n])))
        + (mset (concat (map (\<lambda>i. [nxa ! i]) [0..<n]))
           + (mset (concat (map (\<lambda>i. [m ! i]) [0..<n])) + mset (concat (map (\<lambda>i. [xa ! i]) [0..<n]))))"
    by (simp only: mset_concat_pair[of n _ "\<lambda>i. [nx ! i] @ triple_list (QKV ! i)" "\<lambda>i. [nxa ! i] @ ([m ! i] @ [xa ! i])"]
        mset_concat_pair[of n _ "\<lambda>i. [nx ! i]" "\<lambda>i. triple_list (QKV ! i)"]
        mset_concat_pair[of n _ "\<lambda>i. [nxa ! i]" "\<lambda>i. [m ! i] @ [xa ! i]"]
        mset_concat_pair[of n _ "\<lambda>i. [m ! i]" "\<lambda>i. [xa ! i]"] mset_append)
  also have "\<dots> = (mset nx + mset (concat (map triple_list QKV))) + (mset nxa + (mset m + mset xa))"
    by (simp only: concat_nth_singletons[OF assms(1)] concat_nth_singletons[OF assms(3)]
        concat_nth_singletons[OF assms(4)] concat_nth_singletons[OF assms(5)]
        map_nth_upt[OF assms(2)])
  finally show ?thesis by (simp only: mset_append add.assoc)
qed

lemma free_block_rows_total:
  assumes "length nx = n" and "length QKV = n" and "length nxa = n" and "length m = n"
    and "length xa = n"
    and "distinct (nx @ concat (map triple_list QKV) @ nxa @ m @ xa)"
    and "\<forall>p\<in>set (nx @ concat (map triple_list QKV) @ nxa @ m @ xa). cells s p \<noteq> None"
  shows "\<exists>s'. free_block_rows nx QKV nxa m xa n s = Some s' \<and> brk s' = brk s \<and>
           (\<forall>p. cells s' p = (if p \<in> set (nx @ concat (map triple_list QKV) @ nxa @ m @ xa)
                               then None else cells s p))"
proof -
  let ?il = "concat (map (\<lambda>i. ([nx ! i] @ triple_list (QKV ! i)) @ ([nxa ! i] @ ([m ! i] @ [xa ! i])))
             [0..<n])"
  note ms = free_block_rows_mset[OF assms(1-5)]
  have d: "distinct ?il" using assms(6) mset_eq_imp_distinct_iff[OF ms] by simp
  have st: "set ?il = set (nx @ concat (map triple_list QKV) @ nxa @ m @ xa)"
    by (rule mset_eq_setD[OF ms])
  from free_list_total[OF d, of s] assms(7) st
  show ?thesis by (simp only: free_block_rows_eq[OF assms(1-5)])
qed

lemma free_head_rows_eq:
  assumes "length heads = NUM_HEADS" and "length hos = NUM_HEADS"
    and "\<forall>h<NUM_HEADS. length (heads ! h) = n \<and> length (hos ! h) = n"
  shows "free_head_rows heads hos n s =
           free_list (concat (map (\<lambda>h. concat (map (\<lambda>i. triple_list (heads ! h ! i) @ [hos ! h ! i]) [0..<n]))
             [0..<NUM_HEADS])) s"
  unfolding free_head_rows_def
proof (rule for_loop_free_list)
  fix h t assume h: "h < NUM_HEADS"
  show "for_loop [0..<n] (\<lambda>i s. do {
         head \<leftarrow> rd heads h;
         (Qhi, Khi, Vhi) \<leftarrow> rd head i;
         s \<leftarrow> free_row Qhi s;
         s \<leftarrow> free_row Khi s;
         s \<leftarrow> free_row Vhi s;
         head_output \<leftarrow> rd hos h;
         p \<leftarrow> rd head_output i;
         free_row p s
       }) t = free_list (concat (map (\<lambda>i. triple_list (heads ! h ! i) @ [hos ! h ! i]) [0..<n])) t"
  proof (rule for_loop_free_list)
    fix i u assume i: "i < n"
    obtain q k v where t: "heads ! h ! i = (q, k, v)" by (cases "heads ! h ! i") auto
    show "(do {
         head \<leftarrow> rd heads h;
         (Qhi, Khi, Vhi) \<leftarrow> rd head i;
         s \<leftarrow> free_row Qhi u;
         s \<leftarrow> free_row Khi s;
         s \<leftarrow> free_row Vhi s;
         head_output \<leftarrow> rd hos h;
         p \<leftarrow> rd head_output i;
         free_row p s
       }) = free_list (triple_list (heads ! h ! i) @ [hos ! h ! i]) u"
      using i h assms
      by (simp add: rd_def t triple_list_def free_list_Cons_fun free_list_Nil_fun del: free_list.simps)
  qed
qed

lemma free_head_rows_mset:
  assumes "length heads = NUM_HEADS" and "length hos = NUM_HEADS"
    and "\<forall>h<NUM_HEADS. length (heads ! h) = n \<and> length (hos ! h) = n"
  shows "mset (concat (map (\<lambda>h. concat (map (\<lambda>i. triple_list (heads ! h ! i) @ [hos ! h ! i]) [0..<n]))
             [0..<NUM_HEADS]))
       = mset (concat (map (\<lambda>head. concat (map triple_list head)) heads) @ concat hos)"
proof -
  have inner: "mset (concat (map (\<lambda>i. triple_list (heads ! h ! i) @ [hos ! h ! i]) [0..<n]))
      = mset (concat (map triple_list (heads ! h))) + mset (hos ! h)" if "h < NUM_HEADS" for h
  proof -
    from assms(3) that have l: "length (heads ! h) = n" "length (hos ! h) = n" by simp_all
    have "mset (concat (map (\<lambda>i. triple_list (heads ! h ! i) @ [hos ! h ! i]) [0..<n]))
        = mset (concat (map (\<lambda>i. triple_list (heads ! h ! i)) [0..<n]))
          + mset (concat (map (\<lambda>i. [hos ! h ! i]) [0..<n]))"
      by (rule mset_concat_pair) simp
    then show ?thesis
      by (simp only: concat_nth_singletons[OF l(2)] map_nth_upt[OF l(1)])
  qed
  have "mset (concat (map (\<lambda>h. concat (map (\<lambda>i. triple_list (heads ! h ! i) @ [hos ! h ! i]) [0..<n]))
             [0..<NUM_HEADS]))
      = mset (concat (map (\<lambda>h. concat (map triple_list (heads ! h))) [0..<NUM_HEADS]))
        + mset (concat (map (\<lambda>h. hos ! h) [0..<NUM_HEADS]))"
    by (rule mset_concat_pair) (rule inner)
  moreover have "map (\<lambda>h. hos ! h) [0..<NUM_HEADS] = hos" using assms(2) map_nth[of hos] by simp
  moreover have "map (\<lambda>h. concat (map triple_list (heads ! h))) [0..<NUM_HEADS]
      = map (\<lambda>head. concat (map triple_list head)) heads"
    by (rule map_nth_upt[OF assms(1)])
  ultimately show ?thesis by simp
qed

lemma free_head_rows_total:
  assumes "length heads = NUM_HEADS" and "length hos = NUM_HEADS"
    and "\<forall>h<NUM_HEADS. length (heads ! h) = n \<and> length (hos ! h) = n"
    and "distinct (concat (map (\<lambda>head. concat (map triple_list head)) heads) @ concat hos)"
    and "\<forall>p\<in>set (concat (map (\<lambda>head. concat (map triple_list head)) heads) @ concat hos).
           cells s p \<noteq> None"
  shows "\<exists>s'. free_head_rows heads hos n s = Some s' \<and> brk s' = brk s \<and>
           (\<forall>p. cells s' p =
              (if p \<in> set (concat (map (\<lambda>head. concat (map triple_list head)) heads) @ concat hos)
               then None else cells s p))"
proof -
  let ?il = "concat (map (\<lambda>h. concat (map (\<lambda>i. triple_list (heads ! h ! i) @ [hos ! h ! i]) [0..<n]))
             [0..<NUM_HEADS])"
  note ms = free_head_rows_mset[OF assms(1-3)]
  have d: "distinct ?il" using assms(4) mset_eq_imp_distinct_iff[OF ms] by simp
  have st: "set ?il = set (concat (map (\<lambda>head. concat (map triple_list head)) heads) @ concat hos)"
    by (rule mset_eq_setD[OF ms])
  from free_list_total[OF d, of s] assms(5) st
  show ?thesis by (simp only: free_head_rows_eq[OF assms(1-3)])
qed

subsection \<open>The block returns, and what it leaves in the store\<close>

lemma holds_live: "holds s ps rows \<Longrightarrow> \<forall>p\<in>set ps. cells s p \<noteq> None"
  using holds_nth[of s ps rows] by (auto simp: in_set_conv_nth)

lemma triple_parts:
  "set (map fst T) \<subseteq> set (concat (map triple_list T))"
  "set (map (fst \<circ> snd) T) \<subseteq> set (concat (map triple_list T))"
  "set (map (snd \<circ> snd) T) \<subseteq> set (concat (map triple_list T))"
  by (auto simp: triple_list_def)

lemma block_st_total:
  assumes wf: "wf_store s" and below: "\<forall>p\<in>set x. p < brk s"
    and pure: "block (view s x) n E w = Some Y"
  shows "\<exists>out s'. block_st x n E w s = Some (out, s') \<and> holds s' out Y \<and> wf_store s'"
proof -
  from pure obtain NX QKVv headsv hosv av XAv NXAv Mv where p:
    "norm_layer (view s x) n E = Some NX"
    "project_qkv NX n w = Some QKVv"
    "split_heads (map fst QKVv) (map (fst \<circ> snd) QKVv) (map (snd \<circ> snd) QKVv) n = Some headsv"
    "attention_heads headsv n = Some hosv"
    "concat_heads hosv n E = Some av"
    "matrix_add (view s x) av n E = Some XAv"
    "norm_layer XAv n E = Some NXAv"
    "mlp_rows NXAv n w = Some Mv"
    "matrix_add XAv Mv n E = Some Y"
    by (auto simp: block_def multi_head_attention_def bind_eq_Some_conv)
  have lens: "length NX = n" "length QKVv = n" "length headsv = NUM_HEADS" "length hosv = NUM_HEADS"
    "length XAv = n" "length NXAv = n" "length Mv = n"
    using p by (auto simp: norm_layer_def project_qkv_def split_heads_def attention_heads_def
        matrix_add_def mlp_rows_def dest: build_length)
  have lenhv: "length (headsv ! h) = n" if "h < NUM_HEADS" for h
    using build_nth[OF p(3)[unfolded split_heads_def] that] by (rule build_length)
  have lenov: "length (hosv ! h) = n" if "h < NUM_HEADS" for h
    using attention_heads_shape(2)[OF p(4) that] .
  \<comment> \<open>normalized_x = norm(x)\<close>
  from norm_st_total[OF wf p(1) below] obtain nx s1 where
    e1: "norm_st x n E s = Some (nx, s1)" and F1: "fresh_rows s nx s1 NX" by blast
  note wf1 = fresh_rows_wf[OF F1]
  have v1: "view s1 nx = NX" using F1 by (simp add: fresh_rows_def holds_view)
  \<comment> \<open>Q, K, V\<close>
  from project_qkv_st_total[OF wf1, of nx n w QKVv] p(2) v1 fresh_rows_below[OF F1]
  obtain QKV s2 where e2: "project_qkv_st nx n w s1 = Some (QKV, s2)" and l2: "length QKV = n"
    and F2: "fresh_rows s1 (concat (map triple_list QKV)) s2 (concat (map triple_list QKVv))"
    and h2: "holds s2 (map fst QKV) (map fst QKVv)"
      "holds s2 (map (fst \<circ> snd) QKV) (map (fst \<circ> snd) QKVv)"
      "holds s2 (map (snd \<circ> snd) QKV) (map (snd \<circ> snd) QKVv)"
    by auto
  define PQ where "PQ = concat (map triple_list QKV)"
  note wf2 = fresh_rows_wf[OF F2]
  have b2: "\<forall>p\<in>set (map fst QKV). p < brk s2" "\<forall>p\<in>set (map (fst \<circ> snd) QKV). p < brk s2"
    "\<forall>p\<in>set (map (snd \<circ> snd) QKV). p < brk s2"
    using fresh_rows_below[OF F2] triple_parts[of QKV] by blast+
  \<comment> \<open>the heads\<close>
  from split_heads_st_total[OF wf2, of "map fst QKV" "map (fst \<circ> snd) QKV" "map (snd \<circ> snd) QKV" n headsv]
    p(3) h2 b2
  obtain heads s3 where
    e3: "split_heads_st (map fst QKV) (map (fst \<circ> snd) QKV) (map (snd \<circ> snd) QKV) n s2 = Some (heads, s3)"
    and l3: "length heads = NUM_HEADS"
    and F3: "fresh_rows s2 (concat (map (\<lambda>head. concat (map triple_list head)) heads)) s3
               (concat (map (\<lambda>head. concat (map triple_list head)) headsv))"
    and h3: "\<forall>h<NUM_HEADS. length (heads ! h) = n \<and>
               holds s3 (concat (map triple_list (heads ! h))) (concat (map triple_list (headsv ! h)))"
    by (auto simp: holds_view)
  define PH where "PH = concat (map (\<lambda>head. concat (map triple_list head)) heads)"
  note wf3 = fresh_rows_wf[OF F3]
  have b3: "\<forall>h<NUM_HEADS. \<forall>p\<in>set (concat (map triple_list (heads ! h))). p < brk s3"
  proof (intro allI impI ballI)
    fix h p assume "h < NUM_HEADS" and pin: "p \<in> set (concat (map triple_list (heads ! h)))"
    then have "heads ! h \<in> set heads" using l3 by simp
    with pin have "p \<in> set (concat (map (\<lambda>head. concat (map triple_list head)) heads))" by auto
    with fresh_rows_below[OF F3] show "p < brk s3" by blast
  qed
  \<comment> \<open>attention in each head\<close>
  from attention_heads_st_total[OF wf3 p(4) l3 lens(3) _ b3] h3 lenhv
  obtain hos s4 where e4: "attention_heads_st heads n s3 = Some (hos, s4)"
    and l4: "length hos = NUM_HEADS"
    and F4: "fresh_rows s3 (concat hos) s4 (concat hosv)"
    and h4: "\<forall>h<NUM_HEADS. holds s4 (hos ! h) (hosv ! h)"
    by auto
  note wf4 = fresh_rows_wf[OF F4]
  have lo: "length (hos ! h) = n" if "h < NUM_HEADS" for h
    using h4 that lenov[OF that] by (auto dest: holds_length)
  have b4: "\<forall>h<length hos. \<forall>p\<in>set (hos ! h). p < brk s4"
  proof (intro allI impI ballI)
    fix h p assume "h < length hos" and pin: "p \<in> set (hos ! h)"
    then have "hos ! h \<in> set hos" by simp
    with pin have "p \<in> set (concat hos)" by auto
    with fresh_rows_below[OF F4] show "p < brk s4" by blast
  qed
  \<comment> \<open>a\<close>
  from concat_heads_st_total[OF wf4 p(5), of hos] l4 lens(4) h4 b4
  obtain a s5 where e5: "concat_heads_st hos n E s4 = Some (a, s5)"
    and F5: "fresh_rows s4 a s5 av"
    by auto
  note wf5 = fresh_rows_wf[OF F5]
  note G2 = fresh_rows_append[OF F1 F2]
  note G3 = fresh_rows_append[OF G2 F3]
  note G4 = fresh_rows_append[OF G3 F4]
  note G5 = fresh_rows_append[OF G4 F5]
  \<comment> \<open>x_added = x + a\<close>
  have v5: "view s5 x = view s x" by (rule view_keeps[OF fresh_rows_keeps[OF G5] below])
  have va: "view s5 a = av" using F5 by (simp add: fresh_rows_def holds_view)
  have bx5: "\<forall>p\<in>set x. p < brk s5"
    using below fresh_rows_keeps[OF G5] by (fastforce simp: keeps_def)
  from matrix_add_st_total[OF wf5, of x a n E XAv, OF _ bx5 fresh_rows_below[OF F5]] p(6) v5 va
  obtain xa s6 where e6: "matrix_add_st x a n E s5 = Some (xa, s6)"
    and F6: "fresh_rows s5 xa s6 XAv"
    by auto
  note wf6 = fresh_rows_wf[OF F6]
  have v6: "view s6 xa = XAv" using F6 by (simp add: fresh_rows_def holds_view)
  \<comment> \<open>normalized_x_added\<close>
  from norm_st_total[OF wf6, of xa n E NXAv, OF _ fresh_rows_below[OF F6]] p(7) v6
  obtain nxa s7 where e7: "norm_st xa n E s6 = Some (nxa, s7)"
    and F7: "fresh_rows s6 nxa s7 NXAv"
    by auto
  note wf7 = fresh_rows_wf[OF F7]
  have v7: "view s7 nxa = NXAv" using F7 by (simp add: fresh_rows_def holds_view)
  \<comment> \<open>m\<close>
  from mlp_rows_st_total[OF wf7, of nxa n w Mv] p(8) v7 fresh_rows_below[OF F7]
  obtain m s8 where e8: "mlp_rows_st nxa n w s7 = Some (m, s8)"
    and F8: "fresh_rows s7 m s8 Mv"
    by auto
  note wf8 = fresh_rows_wf[OF F8]
  have vm: "view s8 m = Mv" using F8 by (simp add: fresh_rows_def holds_view)
  have "holds s8 xa XAv"
    by (rule holds_keeps[OF fresh_rows_holds[OF F6]
          fresh_rows_keeps[OF fresh_rows_append[OF F7 F8]] fresh_rows_below[OF F6]])
  then have v8: "view s8 xa = XAv" by (rule holds_view)
  \<comment> \<open>output = x_added + m\<close>
  have bxa8: "\<forall>p\<in>set xa. p < brk s8"
    using fresh_rows_below[OF F6] fresh_rows_keeps[OF fresh_rows_append[OF F7 F8]]
    by (fastforce simp: keeps_def)
  from matrix_add_st_total[OF wf8, of xa m n E Y, OF _ bxa8 fresh_rows_below[OF F8]] p(9) v8 vm
  obtain out s9 where e9: "matrix_add_st xa m n E s8 = Some (out, s9)"
    and F9: "fresh_rows s8 out s9 Y"
    by auto
  note G9 = fresh_rows_append[OF fresh_rows_append[OF fresh_rows_append[OF
        fresh_rows_append[OF G5 F6] F7] F8] F9]
  note wf9 = fresh_rows_wf[OF F9]
  from G9 have dist: "distinct (nx @ PQ @ PH @ concat hos @ a @ xa @ nxa @ m @ out)"
    by (simp add: fresh_rows_def PQ_def PH_def)
  have live: "\<forall>p\<in>set (nx @ PQ @ PH @ concat hos @ a @ xa @ nxa @ m @ out). cells s9 p \<noteq> None"
    using holds_live[OF fresh_rows_holds[OF G9]] by (simp add: PQ_def PH_def)
  have ln: "length nx = n" "length xa = n" "length nxa = n" "length m = n"
    using F1 F6 F7 F8 lens by (auto simp: fresh_rows_def dest: holds_length)
  \<comment> \<open>the rows freed\<close>
  have d1: "distinct (nx @ PQ @ nxa @ m @ xa)" using dist by auto
  have live1: "\<forall>p\<in>set (nx @ PQ @ nxa @ m @ xa). cells s9 p \<noteq> None" using live by auto
  from free_block_rows_total[OF ln(1) l2 ln(3) ln(4) ln(2) d1[unfolded PQ_def] live1[unfolded PQ_def]]
  obtain s10 where e10: "free_block_rows nx QKV nxa m xa n s9 = Some s10"
    and brk10: "brk s10 = brk s9"
    and c10: "\<forall>p. cells s10 p = (if p \<in> set (nx @ PQ @ nxa @ m @ xa) then None else cells s9 p)"
    unfolding PQ_def by blast
  have d2: "distinct (PH @ concat hos)" using dist by auto
  have live2: "\<forall>p\<in>set (PH @ concat hos). cells s10 p \<noteq> None"
    using live dist c10 by auto
  have lh: "\<forall>h<NUM_HEADS. length (heads ! h) = n \<and> length (hos ! h) = n"
    using h3 lo by simp
  from free_head_rows_total[OF l3 l4 lh d2[unfolded PH_def] live2[unfolded PH_def]]
  obtain s11 where e11: "free_head_rows heads hos n s10 = Some s11"
    and brk11: "brk s11 = brk s10"
    and c11: "\<forall>p. cells s11 p = (if p \<in> set (PH @ concat hos) then None else cells s10 p)"
    unfolding PH_def by blast
  have run: "block_st x n E w s = Some (out, s11)"
    by (simp add: block_st_def e1 e2 e3 e4 e5 e6 e7 e8 e9 e10 e11)
  have "map (cells s11) out = map (cells s9) out"
    by (rule map_cong) (use dist c10 c11 in auto)
  with fresh_rows_holds[OF F9] have ho: "holds s11 out Y" by (simp add: holds_def)
  have "wf_store s11"
    using wf9 c10 c11 brk10 brk11 by (auto simp: wf_store_def split: if_splits)
  with run ho show ?thesis by blast
qed

lemma example_store_wf: "wf_store example_store"
  by (simp add: wf_store_def example_store_def)

lemma example_store_view: "view example_store [0..<64] = replicate 64 (replicate EMBEDDING_SIZE 1)"
  by (simp add: list_eq_iff_nth_eq view_def row_of_def example_store_def)

text \<open>
  Claim C9. \<^verbatim>\<open>block\<close> never changes its input in place: when
  \<^verbatim>\<open>block(x, seqLength, embeddingSize, weights)\<close> returns, every row of \<open>x\<close> holds what it
  held before the call. More: every buffer handed out before the call is as it was, live
  or not, so neither \<^verbatim>\<open>block\<close> nor a function it calls writes to or frees anything of
  the caller's; and the rows returned hold the value \<open>block\<close> computes from the contents
  \<open>x\<close> had before the call, so the two residual additions read \<open>x\<close> and \<open>x_added\<close> as they
  were. The rows of \<open>x\<close> are any addresses handed out before the call; two of them may be
  the same buffer.
\<close>

theorem block_keeps_input:
  assumes "wf_store s" and "\<forall>p\<in>set x. p < brk s"
    and "block_st x seqLength embeddingSize w s = Some (output, s')"
  shows "view s' x = view s x \<and> (\<forall>p<brk s. cells s' p = cells s p) \<and>
         (\<forall>Y. block (view s x) seqLength embeddingSize w = Some Y \<longrightarrow> view s' output = Y)"
proof -
  from block_st_keeps[OF assms(3)] have k: "keeps (brk s) s s'" .
  from view_keeps[OF k assms(2)] have "view s' x = view s x" .
  moreover from k have "\<forall>p<brk s. cells s' p = cells s p" by (simp add: keeps_def)
  moreover have "view s' output = Y" if "block (view s x) seqLength embeddingSize w = Some Y" for Y
    using block_st_total[OF assms(1,2) that] assms(3) by (auto simp: holds_view)
  ultimately show ?thesis by blast
qed

theorem block_keeps_input_witness:
  "\<exists>output s'. block_st [0..<64] 64 EMBEDDING_SIZE example_block example_store = Some (output, s')
     \<and> view s' [0..<64] = view example_store [0..<64]
     \<and> view s' output = block_spec (replicate 64 (replicate EMBEDDING_SIZE 1)) example_block"
proof -
  have pure: "block (view example_store [0..<64]) 64 EMBEDDING_SIZE example_block
      = Some (block_spec (replicate 64 (replicate EMBEDDING_SIZE 1)) example_block)"
    unfolding example_store_view
    by (rule block_value) (simp_all add: example_block_ok HEAD_DIM_64)
  have below: "\<forall>p\<in>set [0..<64]. p < brk example_store" by (simp add: example_store_def)
  from block_st_total[OF example_store_wf below pure] obtain out s' where
    run: "block_st [0..<64] 64 EMBEDDING_SIZE example_block example_store = Some (out, s')"
    by blast
  from block_keeps_input[OF example_store_wf below run] pure run show ?thesis by simp
qed

section \<open>The values computed: proofs\<close>

subsection \<open>Loops on four lanes\<close>

lemma store_loop_fp:
  assumes "step = 4" and "4 dvd n" and "4 dvd j" and "n \<le> length out"
    and "\<And>k buf. k \<in> set (count_by step j n) \<Longrightarrow>
           body k buf = storeu_fp buf k (Lanes (g k) (g (k + 1)) (g (k + 2)) (g (k + 3)))"
  shows "\<exists>r. for_loop (count_by step j n) body out = Some r \<and> length r = length out \<and>
              (\<forall>k<length out. r ! k = (if j \<le> k \<and> k < n then g k else out ! k))"
  using assms
proof (induction step j n arbitrary: out rule: count_by.induct)
  case (1 step lo hi)
  show ?case
  proof (cases "lo < hi")
    case True
    with "1.prems" have le: "lo + 4 \<le> hi" by presburger
    have unf: "count_by step lo hi = lo # count_by step (lo + 4) hi"
      using True "1.prems"(1) by (simp add: count_by_Cons)
    define out1 where "out1 = out[lo := g lo, lo + 1 := g (lo + 1), lo + 2 := g (lo + 2), lo + 3 := g (lo + 3)]"
    have first: "body lo out = Some out1"
      using "1.prems"(5)[of lo out] unf le "1.prems"(4) by (simp add: out1_def)
    have rest: "\<And>k buf. k \<in> set (count_by step (lo + step) hi) \<Longrightarrow>
           body k buf = storeu_fp buf k (Lanes (g k) (g (k + 1)) (g (k + 2)) (g (k + 3)))"
      using "1.prems"(5) unf "1.prems"(1) by simp
    have "\<exists>r. for_loop (count_by step (lo + step) hi) body out1 = Some r \<and> length r = length out1 \<and>
              (\<forall>k<length out1. r ! k = (if lo + step \<le> k \<and> k < hi then g k else out1 ! k))"
      using "1.IH"[of out1] True "1.prems"(1-4) rest by (simp add: out1_def)
    then obtain r where r: "for_loop (count_by step (lo + 4) hi) body out1 = Some r"
        "length r = length out"
        "\<forall>k<length out. r ! k = (if lo + 4 \<le> k \<and> k < hi then g k else out1 ! k)"
      using "1.prems"(1) by (auto simp: out1_def)
    have "\<forall>k<length out. r ! k = (if lo \<le> k \<and> k < hi then g k else out ! k)"
    proof (intro allI impI)
      fix k assume k: "k < length out"
      consider "k = lo" | "k = lo + 1" | "k = lo + 2" | "k = lo + 3" | "k < lo" | "lo + 4 \<le> k"
        by linarith
      then show "r ! k = (if lo \<le> k \<and> k < hi then g k else out ! k)"
        using r(3) k le by cases (auto simp: out1_def nth_list_update)
    qed
    then show ?thesis using r(1,2) first unf by simp
  next
    case False
    then show ?thesis by (auto simp: count_by_Nil)
  qed
qed

text \<open>The accumulator of a dot product: lane \<open>k\<close> takes the products at \<open>k\<close>, \<open>k + 4\<close>, ...
  one after the other.\<close>

lemma lanes_loop:
  assumes "step = 4" and "n \<le> length a" and "n \<le> length b" and "4 dvd n" and "4 dvd j"
  shows "for_loop (count_by step j n) (\<lambda>j r. do {
             av \<leftarrow> loadu_fp a j;
             bv \<leftarrow> loadu_fp b j;
             Some (add_fp ar r (mul_fp ar av bv)) }) (Lanes c0 c1 c2 c3)
         = Some (Lanes
             (foldl (\<lambda>acc q. fadd ar acc (fmul ar (a ! (4 * q + 0)) (b ! (4 * q + 0)))) c0 [j div 4..<n div 4])
             (foldl (\<lambda>acc q. fadd ar acc (fmul ar (a ! (4 * q + 1)) (b ! (4 * q + 1)))) c1 [j div 4..<n div 4])
             (foldl (\<lambda>acc q. fadd ar acc (fmul ar (a ! (4 * q + 2)) (b ! (4 * q + 2)))) c2 [j div 4..<n div 4])
             (foldl (\<lambda>acc q. fadd ar acc (fmul ar (a ! (4 * q + 3)) (b ! (4 * q + 3)))) c3 [j div 4..<n div 4]))"
  using assms
proof (induction step j n arbitrary: c0 c1 c2 c3 rule: count_by.induct)
  case (1 step lo hi)
  show ?case
  proof (cases "lo < hi")
    case True
    with "1.prems" have le: "lo + 4 \<le> hi" by presburger
    have d: "4 dvd lo + 4" using "1.prems" by simp
    have q: "(lo + 4) div 4 = Suc (lo div 4)" by simp
    have lt: "lo div 4 < hi div 4" using le "1.prems"(4,5) by (auto elim!: dvdE)
    have at: "4 * (lo div 4) = lo" using "1.prems"(5) by simp
    have la: "loadu_fp a lo = Some (Lanes (a ! lo) (a ! (lo + 1)) (a ! (lo + 2)) (a ! (lo + 3)))"
      and lb: "loadu_fp b lo = Some (Lanes (b ! lo) (b ! (lo + 1)) (b ! (lo + 2)) (b ! (lo + 3)))"
      using le "1.prems" by (simp_all add: loadu_fp_def)
    have unf: "count_by 4 lo hi = lo # count_by 4 (lo + 4) hi"
      using True by (simp add: count_by_Cons)
    have up: "[lo div 4..<hi div 4] = lo div 4 # [Suc (lo div 4)..<hi div 4]"
      using lt by (simp add: upt_conv_Cons)
    from "1.IH"[of "fadd ar c0 (fmul ar (a ! lo) (b ! lo))"
        "fadd ar c1 (fmul ar (a ! (lo + 1)) (b ! (lo + 1)))"
        "fadd ar c2 (fmul ar (a ! (lo + 2)) (b ! (lo + 2)))"
        "fadd ar c3 (fmul ar (a ! (lo + 3)) (b ! (lo + 3)))"] True "1.prems" d
    show ?thesis
      by (simp add: unf la lb up q at del: upt_Suc)
  next
    case False
    then have "hi div 4 \<le> lo div 4" by (simp add: div_le_mono)
    with False show ?thesis by (simp add: count_by_Nil)
  qed
qed

subsection \<open>gelu\<close>

lemma gelu_fp_value:
  assumes "length x = n" and "4 dvd n"
  shows "gelu_fp ar x n = Some (map (\<lambda>v. fmul ar v (fhalf ar)) x)"
proof -
  let ?body = "\<lambda>i output. do {
         input_vals \<leftarrow> loadu_fp x i;
         let result = mul_fp ar input_vals (set1_fp (fhalf ar));
         storeu_fp output i result }"
  let ?g = "\<lambda>k. fmul ar (x ! k) (fhalf ar)"
  have body: "?body k buf = storeu_fp buf k (Lanes (?g k) (?g (k + 1)) (?g (k + 2)) (?g (k + 3)))"
    if "k \<in> set (count_by 4 0 n)" for k buf
  proof -
    from that have "k < n" "4 dvd k" by (simp_all add: set_count_by)
    with assms have "k + 4 \<le> length x" by presburger
    then show ?thesis by (simp add: loadu_fp_def set1_fp_def)
  qed
  obtain r where r: "for_loop (count_by 4 0 n) ?body (malloc_fp ar n) = Some r"
    "length r = n" "\<forall>k<n. r ! k = ?g k"
    using store_loop_fp[of 4 n 0 "malloc_fp ar n" ?body ?g, OF refl assms(2) _ _ body]
    by (auto simp: malloc_fp_def)
  have "r = map (\<lambda>v. fmul ar v (fhalf ar)) x"
    using r(2,3) assms(1) by (auto simp: list_eq_iff_nth_eq)
  with r(1) show ?thesis by (simp add: gelu_fp_def)
qed

subsection \<open>linear\<close>

lemma linear_fp_value:
  assumes "length fcInput = n" and "4 dvd n"
    and "length wts = m" and "\<forall>r\<in>set wts. length r = n" and "length bs = m"
  shows "linear_fp ar fcInput wts bs n m =
           Some (map (\<lambda>i. fadd ar (lane_dot ar fcInput (wts ! i)) (bs ! i)) [0..<m])"
  unfolding linear_fp_def
proof (rule build_eq_map)
  fix i
  assume i: "i < m"
  then have row: "length (wts ! i) = n" using assms by simp
  have body: "(\<lambda>j result. do {
           input_vals \<leftarrow> loadu_fp fcInput j;
           wrow \<leftarrow> rd wts i;
           weight_vals \<leftarrow> loadu_fp wrow j;
           Some (add_fp ar result (mul_fp ar input_vals weight_vals)) })
     = (\<lambda>j result. do {
           input_vals \<leftarrow> loadu_fp fcInput j;
           weight_vals \<leftarrow> loadu_fp (wts ! i) j;
           Some (add_fp ar result (mul_fp ar input_vals weight_vals)) })"
    using i assms by (simp add: rd_def)
  have loop: "for_loop (count_by 4 0 n) (\<lambda>j result. do {
           input_vals \<leftarrow> loadu_fp fcInput j;
           weight_vals \<leftarrow> loadu_fp (wts ! i) j;
           Some (add_fp ar result (mul_fp ar input_vals weight_vals)) }) (setzero_fp ar)
      = Some (Lanes (lane_sum ar fcInput (wts ! i) 0) (lane_sum ar fcInput (wts ! i) 1)
                (lane_sum ar fcInput (wts ! i) 2) (lane_sum ar fcInput (wts ! i) 3))"
    using lanes_loop[of 4 n fcInput "wts ! i" 0 ar "fzero ar" "fzero ar" "fzero ar" "fzero ar"]
      assms(1,2) row
    by (simp add: setzero_fp_def lane_sum_def)
  show "do {
       result \<leftarrow> for_loop (count_by 4 0 n) (\<lambda>j result. do {
           input_vals \<leftarrow> loadu_fp fcInput j;
           wrow \<leftarrow> rd wts i;
           weight_vals \<leftarrow> loadu_fp wrow j;
           Some (add_fp ar result (mul_fp ar input_vals weight_vals))
         }) (setzero_fp ar);
       b \<leftarrow> rd bs i;
       Some (fadd ar (hsum_fp ar result) b)
     } = Some (fadd ar (lane_dot ar fcInput (wts ! i)) (bs ! i))"
    unfolding body using loop i assms by (simp add: rd_def lane_dot_def)
qed

subsection \<open>norm\<close>

text \<open>A loop that adds up the cells of a row, one after the other.\<close>

lemma fold_loop:
  assumes "i < length x" and "n \<le> length (x ! i)"
  shows "for_loop [0..<n] (\<lambda>j acc. do {
             xi \<leftarrow> rd x i;
             xij \<leftarrow> rd xi j;
             Some (h acc xij) }) a0 = Some (foldl h a0 (take n (x ! i)))"
  using assms(2)
proof (induction n)
  case 0
  then show ?case by simp
next
  case (Suc n)
  then have IH: "for_loop [0..<n] (\<lambda>j acc. do {
             xi \<leftarrow> rd x i;
             xij \<leftarrow> rd xi j;
             Some (h acc xij) }) a0 = Some (foldl h a0 (take n (x ! i)))" by simp
  from Suc.prems have n: "n < length (x ! i)" by simp
  have "for_loop ([0..<n] @ [n]) (\<lambda>j acc. do {
             xi \<leftarrow> rd x i;
             xij \<leftarrow> rd xi j;
             Some (h acc xij) }) a0 = Some (h (foldl h a0 (take n (x ! i))) (x ! i ! n))"
    using IH assms(1) n by (simp add: for_loop_append rd_def)
  then show ?case using n by (simp add: take_Suc_conv_app_nth)
qed

lemma norm_fp_value:
  assumes "length x = seqLength" and "\<forall>r\<in>set x. length r = features"
  shows "norm_fp ar x seqLength features = Some (map (normalize_row_fp ar) x)"
proof -
  have row: "(do {
       mean \<leftarrow> for_loop [0..<features] (\<lambda>j mean. do {
           xi \<leftarrow> rd x i;
           xij \<leftarrow> rd xi j;
           Some (fadd ar mean xij)
         }) (fzero ar);
       let mean = fdiv ar mean (float_of_int ar features);
       variance \<leftarrow> for_loop [0..<features] (\<lambda>j variance. do {
           xi \<leftarrow> rd x i;
           xij \<leftarrow> rd xi j;
           Some (fadd ar variance (fmul ar (fsub ar xij mean) (fsub ar xij mean)))
         }) (fzero ar);
       let variance = fdiv ar variance (float_of_int ar features);
       build features (\<lambda>j. do {
           xi \<leftarrow> rd x i;
           xij \<leftarrow> rd xi j;
           Some (float_of_double ar
                  (ddiv ar (double_of_float ar (fsub ar xij mean))
                     (dsqrt ar (dadd ar (double_of_float ar variance) (depsilon ar)))))
         })
     }) = Some (normalize_row_fp ar (x ! i))" if i: "i < seqLength" for i
  proof -
    from i assms have ix: "i < length x" and len: "length (x ! i) = features" by simp_all
    have m: "for_loop [0..<features] (\<lambda>j mean. do {
           xi \<leftarrow> rd x i;
           xij \<leftarrow> rd xi j;
           Some (fadd ar mean xij)
         }) (fzero ar) = Some (foldl (fadd ar) (fzero ar) (x ! i))"
      using fold_loop[OF ix, of features "fadd ar" "fzero ar"] len by simp
    have v: "for_loop [0..<features] (\<lambda>j variance. do {
           xi \<leftarrow> rd x i;
           xij \<leftarrow> rd xi j;
           Some (fadd ar variance (fmul ar (fsub ar xij mean) (fsub ar xij mean)))
         }) (fzero ar)
        = Some (foldl (\<lambda>v xij. fadd ar v (fmul ar (fsub ar xij mean) (fsub ar xij mean)))
                  (fzero ar) (x ! i))" for mean
      using fold_loop[OF ix, of features
          "\<lambda>v xij. fadd ar v (fmul ar (fsub ar xij mean) (fsub ar xij mean))" "fzero ar"] len
      by simp
    have w: "build features (\<lambda>j. do {
           xi \<leftarrow> rd x i;
           xij \<leftarrow> rd xi j;
           Some (g xij)
         }) = Some (map g (x ! i))" for g :: "'a \<Rightarrow> 'a"
    proof -
      have "build features (\<lambda>j. do {
           xi \<leftarrow> rd x i;
           xij \<leftarrow> rd xi j;
           Some (g xij)
         }) = Some (map (\<lambda>j. g (x ! i ! j)) [0..<features])"
        by (rule build_eq_map) (use ix len in \<open>simp add: rd_def\<close>)
      also have "map (\<lambda>j. g (x ! i ! j)) [0..<features] = map g (x ! i)"
        using len by (auto simp: list_eq_iff_nth_eq)
      finally show ?thesis .
    qed
    show ?thesis
      by (simp add: m v w Let_def normalize_row_fp_def mean_fp_def variance_fp_def len)
  qed
  have "norm_fp ar x seqLength features = Some (map (\<lambda>i. normalize_row_fp ar (x ! i)) [0..<seqLength])"
    unfolding norm_fp_def by (rule build_eq_map) (rule row)
  also have "map (\<lambda>i. normalize_row_fp ar (x ! i)) [0..<seqLength] = map (normalize_row_fp ar) x"
    using assms(1) by (auto simp: list_eq_iff_nth_eq)
  finally show ?thesis .
qed

subsection \<open>scaled\_dot\_product\_attention\<close>

lemma lanes_loop_rows:
  assumes "i < length Q" and "j < length K" and "length (Q ! i) = depth" and "length (K ! j) = depth"
    and "4 dvd depth"
  shows "for_loop (count_by 4 0 depth) (\<lambda>k_idx sum. do {
                       Qi \<leftarrow> rd Q i;
                       q_vals \<leftarrow> loadu_fp Qi k_idx;
                       Kj \<leftarrow> rd K j;
                       k_vals \<leftarrow> loadu_fp Kj k_idx;
                       Some (add_fp ar sum (mul_fp ar q_vals k_vals))
                     }) (setzero_fp ar)
         = Some (Lanes (lane_sum ar (Q ! i) (K ! j) 0) (lane_sum ar (Q ! i) (K ! j) 1)
                   (lane_sum ar (Q ! i) (K ! j) 2) (lane_sum ar (Q ! i) (K ! j) 3))"
proof -
  have body: "(\<lambda>k_idx sum. do {
                       Qi \<leftarrow> rd Q i;
                       q_vals \<leftarrow> loadu_fp Qi k_idx;
                       Kj \<leftarrow> rd K j;
                       k_vals \<leftarrow> loadu_fp Kj k_idx;
                       Some (add_fp ar sum (mul_fp ar q_vals k_vals)) })
     = (\<lambda>k_idx sum. do {
           av \<leftarrow> loadu_fp (Q ! i) k_idx;
           bv \<leftarrow> loadu_fp (K ! j) k_idx;
           Some (add_fp ar sum (mul_fp ar av bv)) })"
    using assms(1,2) by (simp add: rd_def)
  show ?thesis
    unfolding body
    using lanes_loop[of 4 depth "Q ! i" "K ! j" 0 ar "fzero ar" "fzero ar" "fzero ar" "fzero ar"]
      assms(3-5)
    by (simp add: setzero_fp_def lane_sum_def)
qed

lemma wr2_fp_Some:
  "i < length a \<Longrightarrow> j < length (a ! i) \<Longrightarrow> wr2_fp a i j v = Some (a[i := (a ! i)[j := v]])"
  by (simp add: wr2_fp_def rd_def wr_def)

lemma sdpa_fp_value:
  assumes "length Q = seqLength" and "\<forall>r\<in>set Q. length r = depth"
    and "length K = seqLength" and "\<forall>r\<in>set K. length r = depth"
    and "4 dvd depth"
  shows "sdpa_fp ar Q K V seqLength depth =
           Some (map (\<lambda>i. map (\<lambda>j. fmul ar (lane_dot ar (Q ! i) (K ! j)) (scale_fp ar depth))
                   [0..<seqLength]) [0..<seqLength])"
proof -
  define n where "n = seqLength"
  define f where "f i j = fmul ar (lane_dot ar (Q ! i) (K ! j)) (scale_fp ar depth)" for i j
  define Inv where "Inv T out \<longleftrightarrow>
      length out = n \<and> (\<forall>r\<in>set out. length r = n) \<and> (\<forall>(i, j)\<in>T. out ! i ! j = f i j)"
    for T and out :: "'a list list"
  define cell where "cell = (\<lambda>i j buf. do {
      sum \<leftarrow> for_loop (count_by 4 0 depth) (\<lambda>k_idx sum. do {
          Qi \<leftarrow> rd Q i;
          q_vals \<leftarrow> loadu_fp Qi k_idx;
          Kj \<leftarrow> rd K j;
          k_vals \<leftarrow> loadu_fp Kj k_idx;
          Some (add_fp ar sum (mul_fp ar q_vals k_vals))
        }) (setzero_fp ar);
      wr2_fp buf i j (fmul ar (hsum_fp ar sum) (scale_fp ar depth))
    })"
  have cell_step: "\<exists>s'. cell i j s = Some s' \<and> Inv (T \<union> {(i, j)}) s'"
    if "i < n" "j < n" "Inv T s" for i j T s
  proof -
    from that assms have r: "for_loop (count_by 4 0 depth) (\<lambda>k_idx sum. do {
          Qi \<leftarrow> rd Q i;
          q_vals \<leftarrow> loadu_fp Qi k_idx;
          Kj \<leftarrow> rd K j;
          k_vals \<leftarrow> loadu_fp Kj k_idx;
          Some (add_fp ar sum (mul_fp ar q_vals k_vals))
        }) (setzero_fp ar)
        = Some (Lanes (lane_sum ar (Q ! i) (K ! j) 0) (lane_sum ar (Q ! i) (K ! j) 1)
                   (lane_sum ar (Q ! i) (K ! j) 2) (lane_sum ar (Q ! i) (K ! j) 3))"
      by (intro lanes_loop_rows) (simp_all add: n_def)
    from that have dims: "length s = n" "\<forall>r\<in>set s. length r = n" by (simp_all add: Inv_def)
    then have si: "length (s ! i) = n" using that(1) by simp
    let ?s' = "s[i := (s ! i)[j := f i j]]"
    have "cell i j s = Some ?s'"
      using wr2_fp_Some[of i s j] that(1,2) dims(1) si
      by (simp add: cell_def r f_def lane_dot_def)
    moreover have "Inv (T \<union> {(i, j)}) ?s'"
      unfolding Inv_def
    proof (intro conjI ballI)
      show "length ?s' = n" using dims by simp
      show "length r = n" if "r \<in> set ?s'" for r
        using that dims si by (auto dest!: set_update_subset_insert[THEN subsetD])
      show "case c of (i', j') \<Rightarrow> ?s' ! i' ! j' = f i' j'" if "c \<in> T \<union> {(i, j)}" for c
      proof (cases c)
        case (Pair i' j')
        show ?thesis
        proof (cases "(i', j') = (i, j)")
          case True
          then show ?thesis using Pair \<open>i < n\<close> \<open>j < n\<close> dims(1) si by simp
        next
          case False
          with that Pair have "(i', j') \<in> T" by auto
          with \<open>Inv T s\<close> have old: "s ! i' ! j' = f i' j'" by (auto simp: Inv_def)
          show ?thesis
          proof (cases "i' = i")
            case True
            with False have "j' \<noteq> j" by simp
            with True old Pair \<open>i < n\<close> dims(1) show ?thesis by simp
          next
            case False
            with old Pair show ?thesis by simp
          qed
        qed
      qed
    qed
    ultimately show ?thesis by blast
  qed
  have L4: "\<exists>s'. for_loop [bj..<min (bj + 64) n] (cell i) s = Some s' \<and>
              Inv (T \<union> (\<Union>j\<in>set [bj..<min (bj + 64) n]. {(i, j)})) s'"
    if "i < n" "Inv T s" for bj i T s
    by (rule for_loop_acc[where Inv = Inv and A = "\<lambda>j. {(i, j)}"]) (use cell_step that in auto)
  have L3: "\<exists>s'. for_loop [bi..<min (bi + 64) n] (\<lambda>i. for_loop [bj..<min (bj + 64) n] (cell i)) s = Some s' \<and>
              Inv (T \<union> (\<Union>i\<in>set [bi..<min (bi + 64) n]. \<Union>j\<in>set [bj..<min (bj + 64) n]. {(i, j)})) s'"
    if "Inv T s" for bi bj T s
    by (rule for_loop_acc[where Inv = Inv
          and A = "\<lambda>i. \<Union>j\<in>set [bj..<min (bj + 64) n]. {(i, j)}"]) (use L4 that in auto)
  have L2: "\<exists>s'. for_loop (count_by 64 0 n)
               (\<lambda>bj. for_loop [bi..<min (bi + 64) n] (\<lambda>i. for_loop [bj..<min (bj + 64) n] (cell i))) s = Some s' \<and>
              Inv (T \<union> (\<Union>bj\<in>set (count_by 64 0 n). \<Union>i\<in>set [bi..<min (bi + 64) n].
                     \<Union>j\<in>set [bj..<min (bj + 64) n]. {(i, j)})) s'"
    if "Inv T s" for bi T s
    by (rule for_loop_acc[where Inv = Inv
          and A = "\<lambda>bj. \<Union>i\<in>set [bi..<min (bi + 64) n]. \<Union>j\<in>set [bj..<min (bj + 64) n]. {(i, j)}"])
       (use L3 that in auto)
  have L1: "\<exists>s'. for_loop (count_by 64 0 n)
               (\<lambda>bi. for_loop (count_by 64 0 n)
                 (\<lambda>bj. for_loop [bi..<min (bi + 64) n] (\<lambda>i. for_loop [bj..<min (bj + 64) n] (cell i)))) s = Some s' \<and>
              Inv (T \<union> (\<Union>bi\<in>set (count_by 64 0 n). \<Union>bj\<in>set (count_by 64 0 n).
                     \<Union>i\<in>set [bi..<min (bi + 64) n]. \<Union>j\<in>set [bj..<min (bj + 64) n]. {(i, j)})) s'"
    if "Inv T s" for T s
    by (rule for_loop_acc[where Inv = Inv
          and A = "\<lambda>bi. \<Union>bj\<in>set (count_by 64 0 n). \<Union>i\<in>set [bi..<min (bi + 64) n].
                     \<Union>j\<in>set [bj..<min (bj + 64) n]. {(i, j)}"])
       (use L2 that in auto)
  let ?U = "\<Union>bi\<in>set (count_by 64 0 n). \<Union>bj\<in>set (count_by 64 0 n).
              \<Union>i\<in>set [bi..<min (bi + 64) n]. \<Union>j\<in>set [bj..<min (bj + 64) n]. {(i, j)}"
  have init: "Inv {} (replicate n (malloc_fp ar n))"
    by (simp add: Inv_def malloc_fp_def)
  from L1[OF init] obtain out where out:
    "for_loop (count_by 64 0 n)
       (\<lambda>bi. for_loop (count_by 64 0 n)
         (\<lambda>bj. for_loop [bi..<min (bi + 64) n] (\<lambda>i. for_loop [bj..<min (bj + 64) n] (cell i))))
       (replicate n (malloc_fp ar n)) = Some out"
    "Inv ?U out" by auto
  have covered: "(i, j) \<in> ?U" if "i < n" "j < n" for i j
    using tile_member[OF that(1)] tile_member[OF that(2)] by blast
  have "out = map (\<lambda>i. map (\<lambda>j. f i j) [0..<n]) [0..<n]"
  proof (rule nth_equalityI)
    show "length out = length (map (\<lambda>i. map (\<lambda>j. f i j) [0..<n]) [0..<n])"
      using out(2) by (simp add: Inv_def)
    fix i assume "i < length out"
    then have i: "i < n" using out(2) by (simp add: Inv_def)
    then have li: "length (out ! i) = n" using out(2) by (simp add: Inv_def)
    have "out ! i = map (\<lambda>j. f i j) [0..<n]"
    proof (rule nth_equalityI)
      show "length (out ! i) = length (map (\<lambda>j. f i j) [0..<n])" using li by simp
      fix j assume "j < length (out ! i)"
      then have j: "j < n" using li by simp
      from covered[OF i j] out(2) have "out ! i ! j = f i j" by (auto simp: Inv_def)
      then show "out ! i ! j = map (\<lambda>j. f i j) [0..<n] ! j" using j by simp
    qed
    then show "out ! i = map (\<lambda>i. map (\<lambda>j. f i j) [0..<n]) [0..<n] ! i" using i by simp
  qed
  with out(1) show ?thesis
    unfolding sdpa_fp_def Let_def cell_def n_def f_def scale_fp_def by simp
qed

lemma sdpa_fp_ignores_V: "sdpa_fp ar Q K V' seqLength depth = sdpa_fp ar Q K V seqLength depth"
  by (simp add: sdpa_fp_def)

subsection \<open>Exact arithmetic is one arithmetic\<close>

text \<open>With the operations of the real numbers, the four functions are the functions of
  the first part, on every input.\<close>

lemma lanes_loop_real:
  assumes "\<And>j r. g j (case_lanes M128 r) = map_option (case_lanes M128) (f j r)"
  shows "for_loop js g (case_lanes M128 r0) = map_option (case_lanes M128) (for_loop js f r0)"
  by (rule for_loop_sim_eq) (rule assms)

lemma hsum_real: "hsum (case_lanes M128 r) = hsum_fp real_ops r"
  by (cases r) (simp add: real_ops_def)

lemma add_mul_real:
  "mm_add_ps (case_lanes M128 r) (mm_mul_ps (case_lanes M128 a) (case_lanes M128 b))
     = case_lanes M128 (add_fp real_ops r (mul_fp real_ops a b))"
  by (cases r; cases a; cases b) (simp add: real_ops_def)

lemma loadu_real: "mm_loadu_ps a j = map_option (case_lanes M128) (loadu_fp a j)"
  by (simp add: mm_loadu_ps_def loadu_fp_def)

lemma storeu_real: "mm_storeu_ps a j (case_lanes M128 v) = storeu_fp a j v"
  by (cases v) simp

lemma gelu_fp_real: "gelu_fp real_ops x n = gelu x n"
proof -
  have "(do {
         input_vals \<leftarrow> loadu_fp x i;
         let result = mul_fp real_ops input_vals (set1_fp (fhalf real_ops));
         storeu_fp buf i result }) = (do {
         input_vals \<leftarrow> mm_loadu_ps x i;
         let result = mm_mul_ps input_vals (mm_set1_ps (1 / 2));
         mm_storeu_ps buf i result })" for i buf
    by (simp add: loadu_fp_def mm_loadu_ps_def set1_fp_def mm_set1_ps_def real_ops_def)
  then show ?thesis
    by (simp add: gelu_fp_def gelu_def malloc_fp_def malloc_floats_def real_ops_def)
qed

lemma norm_fp_real: "norm_fp real_ops x n f = norm_layer x n f"
  by (simp add: norm_fp_def norm_layer_def real_ops_def)

lemma linear_fp_real: "linear_fp real_ops x wts bs n m = linear_layer x wts bs n m"
proof -
  have body: "(do {
           input_vals \<leftarrow> mm_loadu_ps x j;
           wrow \<leftarrow> rd wts i;
           weight_vals \<leftarrow> mm_loadu_ps wrow j;
           Some (mm_add_ps (case_lanes M128 r) (mm_mul_ps input_vals weight_vals))
         }) = map_option (case_lanes M128) (do {
           input_vals \<leftarrow> loadu_fp x j;
           wrow \<leftarrow> rd wts i;
           weight_vals \<leftarrow> loadu_fp wrow j;
           Some (add_fp real_ops r (mul_fp real_ops input_vals weight_vals))
         })" for i j r
    by (cases "loadu_fp x j"; cases "rd wts i")
       (auto simp: loadu_real add_mul_real map_option_case split: option.splits)
  have loop: "for_loop (count_by 4 0 n) (\<lambda>j result. do {
           input_vals \<leftarrow> mm_loadu_ps x j;
           wrow \<leftarrow> rd wts i;
           weight_vals \<leftarrow> mm_loadu_ps wrow j;
           Some (mm_add_ps result (mm_mul_ps input_vals weight_vals))
         }) mm_setzero_ps
      = map_option (case_lanes M128) (for_loop (count_by 4 0 n) (\<lambda>j result. do {
           input_vals \<leftarrow> loadu_fp x j;
           wrow \<leftarrow> rd wts i;
           weight_vals \<leftarrow> loadu_fp wrow j;
           Some (add_fp real_ops result (mul_fp real_ops input_vals weight_vals))
         }) (setzero_fp real_ops))" for i
  proof -
    have z: "mm_setzero_ps = case_lanes M128 (setzero_fp real_ops)"
      by (simp add: mm_setzero_ps_def setzero_fp_def real_ops_def)
    show ?thesis unfolding z by (rule lanes_loop_real) (rule body)
  qed
  have "(do {
       result \<leftarrow> for_loop (count_by 4 0 n) (\<lambda>j result. do {
           input_vals \<leftarrow> mm_loadu_ps x j;
           wrow \<leftarrow> rd wts i;
           weight_vals \<leftarrow> mm_loadu_ps wrow j;
           Some (mm_add_ps result (mm_mul_ps input_vals weight_vals))
         }) mm_setzero_ps;
       b \<leftarrow> rd bs i;
       Some (hsum result + b)
     }) = (do {
       result \<leftarrow> for_loop (count_by 4 0 n) (\<lambda>j result. do {
           input_vals \<leftarrow> loadu_fp x j;
           wrow \<leftarrow> rd wts i;
           weight_vals \<leftarrow> loadu_fp wrow j;
           Some (add_fp real_ops result (mul_fp real_ops input_vals weight_vals))
         }) (setzero_fp real_ops);
       b \<leftarrow> rd bs i;
       Some (fadd real_ops (hsum_fp real_ops result) b)
     })" for i
    unfolding loop
    by (cases "for_loop (count_by 4 0 n) (\<lambda>j result. do {
           input_vals \<leftarrow> loadu_fp x j;
           wrow \<leftarrow> rd wts i;
           weight_vals \<leftarrow> loadu_fp wrow j;
           Some (add_fp real_ops result (mul_fp real_ops input_vals weight_vals))
         }) (setzero_fp real_ops)") (simp_all add: hsum_real, simp add: real_ops_def)
  then show ?thesis by (simp add: linear_fp_def linear_layer_def)
qed

lemma sdpa_fp_real: "sdpa_fp real_ops Q K V n d = scaled_dot_product_attention Q K V n d"
proof -
  have body: "(do {
           Qi \<leftarrow> rd Q i;
           q_vals \<leftarrow> mm_load_ps Qi k_idx;
           Kj \<leftarrow> rd K j;
           k_vals \<leftarrow> mm_load_ps Kj k_idx;
           Some (mm_add_ps (case_lanes M128 r) (mm_mul_ps q_vals k_vals))
         }) = map_option (case_lanes M128) (do {
           Qi \<leftarrow> rd Q i;
           q_vals \<leftarrow> loadu_fp Qi k_idx;
           Kj \<leftarrow> rd K j;
           k_vals \<leftarrow> loadu_fp Kj k_idx;
           Some (add_fp real_ops r (mul_fp real_ops q_vals k_vals))
         })" for i j k_idx r
    by (cases "rd Q i"; cases "rd K j")
       (auto simp: mm_load_ps_def loadu_real add_mul_real map_option_case split: option.splits)
  have loop: "for_loop (count_by 4 0 d) (\<lambda>k_idx sum. do {
           Qi \<leftarrow> rd Q i;
           q_vals \<leftarrow> mm_load_ps Qi k_idx;
           Kj \<leftarrow> rd K j;
           k_vals \<leftarrow> mm_load_ps Kj k_idx;
           Some (mm_add_ps sum (mm_mul_ps q_vals k_vals))
         }) mm_setzero_ps
      = map_option (case_lanes M128) (for_loop (count_by 4 0 d) (\<lambda>k_idx sum. do {
           Qi \<leftarrow> rd Q i;
           q_vals \<leftarrow> loadu_fp Qi k_idx;
           Kj \<leftarrow> rd K j;
           k_vals \<leftarrow> loadu_fp Kj k_idx;
           Some (add_fp real_ops sum (mul_fp real_ops q_vals k_vals))
         }) (setzero_fp real_ops))" for i j
  proof -
    have z: "mm_setzero_ps = case_lanes M128 (setzero_fp real_ops)"
      by (simp add: mm_setzero_ps_def setzero_fp_def real_ops_def)
    show ?thesis unfolding z by (rule lanes_loop_real) (rule body)
  qed
  have cell: "(do {
           sum \<leftarrow> for_loop (count_by 4 0 d) (\<lambda>k_idx sum. do {
               Qi \<leftarrow> rd Q i;
               q_vals \<leftarrow> mm_load_ps Qi k_idx;
               Kj \<leftarrow> rd K j;
               k_vals \<leftarrow> mm_load_ps Kj k_idx;
               Some (mm_add_ps sum (mm_mul_ps q_vals k_vals))
             }) mm_setzero_ps;
           wr2 buf i j (hsum sum * (1 / sqrt (real d)))
         }) = (do {
           sum \<leftarrow> for_loop (count_by 4 0 d) (\<lambda>k_idx sum. do {
               Qi \<leftarrow> rd Q i;
               q_vals \<leftarrow> loadu_fp Qi k_idx;
               Kj \<leftarrow> rd K j;
               k_vals \<leftarrow> loadu_fp Kj k_idx;
               Some (add_fp real_ops sum (mul_fp real_ops q_vals k_vals))
             }) (setzero_fp real_ops);
           wr2_fp buf i j (fmul real_ops (hsum_fp real_ops sum)
             (float_of_double real_ops
               (ddiv real_ops (double_of_float real_ops (fone real_ops))
                  (dsqrt real_ops (double_of_float real_ops (float_of_int real_ops d))))))
         })" for i j buf
    unfolding loop
    by (cases "for_loop (count_by 4 0 d) (\<lambda>k_idx sum. do {
               Qi \<leftarrow> rd Q i;
               q_vals \<leftarrow> loadu_fp Qi k_idx;
               Kj \<leftarrow> rd K j;
               k_vals \<leftarrow> loadu_fp Kj k_idx;
               Some (add_fp real_ops sum (mul_fp real_ops q_vals k_vals))
             }) (setzero_fp real_ops)")
       (simp_all add: hsum_real wr2_def wr2_fp_def, simp add: real_ops_def)
  show ?thesis
    unfolding sdpa_fp_def scaled_dot_product_attention_def Let_def cell[symmetric]
    by (simp add: malloc_fp_def malloc_floats_def real_ops_def)
qed

subsection \<open>The claims on the values\<close>

text \<open>In exact arithmetic the four lanes add up to the dot product.\<close>

lemma lane_dot_real:
  assumes "length b = length a" and "4 dvd length a"
  shows "lane_dot real_ops a b = dot b a"
proof -
  have "linear_fp real_ops a [b] [0] (length a) 1 = Some [fadd real_ops (lane_dot real_ops a b) 0]"
    using linear_fp_value[of a "length a" "[b]" 1 "[0]" real_ops] assms by simp
  moreover have "linear_layer a [b] [0] (length a) 1 = Some [0 + dot b a]"
    using linear_layer_value[of a "length a" "[b]" 1 "[0]"] assms by simp
  ultimately have "fadd real_ops (lane_dot real_ops a b) 0 = 0 + dot b a"
    by (simp only: linear_fp_real option.inject list.inject)
  moreover have "fadd real_ops v 0 = v" for v by (simp add: real_ops_def)
  ultimately show ?thesis by simp
qed

text \<open>
  Claim C6. For an input vector of length \<open>n\<close>, \<open>n\<close> a multiple of 4 (the lane width), a
  weight matrix of \<open>m\<close> rows of length \<open>n\<close> and a bias vector of length \<open>m\<close>, \<open>linear\<close>
  returns a vector of length \<open>m\<close> whose cell \<open>i\<close> is the dot product of the input and
  \<open>weights[i]\<close> plus \<open>bias[i]\<close>. The sum and the products are those of the machine, whatever
  they are, and the dot product is computed on four lanes, as the specification says: the
  program adds the bias last, to the sum of the lanes. The equation also holds when \<open>n\<close>
  or \<open>m\<close> is 0.
\<close>

theorem linear_correct:
  assumes "length fcInput = n" and "4 dvd n"
    and "length wts = m" and "\<forall>r\<in>set wts. length r = n" and "length bs = m"
  shows "linear_fp ar fcInput wts bs n m =
           Some (map (\<lambda>i. fadd ar (lane_dot ar fcInput (wts ! i)) (bs ! i)) [0..<m])"
  using assms by (rule linear_fp_value)

theorem linear_correct_witness:
  "linear_fp real_ops [1, 2, 3, 4] [[1, 1, 1, 1], [1, 0, 2, 0]] [10, 20] 4 2 = Some [20, 27]"
  using linear_correct[of "[1, 2, 3, 4]" 4 "[[1, 1, 1, 1], [1, 0, 2, 0]]" 2 "[10, 20]" real_ops]
  by (simp add: lane_dot_def lane_sum_def real_ops_def upt_conv_Cons)

text \<open>
  Claim C4. For an input vector \<open>x\<close> of length \<open>size\<close>, \<open>size\<close> a multiple of 4, \<open>gelu\<close>
  returns a vector of length \<open>size\<close> whose cell \<open>i\<close> is the product of \<open>x[i]\<close> and \<open>0.5\<close>,
  the product of the machine: the scaling of the GELU formula alone, without its tanh
  factor.
\<close>

theorem gelu_half:
  assumes "length x = n" and "4 dvd n"
  shows "gelu_fp ar x n = Some (map (\<lambda>v. fmul ar v (fhalf ar)) x)"
  using assms by (rule gelu_fp_value)

theorem gelu_half_witness: "gelu_fp real_ops [1, 2, 3, 4] 4 = Some [1 / 2, 1, 3 / 2, 2]"
  using gelu_half[of "[1, 2, 3, 4]" 4 real_ops] by (simp add: real_ops_def)

text \<open>
  Claim C7. For an input of \<open>seqLength\<close> rows of \<open>features\<close> cells, \<open>norm\<close> treats each
  row on its own: it takes the mean of the row and its biased variance, both sums divided
  by \<open>features\<close>, and the output row is the input row less the mean, divided by the square
  root of the variance plus \<open>1e-5\<close>. Nothing else is applied: no scale, no shift. The
  operations are those of the machine, on floats up to the variance and on doubles from
  the sum under the root on.
\<close>

theorem norm_rows:
  assumes "length x = seqLength" and "\<forall>r\<in>set x. length r = features"
  shows "norm_fp ar x seqLength features = Some (map (normalize_row_fp ar) x)"
  using assms by (rule norm_fp_value)

theorem norm_rows_witness:
  "norm_fp real_ops [[1, 3], [2, 2]] 2 2
     = Some [[- 1 / sqrt (1 + 1 / 100000), 1 / sqrt (1 + 1 / 100000)], [0, 0]]"
  using norm_rows[of "[[1, 3], [2, 2]]" 2 2 real_ops]
  by (simp add: normalize_row_fp_def mean_fp_def variance_fp_def real_ops_def EPSILON_def)

text \<open>
  Claim C3. For \<open>Q\<close> and \<open>K\<close> of \<open>seqLength\<close> rows of \<open>head_width\<close> cells, \<open>head_width\<close> a
  multiple of 4, the kernel returns the \<open>seqLength \<times> seqLength\<close> matrix whose entry \<open>(i, j)\<close> is
  the dot product of \<open>Q[i]\<close> and \<open>K[j]\<close>, computed on four lanes, times the scale
  \<open>1 / sqrt head_width\<close>, in the operations of the machine. No softmax is applied, and the
  result is the same for every \<open>V\<close>.
\<close>

theorem attention_scores:
  assumes "length Q = seqLength" and "\<forall>r\<in>set Q. length r = depth"
    and "length K = seqLength" and "\<forall>r\<in>set K. length r = depth"
    and "4 dvd depth"
  shows "sdpa_fp ar Q K V seqLength depth =
           Some (map (\<lambda>i. map (\<lambda>j. fmul ar (lane_dot ar (Q ! i) (K ! j)) (scale_fp ar depth))
                   [0..<seqLength]) [0..<seqLength])
       \<and> sdpa_fp ar Q K V' seqLength depth = sdpa_fp ar Q K V seqLength depth"
  by (intro conjI sdpa_fp_value assms sdpa_fp_ignores_V)

theorem attention_scores_witness:
  "sdpa_fp real_ops [[1, 0, 0, 0], [0, 2, 0, 0]] [[1, 1, 1, 1], [3, 3, 3, 3]]
      [[5, 5, 5, 5], [7, 7, 7, 7]] 2 4 = Some [[1 / 2, 3 / 2], [1, 3]]
   \<and> sdpa_fp real_ops [[1, 0, 0, 0], [0, 2, 0, 0]] [[1, 1, 1, 1], [3, 3, 3, 3]] [] 2 4
      = Some [[1 / 2, 3 / 2], [1, 3]]"
  using attention_scores[of "[[1, 0, 0, 0], [0, 2, 0, 0]]" 2 4 "[[1, 1, 1, 1], [3, 3, 3, 3]]"
      real_ops "[[5, 5, 5, 5], [7, 7, 7, 7]]" "[]"]
  by (simp add: lane_dot_def lane_sum_def scale_fp_def real_ops_def upt_conv_Cons)

text \<open>
  Claim C5 asks that \<open>block\<close> is its pipeline of seven steps on every valid input. On 16
  positions, the length \<^verbatim>\<open>main\<close> runs, the first two steps return and the third does not:
  the heads are split, the kernel returns for each head rows of 16 scores, and the
  recombination copies \<open>HEAD_DIM\<close> floats out of each, past its end. So the block has no
  result there, as on every sequence of fewer than \<open>HEAD_DIM\<close> positions (lemma
  \<open>block_short\<close>). From \<open>HEAD_DIM\<close> positions on, the block returns the value of the seven
  steps (lemmas \<open>block_eq_pipeline\<close> and \<open>block_value\<close>, the second in exact arithmetic).
\<close>

theorem block_faults_at_sixteen_positions:
  "(\<exists>normalized_x QKV heads head_outputs.
       norm_layer (replicate 16 (replicate EMBEDDING_SIZE 1)) 16 EMBEDDING_SIZE = Some normalized_x
     \<and> project_qkv normalized_x 16 example_block = Some QKV
     \<and> split_heads (map fst QKV) (map (fst \<circ> snd) QKV) (map (snd \<circ> snd) QKV) 16 = Some heads
     \<and> attention_heads heads 16 = Some head_outputs
     \<and> length (head_outputs ! 0 ! 0) = 16
     \<and> concat_heads head_outputs 16 EMBEDDING_SIZE = None)
   \<and> block (replicate 16 (replicate EMBEDDING_SIZE 1)) 16 EMBEDDING_SIZE example_block = None"
proof -
  obtain normalized_x QKV heads head_outputs where st:
    "norm_layer (replicate 16 (replicate EMBEDDING_SIZE 1)) 16 EMBEDDING_SIZE = Some normalized_x"
    "project_qkv normalized_x 16 example_block = Some QKV"
    "split_heads (map fst QKV) (map (fst \<circ> snd) QKV) (map (snd \<circ> snd) QKV) 16 = Some heads"
    "attention_heads heads 16 = Some head_outputs"
    using block_reaches_recombination[of "replicate 16 (replicate EMBEDDING_SIZE 1)" 16 example_block]
      example_block_ok by auto
  have len: "length (head_outputs ! 0 ! 0) = 16"
    using attention_heads_shape(3)[OF st(4), of 0 0] by (simp add: NUM_HEADS_def)
  then have "concat_heads head_outputs 16 EMBEDDING_SIZE = None"
    by (intro concat_heads_short) (simp_all add: HEAD_DIM_64)
  with st len show ?thesis
    using block_short[of 16] by (simp add: HEAD_DIM_64)
qed

end
